(* ===== verification/Karte_Prelude.thy ===== *)
theory Karte_Prelude
  imports Main "HOL-Library.Word" "HOL-Library.Monad_Syntax"
begin

text \<open>
  Shared vocabulary of the development: the machine types, the wrap-around arithmetic of the
  release build, panics, page alignment, and the list operations that the kernel's tables use
  (``update the first entry that matches'').

  Conventions.
  \<^item> \<open>usize\<close> values are natural numbers below \<open>2 ^ 64\<close>. Both targets (riscv64 and x86\_64) are
    64-bit and the kernel is built with \<open>--release\<close>, where \<open>+\<close>, \<open>-\<close> and \<open>*\<close> wrap; the
    operations \<open>wadd\<close>, \<open>wsub\<close> and \<open>wmul\<close> write that out.
  \<^item> A computation that may panic (slice index out of range, \<open>unwrap\<close>, \<open>expect\<close>) returns an
    option whose \<open>None\<close> is the panic; a Rust \<open>Option\<close> or \<open>Result\<close> is a value below it.
\<close>

unbundle bit_operations_syntax

type_synonym u8 = "8 word"
type_synonym u16 = "16 word"
type_synonym u32 = "32 word"
type_synonym u64 = "64 word"
type_synonym usize = nat
type_synonym 'a panicking = "'a option"

named_theorems wrap_simps "wrap-around operations that do not wrap"
named_theorems bitmap_simps "bit tests, bit sets and bit clears on bitmap words"
named_theorems table_simps "lookups in a table after the update of its first match"

abbreviation USIZE_MAX :: usize where
  "USIZE_MAX \<equiv> 2 ^ 64 - 1"

section \<open>Wrap-around arithmetic on usize\<close>

definition wadd :: "usize \<Rightarrow> usize \<Rightarrow> usize" where
  "wadd x y = (x + y) mod 2 ^ 64"

definition wsub :: "usize \<Rightarrow> usize \<Rightarrow> usize" where
  "wsub x y = (x + (2 ^ 64 - y)) mod 2 ^ 64"

definition wmul :: "usize \<Rightarrow> usize \<Rightarrow> usize" where
  "wmul x y = (x * y) mod 2 ^ 64"

definition checked_add :: "usize \<Rightarrow> usize \<Rightarrow> usize option" where
  "checked_add x y = (if x + y < 2 ^ 64 then Some (x + y) else None)"

lemma wadd_eq [wrap_simps]: "x + y < 2 ^ 64 \<Longrightarrow> wadd x y = x + y"
  by (simp add: wadd_def)

lemma wsub_eq [wrap_simps]:
  assumes "y \<le> x" and "x < 2 ^ 64"
  shows "wsub x y = x - y"
proof -
  have "x + (2 ^ 64 - y) = (x - y) + 2 ^ 64" using assms by simp
  then have "wsub x y = (x - y) mod 2 ^ 64" by (simp only: wsub_def mod_add_self2)
  then show ?thesis using assms by simp
qed

lemma wsub_wraps:
  assumes "x < y" and "y \<le> 2 ^ 64"
  shows "wsub x y = 2 ^ 64 - (y - x)"
  using assms by (simp add: wsub_def)

lemma wmul_eq [wrap_simps]: "x * y < 2 ^ 64 \<Longrightarrow> wmul x y = x * y"
  by (simp add: wmul_def)

lemma wadd_less [simp]: "wadd x y < 2 ^ 64"
  by (simp add: wadd_def)

lemma wmul_less [simp]: "wmul x y < 2 ^ 64"
  by (simp add: wmul_def)

section \<open>The user address range\<close>

text \<open>Bounds of the mmap area, \<open>kernel/src/process/mod.rs\<close>.\<close>

definition USER_MMAP_BASE :: usize where
  "USER_MMAP_BASE = 0x20000000"

definition USER_MMAP_LIMIT :: usize where
  "USER_MMAP_LIMIT = 0x00007FFFFFFFF000"

section \<open>Page alignment\<close>

definition PAGE_SIZE :: usize where
  "PAGE_SIZE = 4096"

text \<open>
  \<open>(x + PAGE_SIZE - 1) & !(PAGE_SIZE - 1)\<close> and \<open>x & !(PAGE_SIZE - 1)\<close>, on 64-bit words as the
  code computes them.
\<close>

definition page_align_down :: "usize \<Rightarrow> usize" where
  "page_align_down x = unat ((of_nat x :: u64) AND NOT 4095)"

definition page_align_up :: "usize \<Rightarrow> usize" where
  "page_align_up x = page_align_down (wadd x 4095)"

lemma and_not_4095: "unat ((w :: u64) AND NOT 4095) = unat w div 4096 * 4096"
proof -
  have m: "(4095 :: u64) = mask 12" by (simp add: mask_eq_exp_minus_1)
  have "w AND NOT (mask 12) = push_bit 12 (drop_bit 12 w)"
    by (rule bit_word_eqI) (auto simp: bit_simps)
  then have "unat (w AND NOT (mask 12)) = unat (push_bit 12 (drop_bit 12 w))" by simp
  also have "\<dots> = (unat (drop_bit 12 w) * 4096) mod 2 ^ 64"
    by (simp add: push_bit_eq_mult unat_mult_lem unat_word_ariths mult.commute)
  also have "unat (drop_bit 12 w) = drop_bit 12 (unat w)"
    by (rule unat_drop_bit_eq)
  also have "drop_bit 12 (unat w) = unat w div 4096"
    by (simp add: drop_bit_eq_div)
  also have "(unat w div 4096 * 4096) mod 2 ^ 64 = unat w div 4096 * 4096"
  proof -
    have "unat w div 4096 * 4096 \<le> unat w" by simp
    also have "unat w < 2 ^ 64" using unsigned_less [of w] by simp
    finally show ?thesis by simp
  qed
  finally show ?thesis by (simp add: m)
qed

lemma page_align_down_eq: "x < 2 ^ 64 \<Longrightarrow> page_align_down x = x div 4096 * 4096"
  by (simp only: page_align_down_def and_not_4095) (simp add: unat_of_nat)

lemma page_align_up_eq:
  "x + 4095 < 2 ^ 64 \<Longrightarrow> page_align_up x = (x + 4095) div 4096 * 4096"
  by (simp add: page_align_up_def page_align_down_eq wadd_eq)

lemma page_align_up_ge: "x + 4095 < 2 ^ 64 \<Longrightarrow> x \<le> page_align_up x"
  by (simp add: page_align_up_eq)

lemma page_align_up_le: "x + 4095 < 2 ^ 64 \<Longrightarrow> page_align_up x \<le> x + 4095"
  by (simp add: page_align_up_eq)

lemma page_align_up_aligned: "x + 4095 < 2 ^ 64 \<Longrightarrow> page_align_up x mod 4096 = 0"
  by (simp add: page_align_up_eq)

lemma page_align_up_least:
  assumes "x + 4095 < 2 ^ 64" and "x \<le> y" and "y mod 4096 = 0"
  shows "page_align_up x \<le> y"
proof -
  obtain q where y: "y = q * 4096" using assms(3) by (metis mod_0_imp_dvd dvd_div_mult_self)
  have "(x + 4095) div 4096 \<le> q" using assms(2) unfolding y by linarith
  then show ?thesis unfolding page_align_up_eq [OF assms(1)] y by (rule mult_le_mono1)
qed

section \<open>Bits of a bitmap word\<close>

lemma test_bit_zero [bitmap_simps]: "(w AND push_bit b 1 = 0) = (\<not> bit (w :: u64) b)"
  by (simp add: and_exp_eq_0_iff_not_bit)

lemma bit_or_shift [bitmap_simps]:
  "b < 64 \<Longrightarrow> bit ((w :: u64) OR push_bit b 1) n = (bit w n \<or> n = b)"
  by (auto simp: bit_simps)

lemma bit_and_not_shift [bitmap_simps]:
  "bit ((w :: u64) AND NOT (push_bit b 1)) n = (bit w n \<and> n \<noteq> b)"
  by (auto simp: bit_simps dest: bit_imp_le_length)

section \<open>Little-endian bytes\<close>

text \<open>
  \<open>to_le_bytes\<close> and \<open>from_le_bytes\<close> of the fixed-width integers, and \<open>to_ne_bytes\<close> and
  \<open>from_ne_bytes\<close>, which agree with them on the little-endian targets.
\<close>

definition le_bytes :: "nat \<Rightarrow> 'a::len word \<Rightarrow> u8 list" where
  "le_bytes n w = map (\<lambda>i. ucast (drop_bit (8 * i) w)) [0..<n]"

fun le_word :: "u8 list \<Rightarrow> 'a::len word" where
  "le_word [] = 0"
| "le_word (b # bs) = ucast b OR push_bit 8 (le_word bs)"

lemma length_le_bytes [simp]: "length (le_bytes n w) = n"
  by (simp add: le_bytes_def)

lemma le_bytes_Suc: "le_bytes (Suc n) w = ucast w # le_bytes n (drop_bit 8 w)"
  by (simp add: le_bytes_def map_upt_Suc ac_simps del: upt_Suc)

lemma bit_le_word_le_bytes:
  "bit (le_word (le_bytes n w) :: 'a::len word) k \<longleftrightarrow> k < 8 * n \<and> bit (w :: 'a word) k"
proof (induction n arbitrary: w k)
  case 0
  then show ?case by (simp add: le_bytes_def)
next
  case (Suc n)
  show ?case
    by (auto simp: le_bytes_Suc bit_simps Suc.IH dest: bit_imp_le_length)
qed

lemma le_word_le_bytes: "LENGTH('a::len) \<le> 8 * n \<Longrightarrow> le_word (le_bytes n w) = (w :: 'a word)"
  by (rule bit_word_eqI) (simp add: bit_le_word_le_bytes)

lemma bit_le_word: "bit (le_word bs :: 'a::len word) k \<longleftrightarrow>
   k < LENGTH('a) \<and> k < 8 * length bs \<and> bit (bs ! (k div 8)) (k mod 8)"
proof (induction bs arbitrary: k)
  case Nil
  then show ?case by simp
next
  case (Cons b bs)
  show ?case
  proof (cases "k < 8")
    case True
    then show ?thesis by (auto simp: bit_simps Cons.IH)
  next
    case False
    then have "bit b k = False" using bit_imp_le_length [of b k] by auto
    moreover have "k div 8 = Suc ((k - 8) div 8)" "k mod 8 = (k - 8) mod 8" using False
      by (simp_all add: div_if mod_if)
    ultimately show ?thesis using False by (auto simp: bit_simps Cons.IH)
  qed
qed

lemma le_bytes_le_word:
  assumes "8 * length bs \<le> LENGTH('a::len)"
  shows "le_bytes (length bs) (le_word bs :: 'a word) = bs"
proof (rule nth_equalityI)
  fix i assume "i < length (le_bytes (length bs) (le_word bs :: 'a word))"
  then have i: "i < length bs" by simp
  show "le_bytes (length bs) (le_word bs :: 'a word) ! i = bs ! i"
  proof (rule bit_word_eqI)
    fix k assume "k < LENGTH(8)"
    then have k: "k < 8" by simp
    with i assms have "8 * i + k < LENGTH('a)" by simp
    with k i show "bit (le_bytes (length bs) (le_word bs :: 'a word) ! i) k = bit (bs ! i) k"
      by (simp add: le_bytes_def bit_simps bit_le_word)
  qed
qed simp
section \<open>Tables: the first entry that matches\<close>

text \<open>
  \<open>for e in v.iter_mut() { if P(e) { f(e); return .. } }\<close>: the first matching entry is
  rewritten and the loop stops.
\<close>

fun upd_first :: "('a \<Rightarrow> bool) \<Rightarrow> ('a \<Rightarrow> 'a) \<Rightarrow> 'a list \<Rightarrow> 'a list" where
  "upd_first P f [] = []"
| "upd_first P f (x # xs) = (if P x then f x # xs else x # upd_first P f xs)"

lemma length_upd_first [simp]: "length (upd_first P f xs) = length xs"
  by (induction xs) auto

lemma upd_first_none [table_simps]: "\<not> (\<exists>x \<in> set xs. P x) \<Longrightarrow> upd_first P f xs = xs"
  by (induction xs) auto

lemma upd_first_split:
  assumes "find P xs = Some x"
  shows "\<exists>ys zs. xs = ys @ x # zs \<and> (\<forall>y \<in> set ys. \<not> P y) \<and> P x \<and>
    upd_first P f xs = ys @ f x # zs"
  using assms
proof (induction xs)
  case Nil
  then show ?case by simp
next
  case (Cons a xs)
  show ?case
  proof (cases "P a")
    case True
    with Cons.prems show ?thesis by (intro exI [of _ "[]"] exI [of _ xs]) simp
  next
    case False
    with Cons obtain ys zs where "xs = ys @ x # zs" "\<forall>y \<in> set ys. \<not> P y" "P x"
      "upd_first P f xs = ys @ f x # zs" by auto
    with False show ?thesis by (intro exI [of _ "a # ys"] exI [of _ zs]) simp
  qed
qed

lemma map_upd_first [table_simps]:
  "(\<And>x. P x \<Longrightarrow> g (f x) = g x) \<Longrightarrow> map g (upd_first P f xs) = map g xs"
  by (induction xs) auto

lemma find_upd_first [table_simps]:
  "(\<And>x. P (f x) = P x) \<Longrightarrow> find P (upd_first P f xs) = map_option f (find P xs)"
  by (induction xs) auto

lemma find_upd_first_other [table_simps]:
  "(\<And>x. P x \<Longrightarrow> \<not> Q x) \<Longrightarrow> (\<And>x. P x \<Longrightarrow> \<not> Q (f x)) \<Longrightarrow>
   find Q (upd_first P f xs) = find Q xs"
  by (induction xs) auto

lemma set_upd_first_subset: "set (upd_first P f xs) \<subseteq> set xs \<union> f ` {x \<in> set xs. P x}"
  by (induction xs) auto

lemma find_Some_iff_ex: "(find P xs \<noteq> None) = (\<exists>x \<in> set xs. P x)"
  by (induction xs) auto

lemma find_SomeD: "find P xs = Some x \<Longrightarrow> x \<in> set xs \<and> P x"
  by (induction xs) (auto split: if_splits)

lemma find_append: "find P (xs @ ys) = (case find P xs of None \<Rightarrow> find P ys | Some x \<Rightarrow> Some x)"
  by (induction xs) auto

lemma find_None_set: "find P xs = None \<Longrightarrow> x \<in> set xs \<Longrightarrow> \<not> P x"
  by (induction xs) (auto split: if_splits)

lemma find_upt_Some_iff:
  "(find P [a..<b] = Some i) = (a \<le> i \<and> i < b \<and> P i \<and> (\<forall>j \<in> {a..<i}. \<not> P j))"
proof
  assume "find P [a..<b] = Some i"
  then obtain k where k: "k < b - a" "P ([a..<b] ! k)" "i = [a..<b] ! k"
    "\<forall>j < k. \<not> P ([a..<b] ! j)" by (auto simp: find_Some_iff)
  have "\<not> P j" if "j \<in> {a..<i}" for j
  proof -
    from that k have "j - a < k" by auto
    with k(4) have "\<not> P ([a..<b] ! (j - a))" by blast
    moreover have "[a..<b] ! (j - a) = j" using that k by auto
    ultimately show ?thesis by simp
  qed
  with k show "a \<le> i \<and> i < b \<and> P i \<and> (\<forall>j \<in> {a..<i}. \<not> P j)" by simp
next
  assume h: "a \<le> i \<and> i < b \<and> P i \<and> (\<forall>j \<in> {a..<i}. \<not> P j)"
  then have "i - a < length [a..<b] \<and> P ([a..<b] ! (i - a)) \<and> i = [a..<b] ! (i - a) \<and>
    (\<forall>j < i - a. \<not> P ([a..<b] ! j))" by auto
  then show "find P [a..<b] = Some i" unfolding find_Some_iff by blast
qed

lemma find_upt_skip:
  assumes "a \<le> b" and "b \<le> c" and "\<forall>s \<in> {a..<b}. \<not> P s"
  shows "find P [a..<c] = find P [b..<c]"
proof -
  have "[a..<c] = [a..<b] @ [b..<c]" using assms by (metis le_Suc_ex upt_add_eq_append)
  moreover have "find P [a..<b] = None" using assms(3) by (auto simp: find_None_iff)
  ultimately show ?thesis by (simp add: find_append)
qed

lemma set_update_all: "\<forall>x \<in> set xs. P x \<Longrightarrow> P y \<Longrightarrow> \<forall>x \<in> set (xs[i := y]). P x"
  using set_update_subset_insert [of xs i y] by auto

lemma find_update_other [table_simps]:
  "\<not> P (xs ! i) \<Longrightarrow> \<not> P x \<Longrightarrow> find P (xs[i := x]) = find P xs"
  by (induction xs arbitrary: i) (auto split: nat.splits)

lemma find_update_new [table_simps]:
  "find P xs = None \<Longrightarrow> i < length xs \<Longrightarrow> P x \<Longrightarrow> find P (xs[i := x]) = Some x"
  by (induction xs arbitrary: i) (auto split: nat.splits if_splits)

text \<open>
  The contract of the kernel's keyed tables (address spaces by page table root, devices and calls
  by id, variables by name): an entry answers to at most one key. Lookups are \<open>find\<close>, updates are
  \<open>upd_first\<close>, and an update of one key is invisible under the others.
\<close>

locale keyed_table =
  fixes matches :: "'k \<Rightarrow> 'e \<Rightarrow> bool"
  assumes matches_unique: "matches k e \<Longrightarrow> matches k' e \<Longrightarrow> k' = k"
begin

lemma get_upd_same:
  "(\<And>e. matches k e \<Longrightarrow> matches k (f e)) \<Longrightarrow>
   find (matches k) (upd_first (matches k) f t) = map_option f (find (matches k) t)"
  by (induction t) auto

lemma get_upd_other:
  assumes "k' \<noteq> k" and "\<And>e. matches k e \<Longrightarrow> \<not> matches k' (f e)"
  shows "find (matches k') (upd_first (matches k) f t) = find (matches k') t"
  using assms matches_unique by (induction t) auto

lemma get_upd_kept:
  assumes "\<And>k e. matches k (f e) = matches k e"
  shows "find (matches k') (upd_first (matches k) f t) =
    (if k' = k then map_option f (find (matches k) t) else find (matches k') t)"
  using assms matches_unique by (induction t) auto

text \<open>A fresh entry pushed at the end is found under its key and no other.\<close>

lemma get_push:
  assumes "matches k e" and "find (matches k) t = None"
  shows "find (matches k') (t @ [e]) = (if k' = k then Some e else find (matches k') t)"
  using assms matches_unique by (induction t) (auto split: if_splits)

text \<open>At most one entry per key.\<close>

definition one_per_key :: "'e list \<Rightarrow> bool" where
  "one_per_key t \<longleftrightarrow> (\<forall>k. length (filter (matches k) t) \<le> 1)"

lemma one_per_key_upd:
  assumes "one_per_key t" and "\<And>k e. matches k (f e) = matches k e"
  shows "one_per_key (upd_first P f t)"
proof -
  have "length (filter (matches k) (upd_first P f t)) = length (filter (matches k) t)" for k
    using assms(2) by (induction t) auto
  with assms(1) show ?thesis by (simp add: one_per_key_def)
qed

lemma one_per_key_push:
  assumes "one_per_key t" and "\<And>k. matches k e \<Longrightarrow> find (matches k) t = None"
  shows "one_per_key (t @ [e])"
  using assms by (auto simp: one_per_key_def find_None_iff filter_empty_conv)

lemma one_per_key_find:
  assumes "one_per_key t" and "e \<in> set t" and "matches k e"
  shows "find (matches k) t = Some e"
proof (cases "find (matches k) t")
  case None
  with assms show ?thesis by (auto simp: find_None_iff)
next
  case (Some e')
  then have "e' \<in> set (filter (matches k) t)" "e \<in> set (filter (matches k) t)"
    using assms by (auto dest: find_SomeD)
  moreover have "length (filter (matches k) t) \<le> 1" using assms(1) by (simp add: one_per_key_def)
  ultimately have "e' = e" by (cases "filter (matches k) t") auto
  with Some show ?thesis by simp
qed

end

end
