(* ===== verification/Pmm.thy ===== *)
theory Pmm
  imports Karte_Prelude
begin

text \<open>
  The physical memory manager, \<open>kernel/src/mm/pmm.rs\<close>: a bitmap allocator of 4 KiB frames with
  a next-fit cursor. \<open>FrameAllocator\<close> is the record \<open>frame_allocator\<close>; its methods and the
  public wrappers over the global \<open>FRAME_ALLOCATOR\<close> follow in the order of the source. The
  linker symbol \<open>_ekernel\<close>, the load address and the memory size are arguments of \<open>fa_new\<close>
  (they differ per target). The console output of the watch frame is not modelled: it changes
  no state.

  The contract that clients use is the locale \<open>frame_source\<close>; the bitmap allocator is an
  interpretation of it.
\<close>

section \<open>Data and operations\<close>

record frame_allocator =
  fa_start :: usize
  fa_bitmap :: "u64 list"
  fa_total_frames :: usize
  fa_next_free :: usize

text \<open>\<open>self.bitmap[i / 64] & (1u64 << (i % 64)) == 0\<close>; the index may panic.\<close>

definition bit_clear :: "u64 list \<Rightarrow> usize \<Rightarrow> bool panicking" where
  "bit_clear bm i =
     (if i div 64 < length bm then Some (bm ! (i div 64) AND push_bit (i mod 64) 1 = 0) else None)"

text \<open>\<open>self.bitmap[i / 64] |= 1u64 << (i % 64)\<close>, and the clearing variant.\<close>

definition mark_used :: "u64 list \<Rightarrow> usize \<Rightarrow> u64 list panicking" where
  "mark_used bm i =
     (if i div 64 < length bm
      then Some (bm[i div 64 := bm ! (i div 64) OR push_bit (i mod 64) 1]) else None)"

definition mark_free :: "u64 list \<Rightarrow> usize \<Rightarrow> u64 list panicking" where
  "mark_free bm i =
     (if i div 64 < length bm
      then Some (bm[i div 64 := bm ! (i div 64) AND NOT (push_bit (i mod 64) 1)]) else None)"

definition fa_new :: "usize \<Rightarrow> usize \<Rightarrow> usize \<Rightarrow> frame_allocator" where
  "fa_new kernel_end memory_start mem_size =
     (let start = page_align_up kernel_end;
          mem_end = wadd memory_start mem_size;
          total_frames = wsub mem_end start div PAGE_SIZE;
          bitmap_words = (total_frames + 63) div 64;
          bitmap_size = wmul bitmap_words 8;
          bitmap_start = start;
          managed_start = page_align_up (wadd bitmap_start bitmap_size);
          managed_frames = wsub mem_end managed_start div PAGE_SIZE
      in \<lparr>fa_start = managed_start, fa_bitmap = replicate bitmap_words 0,
          fa_total_frames = managed_frames, fa_next_free = 0\<rparr>)"

text \<open>The two scanning loops of \<open>alloc\<close>: the first index of the range whose bit is clear.\<close>

fun scan_free :: "u64 list \<Rightarrow> usize list \<Rightarrow> usize option panicking" where
  "scan_free bm [] = Some None"
| "scan_free bm (i # is) =
     do { clear \<leftarrow> bit_clear bm i; if clear then Some (Some i) else scan_free bm is }"

definition take_frame :: "frame_allocator \<Rightarrow> usize \<Rightarrow> (usize option \<times> frame_allocator) panicking" where
  "take_frame fa i =
     do { bm \<leftarrow> mark_used (fa_bitmap fa) i;
          Some (Some (wadd (fa_start fa) (wmul i PAGE_SIZE)),
                fa\<lparr>fa_bitmap := bm, fa_next_free := i + 1\<rparr>) }"

definition fa_alloc :: "frame_allocator \<Rightarrow> (usize option \<times> frame_allocator) panicking" where
  "fa_alloc fa =
     do { hit \<leftarrow> scan_free (fa_bitmap fa) [fa_next_free fa..<fa_total_frames fa];
          case hit of
            Some i \<Rightarrow> take_frame fa i
          | None \<Rightarrow>
              do { wrapped \<leftarrow> scan_free (fa_bitmap fa) [0..<fa_next_free fa];
                   case wrapped of
                     Some i \<Rightarrow> take_frame fa i
                   | None \<Rightarrow> Some (None, fa) } }"

text \<open>
  The scan of \<open>alloc_contiguous\<close>, with the loop variables \<open>run_start\<close> and \<open>run_length\<close>; it
  answers the start of the first run of \<open>count\<close> clear bits.
\<close>

fun scan_run :: "u64 list \<Rightarrow> usize \<Rightarrow> usize \<Rightarrow> usize \<Rightarrow> usize list \<Rightarrow> usize option panicking" where
  "scan_run bm count run_start run_length [] = Some None"
| "scan_run bm count run_start run_length (i # is) =
     do { clear \<leftarrow> bit_clear bm i;
          if clear then
            (let run_start' = (if run_length = 0 then i else run_start);
                 run_length' = run_length + 1
             in if run_length' = count then Some (Some run_start')
                else scan_run bm count run_start' run_length' is)
          else scan_run bm count run_start 0 is }"

fun mark_run :: "u64 list \<Rightarrow> usize list \<Rightarrow> u64 list panicking" where
  "mark_run bm [] = Some bm"
| "mark_run bm (j # js) = do { bm' \<leftarrow> mark_used bm j; mark_run bm' js }"

definition fa_alloc_contiguous ::
    "frame_allocator \<Rightarrow> usize \<Rightarrow> (usize option \<times> frame_allocator) panicking" where
  "fa_alloc_contiguous fa count =
     (if count = 0 then Some (None, fa)
      else do { hit \<leftarrow> scan_run (fa_bitmap fa) count 0 0 [0..<fa_total_frames fa];
                case hit of
                  Some run_start \<Rightarrow>
                    do { bm \<leftarrow> mark_run (fa_bitmap fa) [run_start..<run_start + count];
                         Some (Some (wadd (fa_start fa) (wmul run_start PAGE_SIZE)),
                               fa\<lparr>fa_bitmap := bm, fa_next_free := run_start + count\<rparr>) }
                | None \<Rightarrow> Some (None, fa) })"

definition fa_dealloc :: "frame_allocator \<Rightarrow> usize \<Rightarrow> frame_allocator panicking" where
  "fa_dealloc fa frame =
     (let idx = wsub frame (fa_start fa) div PAGE_SIZE
      in if idx < fa_total_frames fa
         then do { bm \<leftarrow> mark_free (fa_bitmap fa) idx;
                   Some (fa\<lparr>fa_bitmap := bm,
                            fa_next_free := (if idx < fa_next_free fa then idx
                                             else fa_next_free fa)\<rparr>) }
         else Some fa)"

text \<open>The global \<open>FRAME_ALLOCATOR: Mutex<Option<FrameAllocator>>\<close> and its public functions.\<close>

type_synonym pmm_state = "frame_allocator option"

definition pmm_init :: "usize \<Rightarrow> usize \<Rightarrow> usize \<Rightarrow> pmm_state" where
  "pmm_init kernel_end memory_start mem_size = Some (fa_new kernel_end memory_start mem_size)"

definition is_ram_frame :: "usize \<Rightarrow> usize \<Rightarrow> usize \<Rightarrow> bool" where
  "is_ram_frame memory_start mem_size addr =
     (memory_start \<le> addr \<and> addr < wadd memory_start mem_size)"

definition alloc_frame :: "pmm_state \<Rightarrow> (usize option \<times> pmm_state) panicking" where
  "alloc_frame st =
     (case st of
        None \<Rightarrow> Some (None, st)
      | Some fa \<Rightarrow> do { (r, fa') \<leftarrow> fa_alloc fa; Some (r, Some fa') })"

definition dealloc_frame :: "pmm_state \<Rightarrow> usize \<Rightarrow> pmm_state panicking" where
  "dealloc_frame st frame =
     (case st of
        None \<Rightarrow> Some st
      | Some fa \<Rightarrow> do { fa' \<leftarrow> fa_dealloc fa frame; Some (Some fa') })"

definition alloc_contiguous_frames :: "pmm_state \<Rightarrow> usize \<Rightarrow> (usize option \<times> pmm_state) panicking" where
  "alloc_contiguous_frames st count =
     (case st of
        None \<Rightarrow> Some (None, st)
      | Some fa \<Rightarrow> do { (r, fa') \<leftarrow> fa_alloc_contiguous fa count; Some (r, Some fa') })"

text \<open>The counting loop of \<open>debug_stats\<close>.\<close>

fun count_used :: "u64 list \<Rightarrow> usize list \<Rightarrow> usize panicking" where
  "count_used bm [] = Some 0"
| "count_used bm (i # is) =
     do { clear \<leftarrow> bit_clear bm i; n \<leftarrow> count_used bm is;
          Some (if clear then n else n + 1) }"

definition debug_stats :: "pmm_state \<Rightarrow> (usize \<times> usize \<times> usize) panicking" where
  "debug_stats st =
     (case st of
        None \<Rightarrow> Some (0, 0, 0)
      | Some fa \<Rightarrow>
          do { used \<leftarrow> count_used (fa_bitmap fa) [0..<fa_total_frames fa];
               Some (fa_total_frames fa, used, fa_next_free fa) })"

section \<open>Bitmaps as sets of frame indices\<close>

definition frame_used :: "u64 list \<Rightarrow> usize \<Rightarrow> bool" where
  "frame_used bm i = bit (bm ! (i div 64)) (i mod 64)"

definition used :: "frame_allocator \<Rightarrow> usize set" where
  "used fa = {i. i < fa_total_frames fa \<and> frame_used (fa_bitmap fa) i}"

text \<open>Well-formed allocators: the bitmap covers the frames and no frame address wraps.\<close>

definition fa_wf :: "frame_allocator \<Rightarrow> bool" where
  "fa_wf fa \<longleftrightarrow>
     fa_total_frames fa \<le> 64 * length (fa_bitmap fa) \<and>
     fa_next_free fa \<le> fa_total_frames fa \<and>
     fa_start fa mod 4096 = 0 \<and>
     fa_start fa + fa_total_frames fa * 4096 < 2 ^ 64"

lemma fa_wfD:
  assumes "fa_wf fa"
  shows "i < fa_total_frames fa \<Longrightarrow> i div 64 < length (fa_bitmap fa)"
    and "fa_next_free fa \<le> fa_total_frames fa"
    and "fa_start fa mod 4096 = 0"
    and "i < fa_total_frames fa \<Longrightarrow> fa_start fa + i * 4096 < 2 ^ 64"
  using assms by (auto simp: fa_wf_def)

lemma bit_clear_eq: "i div 64 < length bm \<Longrightarrow> bit_clear bm i = Some (\<not> frame_used bm i)"
  by (simp add: bit_clear_def frame_used_def bitmap_simps del: push_bit_of_1)

lemma mark_used_eq:
  assumes "i div 64 < length bm"
  obtains bm' where "mark_used bm i = Some bm'" and "length bm' = length bm"
    and "\<And>j. frame_used bm' j = (frame_used bm j \<or> j = i)"
proof
  let ?bm = "bm[i div 64 := bm ! (i div 64) OR push_bit (i mod 64) 1]"
  show "mark_used bm i = Some ?bm" using assms by (simp add: mark_used_def)
  show "length ?bm = length bm" by simp
  show "frame_used ?bm j = (frame_used bm j \<or> j = i)" for j
  proof (cases "j div 64 = i div 64")
    case True
    then have "j = i \<longleftrightarrow> j mod 64 = i mod 64" by (metis div_mult_mod_eq)
    with True assms show ?thesis
      by (simp add: frame_used_def bitmap_simps del: push_bit_of_1)
  next
    case False
    then show ?thesis by (auto simp: frame_used_def)
  qed
qed

lemma mark_free_eq:
  assumes "i div 64 < length bm"
  obtains bm' where "mark_free bm i = Some bm'" and "length bm' = length bm"
    and "\<And>j. frame_used bm' j = (frame_used bm j \<and> j \<noteq> i)"
proof
  let ?bm = "bm[i div 64 := bm ! (i div 64) AND NOT (push_bit (i mod 64) 1)]"
  show "mark_free bm i = Some ?bm" using assms by (simp add: mark_free_def)
  show "length ?bm = length bm" by simp
  show "frame_used ?bm j = (frame_used bm j \<and> j \<noteq> i)" for j
  proof (cases "j div 64 = i div 64")
    case True
    then have "j = i \<longleftrightarrow> j mod 64 = i mod 64" by (metis div_mult_mod_eq)
    with True assms show ?thesis
      by (simp add: frame_used_def bitmap_simps del: push_bit_of_1)
  next
    case False
    then show ?thesis by (auto simp: frame_used_def)
  qed
qed

lemma scan_free_eq:
  "\<forall>i \<in> set is. i div 64 < length bm \<Longrightarrow>
   scan_free bm is = Some (find (\<lambda>i. \<not> frame_used bm i) is)"
  by (induction "is") (auto simp: bit_clear_eq)

lemma mark_run_eq:
  assumes "\<forall>i \<in> set js. i div 64 < length bm"
  shows "\<exists>bm'. mark_run bm js = Some bm' \<and> length bm' = length bm \<and>
    (\<forall>j. frame_used bm' j = (frame_used bm j \<or> j \<in> set js))"
  using assms
proof (induction js arbitrary: bm)
  case Nil
  then show ?case by simp
next
  case (Cons a js)
  from Cons.prems have "a div 64 < length bm" by simp
  then obtain bm1 where bm1: "mark_used bm a = Some bm1" "length bm1 = length bm"
    "\<And>j. frame_used bm1 j = (frame_used bm j \<or> j = a)" by (rule mark_used_eq) blast
  from Cons.prems bm1(2) Cons.IH [of bm1] obtain bm' where
    "mark_run bm1 js = Some bm'" "length bm' = length bm1"
    "\<forall>j. frame_used bm' j = (frame_used bm1 j \<or> j \<in> set js)" by auto
  with bm1 show ?case by auto
qed

lemma count_used_eq:
  "\<forall>i \<in> set is. i div 64 < length bm \<Longrightarrow>
   count_used bm is = Some (length (filter (frame_used bm) is))"
  by (induction "is") (auto simp: bit_clear_eq)

section \<open>Behaviour of the operations\<close>

definition frame_addr :: "frame_allocator \<Rightarrow> usize \<Rightarrow> usize" where
  "frame_addr fa i = fa_start fa + i * 4096"

definition same_region :: "frame_allocator \<Rightarrow> frame_allocator \<Rightarrow> bool" where
  "same_region fa fa' \<longleftrightarrow>
     fa_start fa' = fa_start fa \<and> fa_total_frames fa' = fa_total_frames fa"

lemma frame_addr_inj: "frame_addr fa i = frame_addr fa j \<longleftrightarrow> i = j"
  by (simp add: frame_addr_def)

lemma frame_addr_wrap:
  "fa_wf fa \<Longrightarrow> i < fa_total_frames fa \<Longrightarrow>
   wadd (fa_start fa) (wmul i PAGE_SIZE) = frame_addr fa i"
  using fa_wfD(4) [of fa i] by (simp add: wadd_eq wmul_eq PAGE_SIZE_def frame_addr_def)

lemma take_frame_eq:
  assumes "fa_wf fa" and "i < fa_total_frames fa"
  shows "\<exists>fa'. take_frame fa i = Some (Some (frame_addr fa i), fa') \<and> fa_wf fa' \<and>
    used fa' = insert i (used fa) \<and> same_region fa fa' \<and> fa_next_free fa' = i + 1"
proof -
  have "i div 64 < length (fa_bitmap fa)" using assms by (simp add: fa_wfD)
  then obtain bm where "mark_used (fa_bitmap fa) i = Some bm" "length bm = length (fa_bitmap fa)"
    "\<And>j. frame_used bm j = (frame_used (fa_bitmap fa) j \<or> j = i)" by (rule mark_used_eq) blast
  with assms show ?thesis
    by (auto simp: take_frame_def frame_addr_wrap fa_wf_def used_def same_region_def)
qed

lemma fa_alloc_cases:
  assumes wf: "fa_wf fa"
  shows "(\<exists>i fa'. i < fa_total_frames fa \<and> i \<notin> used fa \<and>
      fa_alloc fa = Some (Some (frame_addr fa i), fa') \<and> fa_wf fa' \<and>
      used fa' = insert i (used fa) \<and> same_region fa fa' \<and> fa_next_free fa' = i + 1) \<or>
    (used fa = {..<fa_total_frames fa} \<and> fa_alloc fa = Some (None, fa))"
proof -
  let ?bm = "fa_bitmap fa" and ?n = "fa_next_free fa" and ?t = "fa_total_frames fa"
  let ?P = "\<lambda>i. \<not> frame_used ?bm i"
  have nt: "?n \<le> ?t" by (rule fa_wfD(2) [OF wf])
  have s1: "scan_free ?bm [?n..<?t] = Some (find ?P [?n..<?t])"
    by (rule scan_free_eq) (simp add: fa_wfD(1) [OF wf])
  have s2: "scan_free ?bm [0..<?n] = Some (find ?P [0..<?n])"
    using nt by (intro scan_free_eq) (simp add: fa_wfD(1) [OF wf])
  have hit: ?thesis if "fa_alloc fa = take_frame fa i" "i < ?t" "?P i" for i
    using take_frame_eq [OF wf that(2)] that by (intro disjI1) (auto simp: used_def)
  consider (first) i where "find ?P [?n..<?t] = Some i"
    | (wrap) i where "find ?P [?n..<?t] = None" "find ?P [0..<?n] = Some i"
    | (full) "find ?P [?n..<?t] = None" "find ?P [0..<?n] = None" by fastforce
  then show ?thesis
  proof cases
    case first
    then have "fa_alloc fa = take_frame fa i" by (simp add: fa_alloc_def s1)
    with first show ?thesis by (intro hit [of i]) (simp_all add: find_upt_Some_iff)
  next
    case wrap
    then have "fa_alloc fa = take_frame fa i" by (simp add: fa_alloc_def s1 s2)
    with wrap nt show ?thesis by (intro hit [of i]) (simp_all add: find_upt_Some_iff)
  next
    case full
    then have "\<forall>i < ?t. frame_used ?bm i"
      by (metis (full_types) atLeastLessThan_iff find_None_set le0 not_le set_upt)
    with full show ?thesis by (auto simp: fa_alloc_def s1 s2 used_def)
  qed
qed

lemma dealloc_index:
  assumes "fa_wf fa" and "i < fa_total_frames fa"
  shows "wsub (frame_addr fa i) (fa_start fa) div PAGE_SIZE = i"
  using assms fa_wfD(4) [of fa i] by (simp add: wsub_eq frame_addr_def PAGE_SIZE_def)

lemma fa_dealloc_eq:
  assumes wf: "fa_wf fa" and i: "i < fa_total_frames fa"
  shows "\<exists>fa'. fa_dealloc fa (frame_addr fa i) = Some fa' \<and> fa_wf fa' \<and>
    used fa' = used fa - {i} \<and> same_region fa fa' \<and> fa_next_free fa' \<le> i"
proof -
  have "i div 64 < length (fa_bitmap fa)" using assms by (simp add: fa_wfD)
  then obtain bm where "mark_free (fa_bitmap fa) i = Some bm" "length bm = length (fa_bitmap fa)"
    "\<And>j. frame_used bm j = (frame_used (fa_bitmap fa) j \<and> j \<noteq> i)" by (rule mark_free_eq) blast
  with assms show ?thesis
    by (auto simp: fa_dealloc_def dealloc_index Let_def fa_wf_def used_def same_region_def)
qed

text \<open>
  An address outside the managed region is ignored: above the region the index is too large,
  below it the subtraction wraps to an index that is too large.
\<close>

lemma fa_dealloc_foreign:
  assumes wf: "fa_wf fa" and f: "f < 2 ^ 64"
    and out: "f < fa_start fa \<or> fa_start fa + fa_total_frames fa * 4096 \<le> f"
  shows "fa_dealloc fa f = Some fa"
proof -
  have "fa_total_frames fa \<le> wsub f (fa_start fa) div PAGE_SIZE"
  proof (cases "f < fa_start fa")
    case True
    have "fa_total_frames fa * 4096 \<le> 2 ^ 64 - (fa_start fa - f)"
      using wf True by (auto simp: fa_wf_def)
    then show ?thesis using True wf
      by (simp add: wsub_wraps PAGE_SIZE_def fa_wf_def less_eq_div_iff_mult_less_eq)
  next
    case False
    then show ?thesis using out f
      by (simp add: wsub_eq PAGE_SIZE_def less_eq_div_iff_mult_less_eq)
  qed
  then show ?thesis by (simp add: fa_dealloc_def Let_def)
qed

definition run_free :: "u64 list \<Rightarrow> usize \<Rightarrow> usize \<Rightarrow> bool" where
  "run_free bm s n \<longleftrightarrow> (\<forall>j \<in> {s..<s + n}. \<not> frame_used bm j)"

lemma run_free_blocked: "frame_used bm k \<Longrightarrow> s \<le> k \<Longrightarrow> k < s + n \<Longrightarrow> \<not> run_free bm s n"
  by (auto simp: run_free_def)

text \<open>The scan is a first fit: after \<open>rl\<close> clear bits below \<open>k\<close>, it decides the starts from \<open>k - rl\<close>.\<close>

lemma scan_run_first_fit:
  assumes "k \<le> t" and "t \<le> 64 * length bm" and "rl \<le> k" and "rl < n"
    and "rl = 0 \<or> rs = k - rl" and "run_free bm (k - rl) rl"
  shows "scan_run bm n rs rl [k..<t] =
    Some (find (\<lambda>s. s + n \<le> t \<and> run_free bm s n) [k - rl..<t])"
  using assms
proof (induction "t - k" arbitrary: k rl rs)
  case 0
  then have "find (\<lambda>s. s + n \<le> t \<and> run_free bm s n) [k - rl..<t] = None"
    by (auto simp: find_None_iff)
  with 0 show ?case by simp
next
  case (Suc d)
  let ?P = "\<lambda>s. s + n \<le> t \<and> run_free bm s n"
  have kt: "k < t" using Suc.hyps(2) by simp
  then have upt: "[k..<t] = k # [Suc k..<t]" by (simp add: upt_rec)
  have bc: "bit_clear bm k = Some (\<not> frame_used bm k)"
    using kt Suc.prems(2) by (intro bit_clear_eq) simp
  show ?case
  proof (cases "frame_used bm k")
    case True
    have "\<forall>s \<in> {k - rl..<Suc k}. \<not> ?P s"
      using run_free_blocked [OF True] Suc.prems by auto
    then have skip: "find ?P [k - rl..<t] = find ?P [Suc k..<t]"
      using kt by (intro find_upt_skip) auto
    have "scan_run bm n rs 0 [Suc k..<t] = Some (find ?P [Suc k - 0..<t])"
      using Suc.hyps kt Suc.prems by (intro Suc.hyps(1)) (auto simp: run_free_def)
    with True skip show ?thesis by (simp add: upt bc)
  next
    case False
    have free: "run_free bm (k - rl) (Suc rl)"
      using Suc.prems(3,6) False by (auto simp: run_free_def less_Suc_eq)
    have rs: "(if rl = 0 then k else rs) = k - rl" using Suc.prems(5) by auto
    show ?thesis
    proof (cases "Suc rl = n")
      case True
      then have "?P (k - rl)" using free kt Suc.prems(3) by auto
      then have "find ?P [k - rl..<t] = Some (k - rl)"
        using kt by (auto simp: find_upt_Some_iff)
      with False True rs show ?thesis by (simp add: upt bc)
    next
      case neq: False
      have "scan_run bm n (k - rl) (Suc rl) [Suc k..<t] = Some (find ?P [Suc k - Suc rl..<t])"
        using Suc.hyps kt Suc.prems free neq by (intro Suc.hyps(1)) auto
      with False neq rs show ?thesis by (simp add: upt bc)
    qed
  qed
qed

lemma fa_alloc_contiguous_cases:
  assumes wf: "fa_wf fa" and n: "0 < n"
  shows "(\<exists>s fa'. s + n \<le> fa_total_frames fa \<and> {s..<s + n} \<inter> used fa = {} \<and>
      (\<forall>s' < s. {s'..<s' + n} \<inter> used fa \<noteq> {}) \<and>
      fa_alloc_contiguous fa n = Some (Some (frame_addr fa s), fa') \<and> fa_wf fa' \<and>
      used fa' = used fa \<union> {s..<s + n} \<and> same_region fa fa') \<or>
    ((\<forall>s. s + n \<le> fa_total_frames fa \<longrightarrow> {s..<s + n} \<inter> used fa \<noteq> {}) \<and>
      fa_alloc_contiguous fa n = Some (None, fa))"
proof -
  let ?bm = "fa_bitmap fa" and ?t = "fa_total_frames fa"
  let ?P = "\<lambda>s. s + n \<le> ?t \<and> run_free ?bm s n"
  have free_iff: "run_free ?bm s n \<longleftrightarrow> {s..<s + n} \<inter> used fa = {}" if "s + n \<le> ?t" for s
    using that by (auto simp: run_free_def used_def)
  have scan: "scan_run ?bm n 0 0 [0..<?t] = Some (find ?P [0..<?t])"
    using scan_run_first_fit [of 0 ?t ?bm 0 n 0] wf n by (simp add: fa_wf_def run_free_def)
  show ?thesis
  proof (cases "find ?P [0..<?t]")
    case None
    have "\<not> ?P s" for s
    proof (cases "s < ?t")
      case True
      with None show ?thesis by (auto simp: find_None_iff)
    qed (use n in auto)
    then have "\<forall>s. s + n \<le> ?t \<longrightarrow> {s..<s + n} \<inter> used fa \<noteq> {}" using free_iff by blast
    moreover have "fa_alloc_contiguous fa n = Some (None, fa)"
      using None n by (simp add: fa_alloc_contiguous_def scan)
    ultimately show ?thesis by (rule disjI2 [OF conjI])
  next
    case (Some s)
    then have s: "s + n \<le> ?t" "run_free ?bm s n" "\<forall>s' < s. \<not> ?P s'"
      by (auto simp: find_upt_Some_iff)
    have "\<forall>i \<in> set [s..<s + n]. i div 64 < length ?bm"
      using s(1) by (auto intro: fa_wfD(1) [OF wf])
    from mark_run_eq [OF this] obtain bm where bm: "mark_run ?bm [s..<s + n] = Some bm"
      "length bm = length ?bm" "\<forall>j. frame_used bm j = (frame_used ?bm j \<or> j \<in> {s..<s + n})" by auto
    have addr: "wadd (fa_start fa) (wmul s PAGE_SIZE) = frame_addr fa s"
      using s(1) n by (intro frame_addr_wrap [OF wf]) simp
    let ?fa = "fa\<lparr>fa_bitmap := bm, fa_next_free := s + n\<rparr>"
    have "fa_alloc_contiguous fa n = Some (Some (frame_addr fa s), ?fa)"
      using n by (simp add: fa_alloc_contiguous_def scan Some bm(1) addr)
    moreover have "fa_wf ?fa" "same_region fa ?fa"
      using wf s(1) bm(2) by (simp_all add: fa_wf_def same_region_def)
    moreover have "used ?fa = used fa \<union> {s..<s + n}"
    proof (rule set_eqI)
      fix j
      show "j \<in> used ?fa \<longleftrightarrow> j \<in> used fa \<union> {s..<s + n}"
        using s(1) by (simp add: used_def bm(3) conj_disj_distribL) linarith
    qed
    moreover have "\<forall>s' < s. {s'..<s' + n} \<inter> used fa \<noteq> {}"
    proof (intro allI impI)
      fix s' assume "s' < s"
      with s(1) have le: "s' + n \<le> ?t" by simp
      with s(3) \<open>s' < s\<close> have "\<not> run_free ?bm s' n" by blast
      with le show "{s'..<s' + n} \<inter> used fa \<noteq> {}" by (simp add: free_iff)
    qed
    moreover have "{s..<s + n} \<inter> used fa = {}" using s(1,2) free_iff by simp
    ultimately show ?thesis using s(1)
      by (intro disjI1 exI [of _ s] exI [of _ ?fa] conjI) assumption+
  qed
qed

section \<open>Initialisation\<close>

lemma frame_used_replicate: "i < 64 * n \<Longrightarrow> \<not> frame_used (replicate n 0) i"
  by (subgoal_tac "i div 64 < n") (simp add: frame_used_def, linarith)

text \<open>The size arithmetic of \<open>fa_new\<close>: \<open>t\<close> pages above \<open>s\<close> and a bitmap of one bit per page.\<close>

lemma bitmap_fits:
  fixes s t w :: nat
  assumes "s mod 4096 = 0" and "w = (t + 63) div 64"
  shows "s + 8 * w \<le> (s + 8 * w + 4095) div 4096 * 4096"
    and "(s + 8 * w + 4095) div 4096 * 4096 \<le> s + t * 4096" and "t \<le> 64 * w"
proof -
  obtain q where s: "s = q * 4096" using assms(1) by (metis mod_0_imp_dvd dvd_div_mult_self)
  have m: "(s + 8 * w + 4095) div 4096 * 4096 = s + (8 * w + 4095) div 4096 * 4096"
    unfolding s add.assoc by (simp only: div_mult_self3 add_mult_distrib)
  show tw: "t \<le> 64 * w" unfolding assms(2) by linarith
  show "s + 8 * w \<le> (s + 8 * w + 4095) div 4096 * 4096" unfolding m by linarith
  have "w \<le> t" unfolding assms(2) by linarith
  then have "(8 * w + 4095) div 4096 \<le> t" by linarith
  then show "(s + 8 * w + 4095) div 4096 * 4096 \<le> s + t * 4096" unfolding m by linarith
qed

lemma fa_new_layout:
  assumes ke: "kernel_end + 4095 < 2 ^ 64" and mem: "memory_start + mem_size + 4096 < 2 ^ 64"
    and fits: "page_align_up kernel_end \<le> memory_start + mem_size"
    and fa: "fa = fa_new kernel_end memory_start mem_size"
  shows "fa_wf fa" and "used fa = {}"
    and "page_align_up kernel_end + 8 * length (fa_bitmap fa) \<le> fa_start fa"
    and "fa_start fa + fa_total_frames fa * 4096 \<le> memory_start + mem_size"
proof -
  let ?s = "page_align_up kernel_end" and ?e = "memory_start + mem_size"
  define t where "t = (?e - ?s) div 4096"
  define w where "w = (t + 63) div 64"
  define m where "m = (?s + 8 * w + 4095) div 4096 * 4096"
  have al: "?s mod 4096 = 0" using ke by (rule page_align_up_aligned)
  note bf = bitmap_fits [OF al w_def, folded m_def]
  have "t * 4096 \<le> ?e - ?s" by (simp add: t_def)
  then have te: "?s + t * 4096 \<le> ?e" using fits by simp
  have we: "wadd memory_start mem_size = ?e" using mem by (simp add: wadd_eq)
  have ws: "wsub ?e ?s div PAGE_SIZE = t"
    using fits mem by (simp add: wsub_eq PAGE_SIZE_def t_def)
  have "w \<le> t" unfolding w_def by linarith
  then have "8 * w \<le> t * 4096" by linarith
  then have sw: "?s + 8 * w + 4095 < 2 ^ 64" and w8: "wmul w 8 = 8 * w" "wadd ?s (8 * w) = ?s + 8 * w"
    using te mem by (simp_all add: wmul_eq wadd_eq)
  have ms: "page_align_up (?s + 8 * w) = m" using sw by (simp add: page_align_up_eq m_def)
  have me: "m \<le> ?e" using bf(2) te by simp
  have mf: "wsub ?e m div PAGE_SIZE = (?e - m) div 4096"
    using me mem by (simp add: wsub_eq PAGE_SIZE_def)
  have fa': "fa = \<lparr>fa_start = m, fa_bitmap = replicate w 0,
      fa_total_frames = (?e - m) div 4096, fa_next_free = 0\<rparr>"
    by (simp add: fa fa_new_def Let_def we ws w_def [symmetric] w8 ms mf)
  have tot: "(?e - m) div 4096 \<le> 64 * w"
  proof -
    have "?s \<le> m" using bf(1) by simp
    then have "(?e - m) div 4096 \<le> t" unfolding t_def by (intro div_le_mono) simp
    with bf(3) show ?thesis by simp
  qed
  have mt: "m + (?e - m) div 4096 * 4096 \<le> ?e"
    using me by (metis add_le_cancel_left div_times_less_eq_dividend le_add_diff_inverse)
  show "fa_wf fa" using tot mt mem by (simp add: fa' fa_wf_def m_def)
  show "used fa = {}" using tot frame_used_replicate by (auto simp: used_def fa')
  show "?s + 8 * length (fa_bitmap fa) \<le> fa_start fa" using bf(1) by (simp add: fa')
  show "fa_start fa + fa_total_frames fa * 4096 \<le> ?e" using mt by (simp add: fa')
qed

section \<open>The contract of a frame source\<close>

text \<open>
  What the clients of the allocator (page tables, ELF loader, DMA buffers) rely on. \<open>pool\<close> is the
  fixed set of frame addresses, \<open>live\<close> the addresses handed out and not yet returned.
\<close>

locale frame_source =
  fixes inv :: "'s \<Rightarrow> bool"
    and pool :: "'s \<Rightarrow> usize set"
    and live :: "'s \<Rightarrow> usize set"
    and alloc :: "'s \<Rightarrow> (usize option \<times> 's) panicking"
    and free :: "'s \<Rightarrow> usize \<Rightarrow> 's panicking"
  assumes live_pool: "inv s \<Longrightarrow> live s \<subseteq> pool s"
    and finite_pool: "inv s \<Longrightarrow> finite (pool s)"
    and alloc_cases: "inv s \<Longrightarrow>
      (\<exists>f s'. alloc s = Some (Some f, s') \<and> f \<in> pool s - live s \<and> inv s' \<and>
         live s' = insert f (live s) \<and> pool s' = pool s) \<or>
      (alloc s = Some (None, s) \<and> live s = pool s)"
    and free_live: "inv s \<Longrightarrow> f \<in> live s \<Longrightarrow>
      \<exists>s'. free s f = Some s' \<and> inv s' \<and> live s' = live s - {f} \<and> pool s' = pool s"
begin

lemma alloc_no_panic: "inv s \<Longrightarrow> alloc s \<noteq> None"
  using alloc_cases [of s] by auto

lemma alloc_fresh:
  assumes "inv s" and "alloc s = Some (Some f, s')"
  shows "f \<in> pool s" "f \<notin> live s" "inv s'" "live s' = insert f (live s)" "pool s' = pool s"
  using alloc_cases [OF assms(1)] assms(2) by auto

lemma alloc_exhausted:
  assumes "inv s" and "alloc s = Some (None, s')"
  shows "live s = pool s" "s' = s"
  using alloc_cases [OF assms(1)] assms(2) by auto

lemma alloc_available:
  assumes "inv s" and "live s \<noteq> pool s"
  shows "\<exists>f s'. alloc s = Some (Some f, s')"
  using alloc_cases [OF assms(1)] assms(2) by auto

text \<open>Returning a frame makes it allocatable again: the next request cannot fail.\<close>

lemma alloc_after_free:
  assumes "inv s" and "f \<in> live s" and "free s f = Some s'"
  shows "\<exists>g s''. alloc s' = Some (Some g, s'')"
proof -
  from free_live [OF assms(1,2)] assms(3) have s': "inv s'" "live s' = live s - {f}" "pool s' = pool s"
    by auto
  from live_pool [OF assms(1)] assms(2) have "f \<in> pool s'" using s' by auto
  with s' have "live s' \<noteq> pool s'" by auto
  with s'(1) show ?thesis by (rule alloc_available)
qed

end

definition fa_pool :: "frame_allocator \<Rightarrow> usize set" where
  "fa_pool fa = frame_addr fa ` {..<fa_total_frames fa}"

definition fa_live :: "frame_allocator \<Rightarrow> usize set" where
  "fa_live fa = frame_addr fa ` used fa"

lemma same_region_addr: "same_region fa fa' \<Longrightarrow> frame_addr fa' = frame_addr fa"
  by (rule ext) (simp add: same_region_def frame_addr_def)

lemma same_region_pool: "same_region fa fa' \<Longrightarrow> fa_pool fa' = fa_pool fa"
  by (simp add: fa_pool_def same_region_addr) (simp add: same_region_def)

lemma frame_addr_live: "frame_addr fa i \<in> fa_live fa \<longleftrightarrow> i \<in> used fa"
  by (auto simp: fa_live_def frame_addr_inj)

interpretation bitmap_source: frame_source fa_wf fa_pool fa_live fa_alloc fa_dealloc
proof unfold_locales
  fix fa :: frame_allocator
  show "fa_live fa \<subseteq> fa_pool fa" by (auto simp: fa_live_def fa_pool_def used_def)
  show "finite (fa_pool fa)" by (simp add: fa_pool_def)
  assume wf: "fa_wf fa"
  from fa_alloc_cases [OF wf]
  show "(\<exists>f fa'. fa_alloc fa = Some (Some f, fa') \<and> f \<in> fa_pool fa - fa_live fa \<and> fa_wf fa' \<and>
         fa_live fa' = insert f (fa_live fa) \<and> fa_pool fa' = fa_pool fa) \<or>
      (fa_alloc fa = Some (None, fa) \<and> fa_live fa = fa_pool fa)"
  proof (elim disjE exE conjE)
    fix i fa'
    assume h: "i < fa_total_frames fa" "i \<notin> used fa" "same_region fa fa'"
      "fa_alloc fa = Some (Some (frame_addr fa i), fa')" "fa_wf fa'" "used fa' = insert i (used fa)"
    then have "fa_live fa' = insert (frame_addr fa i) (fa_live fa)"
      by (simp add: fa_live_def same_region_addr)
    with h show ?thesis
      by (intro disjI1 exI [of _ "frame_addr fa i"] exI [of _ fa'])
        (simp add: same_region_pool frame_addr_live, simp add: fa_pool_def)
  next
    assume "used fa = {..<fa_total_frames fa}" "fa_alloc fa = Some (None, fa)"
    then show ?thesis by (simp add: fa_live_def fa_pool_def)
  qed
  fix f
  assume "f \<in> fa_live fa"
  then obtain i where i: "i < fa_total_frames fa" "f = frame_addr fa i" "i \<in> used fa"
    by (auto simp: fa_live_def used_def)
  with fa_dealloc_eq [OF wf i(1)] obtain fa' where fa': "fa_dealloc fa f = Some fa'" "fa_wf fa'"
    "used fa' = used fa - {i}" "same_region fa fa'" by auto
  have "inj (frame_addr fa)" by (simp add: inj_def frame_addr_inj)
  then have "fa_live fa' = fa_live fa - {f}"
    by (simp add: fa_live_def same_region_addr [OF fa'(4)] fa'(3) image_set_diff i(2))
  then show "\<exists>fa'. fa_dealloc fa f = Some fa' \<and> fa_wf fa' \<and> fa_live fa' = fa_live fa - {f} \<and>
      fa_pool fa' = fa_pool fa" using fa' same_region_pool by blast
qed

text \<open>The global allocator, before and after \<open>init\<close>, is a frame source as well.\<close>

definition pmm_inv :: "pmm_state \<Rightarrow> bool" where
  "pmm_inv st = (case st of None \<Rightarrow> True | Some fa \<Rightarrow> fa_wf fa)"

definition pmm_pool :: "pmm_state \<Rightarrow> usize set" where
  "pmm_pool st = (case st of None \<Rightarrow> {} | Some fa \<Rightarrow> fa_pool fa)"

definition pmm_live :: "pmm_state \<Rightarrow> usize set" where
  "pmm_live st = (case st of None \<Rightarrow> {} | Some fa \<Rightarrow> fa_live fa)"

lemmas pmm_defs = pmm_inv_def pmm_pool_def pmm_live_def

interpretation global_source: frame_source pmm_inv pmm_pool pmm_live alloc_frame dealloc_frame
proof unfold_locales
  fix st :: pmm_state
  assume inv: "pmm_inv st"
  show "pmm_live st \<subseteq> pmm_pool st"
    using inv bitmap_source.live_pool by (simp add: pmm_defs split: option.splits)
  show "finite (pmm_pool st)"
    using inv bitmap_source.finite_pool by (simp add: pmm_defs split: option.splits)
  show "(\<exists>f st'. alloc_frame st = Some (Some f, st') \<and> f \<in> pmm_pool st - pmm_live st \<and> pmm_inv st' \<and>
         pmm_live st' = insert f (pmm_live st) \<and> pmm_pool st' = pmm_pool st) \<or>
      (alloc_frame st = Some (None, st) \<and> pmm_live st = pmm_pool st)"
  proof (cases st)
    case None
    then show ?thesis by (simp add: alloc_frame_def pmm_defs)
  next
    case (Some fa)
    then show ?thesis using inv bitmap_source.alloc_cases [of fa]
      by (auto simp: alloc_frame_def pmm_defs)
  qed
  fix f
  assume "f \<in> pmm_live st"
  then obtain fa where st: "st = Some fa" and f: "f \<in> fa_live fa" and wf: "fa_wf fa"
    using inv by (auto simp: pmm_defs split: option.splits)
  from bitmap_source.free_live [OF wf f]
  show "\<exists>st'. dealloc_frame st f = Some st' \<and> pmm_inv st' \<and> pmm_live st' = pmm_live st - {f} \<and>
      pmm_pool st' = pmm_pool st" by (auto simp: dealloc_frame_def pmm_defs st)
qed

section \<open>Properties\<close>

lemma dealloc_slot:
  assumes "fa_wf fa" and "f < 2 ^ 64" and "fa_start fa \<le> f" and "f < fa_start fa + fa_total_frames fa * 4096"
  shows "\<exists>i < fa_total_frames fa. frame_addr fa i \<le> f \<and> f < frame_addr fa i + 4096 \<and>
    fa_dealloc fa f = fa_dealloc fa (frame_addr fa i)"
proof -
  let ?i = "(f - fa_start fa) div 4096"
  have i: "?i < fa_total_frames fa" using assms(3,4) by (simp add: less_mult_imp_div_less)
  have "frame_addr fa ?i \<le> f" "f < frame_addr fa ?i + 4096"
    using assms(3) unfolding frame_addr_def by linarith+
  moreover have "fa_dealloc fa f = fa_dealloc fa (frame_addr fa ?i)"
    unfolding fa_dealloc_def dealloc_index [OF assms(1) i]
    using assms(2,3) by (simp add: wsub_eq PAGE_SIZE_def)
  ultimately show ?thesis using i by blast
qed

text \<open>
  C20: \<open>alloc\<close> on a well-formed allocator never panics. It hands out a managed frame that was not
  in use and marks exactly that one, or it answers \<open>None\<close>, unchanged, and then every managed
  frame is in use: the cursor never hides a free frame.
\<close>

theorem alloc_exact:
  assumes "fa_wf fa"
  shows "(\<exists>i fa'. i < fa_total_frames fa \<and> i \<notin> used fa \<and>
      fa_alloc fa = Some (Some (frame_addr fa i), fa') \<and> fa_wf fa' \<and>
      used fa' = insert i (used fa) \<and> same_region fa fa') \<or>
    (fa_alloc fa = Some (None, fa) \<and> used fa = {..<fa_total_frames fa})"
  using fa_alloc_cases [OF assms] by blast

text \<open>
  C22: \<open>dealloc\<close> of any 64-bit address never panics. It frees the one managed frame that contains
  the address; an address outside the managed region, below it included (where the subtraction
  wraps), leaves the set of used frames unchanged.
\<close>

theorem dealloc_exact:
  assumes "fa_wf fa" and "f < 2 ^ 64"
  shows "\<exists>fa'. fa_dealloc fa f = Some fa' \<and> fa_wf fa' \<and> same_region fa fa' \<and>
    used fa' = {i \<in> used fa. \<not> (frame_addr fa i \<le> f \<and> f < frame_addr fa i + 4096)}"
proof (cases "fa_start fa \<le> f \<and> f < fa_start fa + fa_total_frames fa * 4096")
  case True
  from dealloc_slot [OF assms] True obtain i where i: "i < fa_total_frames fa"
    "frame_addr fa i \<le> f" "f < frame_addr fa i + 4096" "fa_dealloc fa f = fa_dealloc fa (frame_addr fa i)"
    by blast
  have only: "j = i" if "frame_addr fa j \<le> f" "f < frame_addr fa j + 4096" for j
    using that i(2,3) by (simp add: frame_addr_def)
  from fa_dealloc_eq [OF assms(1) i(1)] i obtain fa' where
    "fa_dealloc fa f = Some fa'" "fa_wf fa'" "used fa' = used fa - {i}" "same_region fa fa'" by auto
  moreover have "used fa - {i} = {i \<in> used fa. \<not> (frame_addr fa i \<le> f \<and> f < frame_addr fa i + 4096)}"
    using only i(2,3) by blast
  ultimately show ?thesis by auto
next
  case False
  have "\<not> (frame_addr fa i \<le> f \<and> f < frame_addr fa i + 4096)" if "i \<in> used fa" for i
  proof -
    have "i + 1 \<le> fa_total_frames fa" using that by (simp add: used_def)
    then have "(i + 1) * 4096 \<le> fa_total_frames fa * 4096" by (rule mult_le_mono1)
    with False show ?thesis by (auto simp: frame_addr_def)
  qed
  then have "{i \<in> used fa. \<not> (frame_addr fa i \<le> f \<and> f < frame_addr fa i + 4096)} = used fa" by blast
  moreover have "fa_dealloc fa f = Some fa" using False assms by (intro fa_dealloc_foreign) auto
  ultimately show ?thesis using assms(1) by (simp add: same_region_def)
qed

text \<open>
  C23: \<open>alloc_contiguous\<close> is a first fit over the whole pool and never panics. It takes the lowest
  run of \<open>count\<close> free frames, marking exactly these, and answers \<open>None\<close>, unchanged, just when
  no such run exists.
\<close>

theorem alloc_contiguous_first_fit:
  assumes "fa_wf fa" and "0 < count"
  shows "(\<exists>s fa'. s + count \<le> fa_total_frames fa \<and> {s..<s + count} \<inter> used fa = {} \<and>
      (\<forall>s' < s. {s'..<s' + count} \<inter> used fa \<noteq> {}) \<and>
      fa_alloc_contiguous fa count = Some (Some (frame_addr fa s), fa') \<and> fa_wf fa' \<and>
      used fa' = used fa \<union> {s..<s + count} \<and> same_region fa fa') \<or>
    ((\<forall>s. s + count \<le> fa_total_frames fa \<longrightarrow> {s..<s + count} \<inter> used fa \<noteq> {}) \<and>
      fa_alloc_contiguous fa count = Some (None, fa))"
  using fa_alloc_contiguous_cases [OF assms] .

text \<open>An allocator of five frames at 0x200000, of which the first and the third are in use.\<close>

definition five_frames :: frame_allocator where
  "five_frames = \<lparr>fa_start = 0x200000, fa_bitmap = [5], fa_total_frames = 5, fa_next_free = 3\<rparr>"

lemma five_frames_wf: "fa_wf five_frames"
  by (simp add: fa_wf_def five_frames_def)

lemma five_frames_used: "used five_frames = {0, 2}"
proof -
  have "used five_frames = set (filter (frame_used [5]) [0..<5])"
    by (auto simp: used_def five_frames_def)
  also have "\<dots> = {0, 2}"
    by (simp add: frame_used_def upt_rec bit_iff_odd) (simp add: numeral_2_eq_2)
  finally show ?thesis .
qed

lemma five_frames_addr: "frame_addr five_frames i = 0x200000 + i * 4096"
  by (simp add: frame_addr_def five_frames_def)

lemma five_frames_total: "fa_total_frames five_frames = 5"
  by (simp add: five_frames_def)

lemmas five_frames_simps = five_frames_wf five_frames_used five_frames_addr five_frames_total

theorem alloc_exact_witness:
  "fa_wf five_frames \<and> (\<exists>i fa'. i \<in> {1, 3, 4} \<and> fa_alloc five_frames = Some (Some (0x200000 + i * 4096), fa') \<and>
     used fa' = {i, 0, 2})"
proof -
  from alloc_exact [OF five_frames_wf, unfolded five_frames_simps] show ?thesis
  proof (elim disjE exE conjE)
    fix i fa'
    assume h: "i < 5" "i \<notin> {0, 2}" "fa_alloc five_frames = Some (Some (0x200000 + i * 4096), fa')"
      "used fa' = insert i {0, 2}"
    from h(1,2) have "i \<in> {1, 3, 4}" by auto
    with h(3,4) show ?thesis using five_frames_wf by blast
  next
    assume all: "{0, 2} = {..<5 :: nat}"
    have "1 \<in> {..<5 :: nat}" by simp
    then show ?thesis unfolding all [symmetric] by simp
  qed
qed

theorem dealloc_exact_witness:
  "fa_wf five_frames \<and> (\<exists>fa'. fa_dealloc five_frames 0x202008 = Some fa' \<and> used fa' = {0})"
proof -
  have "{i \<in> used five_frames. \<not> (frame_addr five_frames i \<le> 0x202008 \<and>
      0x202008 < frame_addr five_frames i + 4096)} = {0}"
    unfolding five_frames_simps by auto
  with dealloc_exact [OF five_frames_wf, of "0x202008"] show ?thesis
    using five_frames_wf by auto
qed

theorem alloc_contiguous_first_fit_witness:
  "fa_wf five_frames \<and> (\<exists>fa'. fa_alloc_contiguous five_frames 2 = Some (Some 0x203000, fa') \<and>
     used fa' = {0, 2, 3, 4})"
proof -
  have "{3..<3 + 2} \<inter> used five_frames = {}" by (auto simp: five_frames_used)
  then have "\<not> (\<forall>s. s + 2 \<le> fa_total_frames five_frames \<longrightarrow> {s..<s + 2} \<inter> used five_frames \<noteq> {})"
    unfolding five_frames_total by (intro notI) (drule spec [of _ 3], simp)
  with alloc_contiguous_first_fit [OF five_frames_wf, of 2] obtain s fa' where
    h: "s + 2 \<le> 5" "{s..<s + 2} \<inter> {0, 2} = {}"
    "fa_alloc_contiguous five_frames 2 = Some (Some (0x200000 + s * 4096), fa')"
    "used fa' = {0, 2} \<union> {s..<s + 2}"
    unfolding five_frames_simps by auto
  have "s = 0 \<or> s = 1 \<or> s = 2 \<or> s = 3" using h(1) by linarith
  with h(2) have s: "s = 3" by auto
  have "{0, 2} \<union> {3..<3 + 2} = {0, 2, 3, 4 :: nat}" by auto
  with h(3,4) show ?thesis using five_frames_wf by (simp add: s)
qed

end
