(* ===== verification/Frame.thy ===== *)
theory Frame
  imports Pmm "HOL-Library.Multiset"
begin

text \<open>
  Typed addresses and frame ownership: \<open>kernel/src/mm/addr.rs\<close> and \<open>kernel/src/mm/frame.rs\<close>.
  \<open>Addr<Kind, Space>\<close> is a word tagged by a phantom type; \<open>OwnedFrame\<close> and \<open>PageTableFrame\<close>
  are handles that return their frame to the allocator when dropped, unless \<open>into_raw\<close> took the
  address out of them. The life of the handles is the step relation \<open>frame_step\<close>; its invariant
  is proved once, for any \<open>frame_source\<close>, and used for the bitmap allocator.
\<close>

section \<open>Typed addresses\<close>

text \<open>The markers \<open>Phys\<close>, \<open>(Virt, User)\<close> and \<open>(Virt, Kernel)\<close>.\<close>

datatype phys = Phys
datatype user_virt = UserVirt
datatype kernel_virt = KernelVirt

datatype (dead 'kind) addr = Addr usize

type_synonym phys_addr = "phys addr"
type_synonym user_virt_addr = "user_virt addr"
type_synonym kernel_virt_addr = "kernel_virt addr"

fun as_usize :: "'kind addr \<Rightarrow> usize" where
  "as_usize (Addr raw) = raw"

definition is_page_aligned :: "'kind addr \<Rightarrow> bool" where
  "is_page_aligned a = ((of_nat (as_usize a) :: u64) AND 0xfff = 0)"

definition addr_page_align_down :: "'kind addr \<Rightarrow> 'kind addr" where
  "addr_page_align_down a = Addr (unat ((of_nat (as_usize a) :: u64) AND NOT 0xfff))"

definition page_offset :: "'kind addr \<Rightarrow> usize" where
  "page_offset a = unat ((of_nat (as_usize a) :: u64) AND 0xfff)"

definition user_try_new :: "usize \<Rightarrow> user_virt_addr option" where
  "user_try_new raw = (if raw < USER_MMAP_LIMIT then Some (Addr raw) else None)"

definition kernel_try_new :: "usize \<Rightarrow> kernel_virt_addr option" where
  "kernel_try_new raw = (if USER_MMAP_LIMIT \<le> raw then Some (Addr raw) else None)"

definition phys_new :: "usize \<Rightarrow> phys_addr" where
  "phys_new raw = Addr raw"

definition phys_ppn :: "phys_addr \<Rightarrow> usize" where
  "phys_ppn a = unat (drop_bit 12 (of_nat (as_usize a) :: u64))"

definition phys_from_ppn :: "usize \<Rightarrow> phys_addr" where
  "phys_from_ppn ppn = Addr (unat (push_bit 12 (of_nat ppn :: u64)))"

section \<open>Frame handles\<close>

record owned_frame =
  of_addr :: phys_addr

record page_table_frame =
  ptf_addr :: phys_addr

record borrowed_frame =
  bf_addr :: phys_addr

definition owned_from_raw :: "phys_addr \<Rightarrow> owned_frame" where
  "owned_from_raw a = \<lparr>of_addr = a\<rparr>"

definition owned_into_raw :: "owned_frame \<Rightarrow> phys_addr" where
  "owned_into_raw h = of_addr h"

definition owned_drop :: "pmm_state \<Rightarrow> owned_frame \<Rightarrow> pmm_state panicking" where
  "owned_drop st h = dealloc_frame st (as_usize (of_addr h))"

definition table_from_raw :: "phys_addr \<Rightarrow> page_table_frame" where
  "table_from_raw a = \<lparr>ptf_addr = a\<rparr>"

definition table_into_raw :: "page_table_frame \<Rightarrow> phys_addr" where
  "table_into_raw h = ptf_addr h"

definition table_drop :: "pmm_state \<Rightarrow> page_table_frame \<Rightarrow> pmm_state panicking" where
  "table_drop st h = dealloc_frame st (as_usize (ptf_addr h))"

definition borrowed_from_raw :: "phys_addr \<Rightarrow> borrowed_frame" where
  "borrowed_from_raw a = \<lparr>bf_addr = a\<rparr>"

definition alloc_owned_frame :: "pmm_state \<Rightarrow> (owned_frame option \<times> pmm_state) panicking" where
  "alloc_owned_frame st =
     do { (raw, st') \<leftarrow> alloc_frame st;
          Some (map_option (\<lambda>r. owned_from_raw (phys_new r)) raw, st') }"

definition alloc_page_table_frame :: "pmm_state \<Rightarrow> (page_table_frame option \<times> pmm_state) panicking" where
  "alloc_page_table_frame st =
     do { (raw, st') \<leftarrow> alloc_frame st;
          Some (map_option (\<lambda>r. table_from_raw (phys_new r)) raw, st') }"

text \<open>
  A configuration: the allocator, the live handles of both kinds, and the raw addresses taken
  out of handles by \<open>into_raw\<close> (frames stored in page table entries).
\<close>

record frame_world =
  fw_pmm :: pmm_state
  fw_owned :: "owned_frame list"
  fw_tables :: "page_table_frame list"
  fw_raw :: "phys_addr list"

inductive frame_step :: "frame_world \<Rightarrow> frame_world \<Rightarrow> bool" where
  alloc_owned: "alloc_owned_frame (fw_pmm w) = Some (Some h, st) \<Longrightarrow>
    frame_step w (w\<lparr>fw_pmm := st, fw_owned := h # fw_owned w\<rparr>)"
| alloc_table: "alloc_page_table_frame (fw_pmm w) = Some (Some t, st) \<Longrightarrow>
    frame_step w (w\<lparr>fw_pmm := st, fw_tables := t # fw_tables w\<rparr>)"
| drop_owned: "h \<in> set (fw_owned w) \<Longrightarrow> owned_drop (fw_pmm w) h = Some st \<Longrightarrow>
    frame_step w (w\<lparr>fw_pmm := st, fw_owned := remove1 h (fw_owned w)\<rparr>)"
| drop_table: "t \<in> set (fw_tables w) \<Longrightarrow> table_drop (fw_pmm w) t = Some st \<Longrightarrow>
    frame_step w (w\<lparr>fw_pmm := st, fw_tables := remove1 t (fw_tables w)\<rparr>)"
| leak_owned: "h \<in> set (fw_owned w) \<Longrightarrow>
    frame_step w (w\<lparr>fw_owned := remove1 h (fw_owned w), fw_raw := owned_into_raw h # fw_raw w\<rparr>)"
| leak_table: "t \<in> set (fw_tables w) \<Longrightarrow>
    frame_step w (w\<lparr>fw_tables := remove1 t (fw_tables w), fw_raw := table_into_raw t # fw_raw w\<rparr>)"
| free_raw: "a \<in> set (fw_raw w) \<Longrightarrow> dealloc_frame (fw_pmm w) (as_usize a) = Some st \<Longrightarrow>
    frame_step w (w\<lparr>fw_pmm := st, fw_raw := remove1 a (fw_raw w)\<rparr>)"

inductive frame_reachable :: "frame_allocator \<Rightarrow> frame_world \<Rightarrow> bool" for fa where
  boot: "frame_reachable fa \<lparr>fw_pmm = Some fa, fw_owned = [], fw_tables = [], fw_raw = []\<rparr>"
| step: "frame_reachable fa w \<Longrightarrow> frame_step w w' \<Longrightarrow> frame_reachable fa w'"

section \<open>Address arithmetic\<close>

lemma and_4095: "unat ((w :: u64) AND 0xfff) = unat w mod 4096"
proof -
  have "(0xfff :: u64) = mask 12" by (simp add: mask_eq_exp_minus_1)
  then have "unat (w AND 0xfff) = unat (take_bit 12 w)" by (simp only: take_bit_eq_mask)
  also have "\<dots> = take_bit 12 (unat w)" by (rule unsigned_take_bit_eq)
  finally show ?thesis by (simp add: take_bit_eq_mod)
qed

lemma and_not_0xfff: "unat ((w :: u64) AND NOT 0xfff) = unat w div 4096 * 4096"
  by (rule and_not_4095)

lemma unat_drop_12: "unat (drop_bit 12 (w :: u64)) = unat w div 4096"
proof -
  have "unat (drop_bit 12 w) = drop_bit 12 (unat w)" by (rule unat_drop_bit_eq)
  then show ?thesis by (simp add: drop_bit_eq_div)
qed

lemma unat_push_12: "unat (push_bit 12 (w :: u64)) = (unat w * 4096) mod 2 ^ 64"
  by (simp add: push_bit_eq_mult unat_word_ariths mult.commute)

lemma unat_of_nat_64: "x < 2 ^ 64 \<Longrightarrow> unat (of_nat x :: u64) = x"
  by (simp add: unat_of_nat)

lemmas addr_unat = and_4095 and_not_0xfff unat_drop_12 unat_push_12 unat_of_nat_64

lemma align_down_eq:
  "raw < 2 ^ 64 \<Longrightarrow> addr_page_align_down (Addr raw) = Addr (raw div 4096 * 4096)"
  by (simp only: addr_page_align_down_def as_usize.simps and_not_0xfff unat_of_nat_64)

lemma page_offset_eq: "raw < 2 ^ 64 \<Longrightarrow> page_offset (Addr raw) = raw mod 4096"
  by (simp only: page_offset_def as_usize.simps and_4095 unat_of_nat_64)

lemma is_page_aligned_offset: "is_page_aligned a \<longleftrightarrow> page_offset a = 0"
  by (simp add: is_page_aligned_def page_offset_def unat_eq_zero)

section \<open>Ownership\<close>

definition handles :: "frame_world \<Rightarrow> usize list" where
  "handles w = map (as_usize \<circ> of_addr) (fw_owned w) @ map (as_usize \<circ> ptf_addr) (fw_tables w) @
     map as_usize (fw_raw w)"

text \<open>Every live frame has exactly one handle or raw address.\<close>

definition world_inv :: "frame_world \<Rightarrow> bool" where
  "world_inv w \<longleftrightarrow> pmm_inv (fw_pmm w) \<and> mset (handles w) = mset_set (pmm_live (fw_pmm w))"

lemma finite_live: "pmm_inv st \<Longrightarrow> finite (pmm_live st)"
  using global_source.live_pool global_source.finite_pool finite_subset by blast

lemma world_invD:
  assumes "world_inv w"
  shows "distinct (handles w)" and "set (handles w) = pmm_live (fw_pmm w)" and "pmm_inv (fw_pmm w)"
proof -
  have fin: "finite (pmm_live (fw_pmm w))" and eq: "mset (handles w) = mset_set (pmm_live (fw_pmm w))"
    using assms finite_live by (auto simp: world_inv_def)
  show "set (handles w) = pmm_live (fw_pmm w)"
    using arg_cong [OF eq, of set_mset] fin by simp
  show "distinct (handles w)"
    using eq fin by (simp add: distinct_count_atmost_1 \<open>set (handles w) = _\<close>)
  show "pmm_inv (fw_pmm w)" using assms by (simp add: world_inv_def)
qed

lemma mset_map_remove1:
  assumes "x \<in> set xs"
  shows "mset (map f (remove1 x xs)) = mset (map f xs) - {#f x#}"
    and "add_mset (f x) (mset (map f (remove1 x xs))) = mset (map f xs)"
  using assms by (induction xs) auto

text \<open>A frame that enters or leaves the configuration together with its handle.\<close>

lemma world_inv_alloc:
  assumes "world_inv w" and "alloc_frame (fw_pmm w) = Some (Some f, st)"
    and "fw_pmm w' = st" and "mset (handles w') = add_mset f (mset (handles w))"
  shows "world_inv w'"
  using assms global_source.alloc_fresh [of "fw_pmm w" f st] finite_live
  by (simp add: world_inv_def)

lemma world_inv_free:
  assumes inv: "world_inv w" and f: "f \<in> set (handles w)" and d: "dealloc_frame (fw_pmm w) f = Some st"
    and "fw_pmm w' = st" and "mset (handles w') = mset (handles w) - {#f#}"
  shows "world_inv w'"
proof -
  have live: "f \<in> pmm_live (fw_pmm w)" using f world_invD(2) [OF inv] by simp
  from global_source.free_live [OF world_invD(3) [OF inv] live] d
  have st: "pmm_inv st" "pmm_live st = pmm_live (fw_pmm w) - {f}" by auto
  have "mset_set (pmm_live st) = mset_set (pmm_live (fw_pmm w)) - {#f#}"
    using live finite_live [OF world_invD(3) [OF inv]] by (simp add: st(2) mset_set_Diff)
  with st assms show ?thesis by (simp add: world_inv_def)
qed

lemma world_free_pool:
  assumes "world_inv w" and "f \<in> set (handles w)" and "dealloc_frame (fw_pmm w) f = Some st"
  shows "pmm_pool st = pmm_pool (fw_pmm w)"
  using global_source.free_live [of "fw_pmm w" f] assms by (auto simp: world_invD)

lemma world_inv_move:
  "world_inv w \<Longrightarrow> fw_pmm w' = fw_pmm w \<Longrightarrow> mset (handles w') = mset (handles w) \<Longrightarrow> world_inv w'"
  by (simp add: world_inv_def)

lemma handles_removed:
  "h \<in> set (fw_owned w) \<Longrightarrow>
    mset (handles (w\<lparr>fw_pmm := st, fw_owned := remove1 h (fw_owned w)\<rparr>)) =
    mset (handles w) - {#as_usize (of_addr h)#}"
  "t \<in> set (fw_tables w) \<Longrightarrow>
    mset (handles (w\<lparr>fw_pmm := st, fw_tables := remove1 t (fw_tables w)\<rparr>)) =
    mset (handles w) - {#as_usize (ptf_addr t)#}"
  "a \<in> set (fw_raw w) \<Longrightarrow>
    mset (handles (w\<lparr>fw_pmm := st, fw_raw := remove1 a (fw_raw w)\<rparr>)) =
    mset (handles w) - {#as_usize a#}"
  by (simp_all add: handles_def mset_map_remove1(2) [symmetric] del: mset_map mset_remove1)

lemma handles_leaked:
  "h \<in> set (fw_owned w) \<Longrightarrow>
    mset (handles (w\<lparr>fw_owned := remove1 h (fw_owned w), fw_raw := owned_into_raw h # fw_raw w\<rparr>)) =
    mset (handles w)"
  "t \<in> set (fw_tables w) \<Longrightarrow>
    mset (handles (w\<lparr>fw_tables := remove1 t (fw_tables w), fw_raw := table_into_raw t # fw_raw w\<rparr>)) =
    mset (handles w)"
  by (simp_all add: handles_def owned_into_raw_def table_into_raw_def
      mset_map_remove1(2) [symmetric] del: mset_map mset_remove1)

lemma frame_step_inv: "frame_step w w' \<Longrightarrow> world_inv w \<Longrightarrow> world_inv w'"
proof (induction rule: frame_step.induct)
  case (alloc_owned w h st)
  then obtain r where r: "alloc_frame (fw_pmm w) = Some (Some r, st)" "h = owned_from_raw (phys_new r)"
    by (auto simp: alloc_owned_frame_def bind_eq_Some_conv)
  show ?case
    by (rule world_inv_alloc [OF alloc_owned.prems r(1)])
      (simp_all add: handles_def r(2) owned_from_raw_def phys_new_def)
next
  case (alloc_table w t st)
  then obtain r where r: "alloc_frame (fw_pmm w) = Some (Some r, st)" "t = table_from_raw (phys_new r)"
    by (auto simp: alloc_page_table_frame_def bind_eq_Some_conv)
  show ?case
    by (rule world_inv_alloc [OF alloc_table.prems r(1)])
      (simp_all add: handles_def r(2) table_from_raw_def phys_new_def)
next
  case (drop_owned h w st)
  then show ?case
    by (intro world_inv_free [OF drop_owned.prems _ _ _ handles_removed(1)])
      (simp_all add: owned_drop_def handles_def)
next
  case (drop_table t w st)
  then show ?case
    by (intro world_inv_free [OF drop_table.prems _ _ _ handles_removed(2)])
      (simp_all add: table_drop_def handles_def)
next
  case (leak_owned h w)
  then show ?case by (intro world_inv_move [OF leak_owned.prems _ handles_leaked(1)]) simp_all
next
  case (leak_table t w)
  then show ?case by (intro world_inv_move [OF leak_table.prems _ handles_leaked(2)]) simp_all
next
  case (free_raw a w st)
  then show ?case
    by (intro world_inv_free [OF free_raw.prems _ _ _ handles_removed(3)]) (simp_all add: handles_def)
qed

lemma frame_reachable_inv: "frame_reachable fa w \<Longrightarrow> fa_wf fa \<Longrightarrow> used fa = {} \<Longrightarrow> world_inv w"
proof (induction rule: frame_reachable.induct)
  case boot
  then show ?case by (simp add: world_inv_def handles_def pmm_defs fa_live_def)
next
  case (step w w')
  then show ?case using frame_step_inv by blast
qed

lemma frame_step_pool: "frame_step w w' \<Longrightarrow> world_inv w \<Longrightarrow> pmm_pool (fw_pmm w') = pmm_pool (fw_pmm w)"
proof (induction rule: frame_step.induct)
  case (alloc_owned w h st)
  then show ?case using global_source.alloc_fresh(5) [OF world_invD(3) [OF alloc_owned.prems]]
    by (auto simp: alloc_owned_frame_def bind_eq_Some_conv)
next
  case (alloc_table w t st)
  then show ?case using global_source.alloc_fresh(5) [OF world_invD(3) [OF alloc_table.prems]]
    by (auto simp: alloc_page_table_frame_def bind_eq_Some_conv)
next
  case (drop_owned h w st)
  then show ?case using world_free_pool [OF drop_owned.prems, of "as_usize (of_addr h)" st]
    by (simp add: handles_def owned_drop_def)
next
  case (drop_table t w st)
  then show ?case using world_free_pool [OF drop_table.prems, of "as_usize (ptf_addr t)" st]
    by (simp add: handles_def table_drop_def)
next
  case (free_raw a w st)
  then show ?case using world_free_pool [OF free_raw.prems, of "as_usize a" st]
    by (simp add: handles_def)
qed simp_all

lemma frame_reachable_pool:
  "frame_reachable fa w \<Longrightarrow> fa_wf fa \<Longrightarrow> used fa = {} \<Longrightarrow> pmm_pool (fw_pmm w) = fa_pool fa"
proof (induction rule: frame_reachable.induct)
  case boot
  then show ?case by (simp add: pmm_defs)
next
  case (step w w')
  then show ?case using frame_step_pool frame_reachable_inv by metis
qed

lemma fa_pool_bounds:
  assumes "fa_wf fa" and "f \<in> fa_pool fa"
  shows "f mod 4096 = 0" and "fa_start fa \<le> f" and "f + 4096 \<le> fa_start fa + fa_total_frames fa * 4096"
proof -
  from assms(2) obtain i where i: "i < fa_total_frames fa" and f: "f = fa_start fa + i * 4096"
    by (auto simp: fa_pool_def frame_addr_def)
  show "f mod 4096 = 0" using fa_wfD(3) [OF assms(1)] by (simp add: f mod_add_left_eq [symmetric])
  show "fa_start fa \<le> f" by (simp add: f)
  have "(i + 1) * 4096 \<le> fa_total_frames fa * 4096" using i by (intro mult_le_mono1) simp
  then show "f + 4096 \<le> fa_start fa + fa_total_frames fa * 4096" by (simp add: f)
qed

section \<open>Properties\<close>

text \<open>
  C1: Frame ownership from boot on. Start from the allocator \<open>FrameAllocator::new\<close> builds, and take
  any sequence of allocations of owned and page-table frames, drops of handles, \<open>into_raw\<close>
  conversions and deallocations of raw addresses. Then no frame has two handles, the frames with
  a handle are exactly those the allocator counts as live, so none is leaked or freed while
  held, and each of them is page-aligned, above the kernel image and the bitmap and inside memory.
\<close>

theorem frame_ownership:
  assumes "kernel_end + 4095 < 2 ^ 64" and "memory_start + mem_size + 4096 < 2 ^ 64"
    and "page_align_up kernel_end \<le> memory_start + mem_size"
    and "frame_reachable (fa_new kernel_end memory_start mem_size) w"
  shows "distinct (handles w) \<and> set (handles w) = pmm_live (fw_pmm w) \<and>
    (\<forall>f \<in> set (handles w). f mod 4096 = 0 \<and> f + 4096 \<le> memory_start + mem_size \<and>
      page_align_up kernel_end + 8 * length (fa_bitmap (fa_new kernel_end memory_start mem_size)) \<le> f)"
proof -
  let ?fa = "fa_new kernel_end memory_start mem_size"
  note lay = fa_new_layout [OF assms(1-3) refl]
  have inv: "world_inv w" using frame_reachable_inv [OF assms(4) lay(1,2)] .
  note live = world_invD(2) [OF inv]
  have "set (handles w) \<subseteq> fa_pool ?fa"
    using global_source.live_pool [OF world_invD(3) [OF inv]]
    by (simp add: live frame_reachable_pool [OF assms(4) lay(1,2)])
  then have "\<forall>f \<in> set (handles w). f mod 4096 = 0 \<and> f + 4096 \<le> memory_start + mem_size \<and>
      page_align_up kernel_end + 8 * length (fa_bitmap ?fa) \<le> f"
    using fa_pool_bounds [OF lay(1)] lay(3,4) by (meson le_trans subsetD)
  with live world_invD(1) [OF inv] show ?thesis by blast
qed

text \<open>
  C24: \<open>drop\<close> and deallocation never panic on a frame that has a handle, and they make the frame
  allocatable again: in a reachable configuration dropping an owned frame returns, and the next
  allocation of an owned frame succeeds, however full memory was.
\<close>

theorem drop_then_alloc:
  assumes "fa_wf fa" and "used fa = {}" and "frame_reachable fa w" and "h \<in> set (fw_owned w)"
  shows "\<exists>st h' st'. owned_drop (fw_pmm w) h = Some st \<and>
    pmm_live st = pmm_live (fw_pmm w) - {as_usize (of_addr h)} \<and>
    alloc_owned_frame st = Some (Some h', st')"
proof -
  have inv: "world_inv w" using assms frame_reachable_inv by blast
  have live: "as_usize (of_addr h) \<in> pmm_live (fw_pmm w)"
    using assms(4) by (auto simp: world_invD(2) [OF inv, symmetric] handles_def)
  from global_source.free_live [OF world_invD(3) [OF inv] live] obtain st where
    st: "dealloc_frame (fw_pmm w) (as_usize (of_addr h)) = Some st"
    "pmm_live st = pmm_live (fw_pmm w) - {as_usize (of_addr h)}" by blast
  from global_source.alloc_after_free [OF world_invD(3) [OF inv] live st(1)]
  obtain g st' where "alloc_frame st = Some (Some g, st')" by blast
  with st show ?thesis by (simp add: owned_drop_def alloc_owned_frame_def)
qed

text \<open>
  Page arithmetic of 64-bit addresses: an address is its page base plus its offset, the offset
  is below 4096, alignment is offset zero, the physical page number names the page base, and
  every 64-bit address is in exactly one of the user and the kernel range.
\<close>

theorem addr_page_split:
  assumes "raw < 2 ^ 64"
  shows "as_usize (addr_page_align_down (Addr raw)) + page_offset (Addr raw :: 'k addr) = raw \<and>
    page_offset (Addr raw :: 'k addr) < 4096 \<and>
    (is_page_aligned (Addr raw :: 'k addr) \<longleftrightarrow> page_offset (Addr raw :: 'k addr) = 0) \<and>
    is_page_aligned (addr_page_align_down (Addr raw :: 'k addr)) \<and>
    phys_from_ppn (phys_ppn (phys_new raw)) = addr_page_align_down (phys_new raw) \<and>
    (user_try_new raw = None) \<noteq> (kernel_try_new raw = None)"
proof (intro conjI)
  have lt: "raw div 4096 * 4096 < 2 ^ 64" using assms div_times_less_eq_dividend le_less_trans by blast
  show "is_page_aligned (addr_page_align_down (Addr raw :: 'k addr))"
    unfolding align_down_eq [OF assms] is_page_aligned_offset page_offset_eq [OF lt] by simp
  have "unat (push_bit 12 (of_nat (raw div 4096)) :: u64) = raw div 4096 * 4096"
    using lt unfolding unat_push_12 by (subst unat_of_nat_64) simp_all
  then show "phys_from_ppn (phys_ppn (phys_new raw)) = addr_page_align_down (phys_new raw)"
    unfolding phys_from_ppn_def phys_ppn_def phys_new_def as_usize.simps unat_drop_12
      align_down_eq [OF assms] unat_of_nat_64 [OF assms] by simp
  show "(user_try_new raw = None) \<noteq> (kernel_try_new raw = None)"
    by (simp add: user_try_new_def kernel_try_new_def)
qed (simp_all add: align_down_eq [OF assms] page_offset_eq [OF assms] is_page_aligned_offset)

theorem addr_page_split_witness:
  "phys_from_ppn (phys_ppn (phys_new 0x80201234)) = addr_page_align_down (phys_new 0x80201234) \<and>
   addr_page_align_down (phys_new 0x80201234) = Addr 0x80201000 \<and>
   page_offset (phys_new 0x80201234) = 0x234 \<and> kernel_try_new 0x80201234 = None"
proof -
  have "addr_page_align_down (phys_new 0x80201234) = Addr 0x80201000"
    "page_offset (phys_new 0x80201234) = 0x234" "user_try_new 0x80201234 \<noteq> None"
    by (simp_all add: phys_new_def align_down_eq page_offset_eq user_try_new_def USER_MMAP_LIMIT_def)
  with addr_page_split [of "0x80201234"] show ?thesis by auto
qed

text \<open>A memory of three managed frames, before and after its first allocation.\<close>

definition three_frames :: frame_allocator where
  "three_frames = \<lparr>fa_start = 0x3000, fa_bitmap = [0], fa_total_frames = 3, fa_next_free = 0\<rparr>"

definition three_frames_world :: frame_world where
  "three_frames_world =
     \<lparr>fw_pmm = Some (three_frames\<lparr>fa_bitmap := [1], fa_next_free := 1\<rparr>),
      fw_owned = [\<lparr>of_addr = Addr 0x3000\<rparr>], fw_tables = [], fw_raw = []\<rparr>"

lemma three_frames_new: "fa_new 0x1800 0x1000 0x5000 = three_frames"
  by (simp add: fa_new_def three_frames_def Let_def page_align_up_eq wadd_eq wsub_eq wmul_eq PAGE_SIZE_def)

lemma three_frames_alloc:
  "alloc_owned_frame (Some three_frames) =
    Some (Some \<lparr>of_addr = Addr 0x3000\<rparr>, Some (three_frames\<lparr>fa_bitmap := [1], fa_next_free := 1\<rparr>))"
  by (simp add: alloc_owned_frame_def alloc_frame_def fa_alloc_def three_frames_def upt_rec
      take_frame_def bit_clear_def mark_used_def wadd_eq wmul_eq owned_from_raw_def phys_new_def)

lemma three_frames_reach: "frame_reachable three_frames three_frames_world"
  unfolding three_frames_world_def
  using frame_step.alloc_owned [of "\<lparr>fw_pmm = Some three_frames, fw_owned = [],
    fw_tables = [], fw_raw = []\<rparr>"] three_frames_alloc
  by (intro frame_reachable.step [OF frame_reachable.boot]) simp

theorem frame_ownership_witness:
  "frame_reachable (fa_new 0x1800 0x1000 0x5000) three_frames_world \<and>
   handles three_frames_world = [0x3000] \<and> pmm_live (fw_pmm three_frames_world) = {0x3000}"
proof -
  have h: "handles three_frames_world = [0x3000]" by (simp add: handles_def three_frames_world_def)
  have "frame_reachable (fa_new 0x1800 0x1000 0x5000) three_frames_world"
    using three_frames_reach by (simp only: three_frames_new)
  with frame_ownership [OF _ _ _ this] h show ?thesis by (simp add: page_align_up_eq)
qed

theorem drop_then_alloc_witness:
  "fa_wf three_frames \<and> frame_reachable three_frames three_frames_world \<and>
   (\<exists>st h' st'. owned_drop (fw_pmm three_frames_world) \<lparr>of_addr = Addr 0x3000\<rparr> = Some st \<and>
      alloc_owned_frame st = Some (Some h', st'))"
proof -
  have wf: "fa_wf three_frames" by (simp add: fa_wf_def three_frames_def)
  have u: "used three_frames = {}"
    by (rule fa_new_layout(2) [OF _ _ _ three_frames_new [symmetric]]) (simp_all add: page_align_up_eq)
  have "\<lparr>of_addr = Addr 0x3000\<rparr> \<in> set (fw_owned three_frames_world)" by (simp add: three_frames_world_def)
  from drop_then_alloc [OF wf u three_frames_reach this] show ?thesis
    using wf three_frames_reach by blast
qed

end
