(* ===== verification/Vma.thy ===== *)
theory Vma
  imports Karte_Prelude
begin

text \<open>
  Virtual memory areas, \<open>kernel/src/mm/vma.rs\<close>: a fixed table of regions per address space, kept
  in a registry keyed by the page table root. \<open>VmaRegion\<close>, \<open>VmState\<close> and \<open>VmStateSlot\<close> are
  records; the arrays are lists, of length \<open>MAX_VMAS\<close> and \<open>MAX_ADDRESS_SPACES\<close> in the initial
  registry, and no operation changes a length. \<open>Result<T, ()>\<close> is an option whose \<open>None\<close> is the
  error; since an error may leave a table half updated, operations answer the result together
  with the new table.

  The meaning of a table is its coverage \<open>cov\<close>, the set of pairs of an address and a protection
  that some active region gives it. The lemmas describe every operation by its effect on the
  coverage. \<open>reserve_mmap_addr\<close> loops until it finds a gap; it is a \<open>partial_function\<close>, and that
  it returns is a theorem.
\<close>

section \<open>Data and operations\<close>

definition MAX_VMAS :: usize where
  "MAX_VMAS = 1024"

definition MAX_ADDRESS_SPACES :: usize where
  "MAX_ADDRESS_SPACES = 512"

record vma_region =
  vr_start :: usize
  vr_end :: usize
  vr_prot :: usize
  vr_active :: bool

definition vma_empty :: vma_region where
  "vma_empty = \<lparr>vr_start = 0, vr_end = 0, vr_prot = 0, vr_active = False\<rparr>"

record vm_state =
  vs_vmas :: "vma_region list"
  vs_next_mmap_addr :: usize
  vs_max_elf_vaddr :: usize

definition vm_clear :: "vm_state \<Rightarrow> vm_state" where
  "vm_clear st = \<lparr>vs_vmas = map (\<lambda>_. vma_empty) (vs_vmas st), vs_next_mmap_addr = 0, vs_max_elf_vaddr = 0\<rparr>"

definition copy_from :: "vm_state \<Rightarrow> vm_state \<Rightarrow> vm_state" where
  "copy_from self other =
     self\<lparr>vs_vmas := vs_vmas other, vs_next_mmap_addr := vs_next_mmap_addr other,
          vs_max_elf_vaddr := vs_max_elf_vaddr other\<rparr>"

record vm_state_slot =
  vss_root :: usize
  vss_active :: bool
  vss_state :: vm_state

type_synonym vm_registry = "vm_state_slot list"

definition vm_state_slot_default :: vm_state_slot where
  "vm_state_slot_default =
     \<lparr>vss_root = 0, vss_active = False,
      vss_state = \<lparr>vs_vmas = replicate MAX_VMAS vma_empty, vs_next_mmap_addr = 0, vs_max_elf_vaddr = 0\<rparr>\<rparr>"

definition VM_STATES :: vm_registry where
  "VM_STATES = replicate MAX_ADDRESS_SPACES vm_state_slot_default"

text \<open>\<open>slot.active && slot.root == root\<close>\<close>

definition slot_is :: "usize \<Rightarrow> vm_state_slot \<Rightarrow> bool" where
  "slot_is root slot = (vss_active slot \<and> vss_root slot = root)"

definition init_root :: "usize \<Rightarrow> vm_registry \<Rightarrow> unit option \<times> vm_registry" where
  "init_root root reg =
     (if root = 0 then (None, reg)
      else if \<exists>slot \<in> set reg. slot_is root slot
        then (Some (), upd_first (slot_is root) (\<lambda>s. s\<lparr>vss_state := vm_clear (vss_state s)\<rparr>) reg)
      else if \<exists>slot \<in> set reg. \<not> vss_active slot
        then (Some (), upd_first (\<lambda>s. \<not> vss_active s)
                (\<lambda>s. s\<lparr>vss_root := root, vss_active := True, vss_state := vm_clear (vss_state s)\<rparr>) reg)
      else (None, reg))"

definition release_root :: "usize \<Rightarrow> vm_registry \<Rightarrow> vm_registry" where
  "release_root root reg =
     (if root = 0 then reg
      else upd_first (slot_is root)
             (\<lambda>s. s\<lparr>vss_active := False, vss_root := 0, vss_state := vm_clear (vss_state s)\<rparr>) reg)"

text \<open>The scan of \<open>clone_root_state\<close>: the last slot of the source and the first free slot.\<close>

fun clone_scan ::
    "usize \<Rightarrow> usize \<Rightarrow> vm_registry \<Rightarrow> usize option \<Rightarrow> usize option \<Rightarrow> usize option \<times> usize option" where
  "clone_scan src_root i [] src dst = (src, dst)"
| "clone_scan src_root i (slot # slots) src dst =
     clone_scan src_root (i + 1) slots
       (if slot_is src_root slot then Some i else src)
       (if \<not> vss_active slot \<and> dst = None then Some i else dst)"

definition clone_root_state :: "usize \<Rightarrow> usize \<Rightarrow> vm_registry \<Rightarrow> unit option \<times> vm_registry" where
  "clone_root_state src_root dst_root reg =
     (if src_root = 0 \<or> dst_root = 0 then (None, reg)
      else case clone_scan src_root 0 reg None None of
        (None, _) \<Rightarrow> (None, reg)
      | (Some src_idx, None) \<Rightarrow> (None, reg)
      | (Some src_idx, Some dst_idx) \<Rightarrow>
          let dst = reg ! dst_idx;
              copied = (if src_idx \<noteq> dst_idx
                        then dst\<lparr>vss_state := copy_from (vss_state dst) (vss_state (reg ! src_idx))\<rparr>
                        else dst)
          in (Some (), reg[dst_idx := copied\<lparr>vss_root := dst_root, vss_active := True\<rparr>]))"

fun with_state :: "usize \<Rightarrow> (vm_state \<Rightarrow> 'r \<times> vm_state) \<Rightarrow> vm_registry \<Rightarrow> 'r option \<times> vm_registry" where
  "with_state root f [] = (None, [])"
| "with_state root f (slot # slots) =
     (if slot_is root slot
      then (let (r, st) = f (vss_state slot) in (Some r, slot\<lparr>vss_state := st\<rparr> # slots))
      else (let (r, slots') = with_state root f slots in (r, slot # slots')))"

definition with_state_ref :: "usize \<Rightarrow> (vm_state \<Rightarrow> 'r) \<Rightarrow> vm_registry \<Rightarrow> 'r option" where
  "with_state_ref root f reg = map_option (\<lambda>slot. f (vss_state slot)) (find (slot_is root) reg)"

text \<open>\<open>vma.active && addr >= vma.start && addr < vma.end\<close> and \<open>vma.active && vma.start < end && vma.end > start\<close>\<close>

definition region_has :: "usize \<Rightarrow> vma_region \<Rightarrow> bool" where
  "region_has addr v = (vr_active v \<and> vr_start v \<le> addr \<and> addr < vr_end v)"

definition region_meets :: "usize \<Rightarrow> usize \<Rightarrow> vma_region \<Rightarrow> bool" where
  "region_meets s e v = (vr_active v \<and> vr_start v < e \<and> s < vr_end v)"

text \<open>The loop of \<open>vma_check\<close> with \<open>best_prot\<close> and \<open>best_size\<close>.\<close>

fun check_loop :: "usize \<Rightarrow> vma_region list \<Rightarrow> usize option \<Rightarrow> usize \<Rightarrow> usize option" where
  "check_loop addr [] best_prot best_size = best_prot"
| "check_loop addr (v # vs) best_prot best_size =
     (if region_has addr v then
        let size = wsub (vr_end v) (vr_start v);
            cur_accessible = (vr_prot v \<noteq> 0);
            best_accessible = (case best_prot of None \<Rightarrow> False | Some p \<Rightarrow> p \<noteq> 0)
        in if cur_accessible \<and> \<not> best_accessible \<or> cur_accessible = best_accessible \<and> size < best_size
           then check_loop addr vs (if vr_prot v = 0 then None else Some (vr_prot v)) size
           else check_loop addr vs best_prot best_size
      else check_loop addr vs best_prot best_size)"

definition vma_check :: "usize \<Rightarrow> usize \<Rightarrow> vm_registry \<Rightarrow> usize option" where
  "vma_check root addr reg =
     (case with_state_ref root (\<lambda>st. check_loop addr (vs_vmas st) None USIZE_MAX) reg of
        Some r \<Rightarrow> r | None \<Rightarrow> None)"

definition query_vmas :: "usize \<Rightarrow> vma_region list \<Rightarrow> usize option" where
  "query_vmas addr vmas = map_option vr_prot (find (region_has addr) vmas)"

definition vma_query :: "usize \<Rightarrow> usize \<Rightarrow> vm_registry \<Rightarrow> usize option" where
  "vma_query root addr reg =
     (case with_state_ref root (\<lambda>st. query_vmas addr (vs_vmas st)) reg of Some r \<Rightarrow> r | None \<Rightarrow> None)"

definition vma_overlaps :: "usize \<Rightarrow> usize \<Rightarrow> usize \<Rightarrow> vm_registry \<Rightarrow> bool" where
  "vma_overlaps root s e reg =
     (case with_state_ref root (\<lambda>st. list_ex (region_meets s e) (vs_vmas st)) reg of
        Some r \<Rightarrow> r | None \<Rightarrow> False)"

definition insert_vma ::
    "vma_region list \<Rightarrow> usize \<Rightarrow> usize \<Rightarrow> usize \<Rightarrow> unit option \<times> vma_region list" where
  "insert_vma vmas s e prot =
     (if e \<le> s then (Some (), vmas)
      else if \<exists>v \<in> set vmas. \<not> vr_active v
        then (Some (), upd_first (\<lambda>v. \<not> vr_active v)
                (\<lambda>_. \<lparr>vr_start = s, vr_end = e, vr_prot = prot, vr_active = True\<rparr>) vmas)
      else (None, vmas))"

text \<open>The loop of \<open>split_overlapping_vmas\<close> over the indices of the table.\<close>

fun split_from ::
    "usize \<Rightarrow> usize \<Rightarrow> usize list \<Rightarrow> vma_region list \<Rightarrow> unit option \<times> vma_region list" where
  "split_from s e [] vmas = (Some (), vmas)"
| "split_from s e (i # is) vmas =
     (let v = vmas ! i in
      if \<not> vr_active v \<or> e \<le> vr_start v \<or> vr_end v \<le> s then split_from s e is vmas
      else if vr_start v < s \<and> e < vr_end v then
        (case insert_vma (vmas[i := v\<lparr>vr_end := s\<rparr>]) e (vr_end v) (vr_prot v) of
           (None, vmas') \<Rightarrow> (None, vmas')
         | (Some _, vmas') \<Rightarrow> split_from s e is vmas')
      else if vr_start v < s then split_from s e is (vmas[i := v\<lparr>vr_end := s\<rparr>])
      else if e < vr_end v then split_from s e is (vmas[i := v\<lparr>vr_start := e\<rparr>])
      else split_from s e is (vmas[i := v\<lparr>vr_active := False\<rparr>]))"

definition split_overlapping_vmas ::
    "vma_region list \<Rightarrow> usize \<Rightarrow> usize \<Rightarrow> unit option \<times> vma_region list" where
  "split_overlapping_vmas vmas s e = split_from s e [0..<length vmas] vmas"

definition add_vmas ::
    "vma_region list \<Rightarrow> usize \<Rightarrow> usize \<Rightarrow> usize \<Rightarrow> bool \<Rightarrow> unit option \<times> vma_region list" where
  "add_vmas vmas s e prot map_fixed =
     (if map_fixed then
        (case split_overlapping_vmas vmas s e of
           (None, vmas') \<Rightarrow> (None, vmas')
         | (Some _, vmas') \<Rightarrow> insert_vma vmas' s e prot)
      else insert_vma vmas s e prot)"

text \<open>A closure that works on the regions of a state.\<close>

definition on_vmas :: "(vma_region list \<Rightarrow> 'r \<times> vma_region list) \<Rightarrow> vm_state \<Rightarrow> 'r \<times> vm_state" where
  "on_vmas f st = (let (r, vmas) = f (vs_vmas st) in (r, st\<lparr>vs_vmas := vmas\<rparr>))"

definition vma_add ::
    "usize \<Rightarrow> usize \<Rightarrow> usize \<Rightarrow> usize \<Rightarrow> bool \<Rightarrow> vm_registry \<Rightarrow> unit option \<times> vm_registry" where
  "vma_add root s e prot map_fixed reg =
     (let (r, reg') = with_state root (on_vmas (\<lambda>vmas. add_vmas vmas s e prot map_fixed)) reg
      in (case r of None \<Rightarrow> None | Some inner \<Rightarrow> inner, reg'))"

definition vma_remove_range :: "usize \<Rightarrow> usize \<Rightarrow> usize \<Rightarrow> vm_registry \<Rightarrow> vm_registry" where
  "vma_remove_range root s e reg =
     snd (with_state root (on_vmas (\<lambda>vmas. split_overlapping_vmas vmas s e)) reg)"

definition update_prot_vmas :: "usize \<Rightarrow> usize \<Rightarrow> usize \<Rightarrow> vma_region list \<Rightarrow> vma_region list" where
  "update_prot_vmas s e new_prot vmas =
     map (\<lambda>v. if region_meets s e v then v\<lparr>vr_prot := new_prot\<rparr> else v) vmas"

definition vma_update_prot :: "usize \<Rightarrow> usize \<Rightarrow> usize \<Rightarrow> usize \<Rightarrow> vm_registry \<Rightarrow> vm_registry" where
  "vma_update_prot root s e new_prot reg =
     snd (with_state root (on_vmas (\<lambda>vmas. ((), update_prot_vmas s e new_prot vmas))) reg)"

definition ensure_mmap_above :: "usize \<Rightarrow> usize \<Rightarrow> vm_registry \<Rightarrow> vm_registry" where
  "ensure_mmap_above root min_addr reg =
     (let aligned = page_align_up min_addr in
      snd (with_state root (\<lambda>st. ((),
        st\<lparr>vs_next_mmap_addr := max (vs_next_mmap_addr st) aligned,
           vs_max_elf_vaddr := max (vs_max_elf_vaddr st) aligned\<rparr>)) reg))"

definition register_elf_vma :: "usize \<Rightarrow> usize \<Rightarrow> usize \<Rightarrow> usize \<Rightarrow> vm_registry \<Rightarrow> vm_registry" where
  "register_elf_vma root s e prot reg = snd (vma_add root s e prot False reg)"

definition vma_is_elf :: "usize \<Rightarrow> usize \<Rightarrow> vm_registry \<Rightarrow> bool" where
  "vma_is_elf root addr reg =
     (case with_state_ref root (\<lambda>st. vs_max_elf_vaddr st \<noteq> 0 \<and> 0x400000 \<le> addr \<and>
              addr < vs_max_elf_vaddr st \<and> list_ex (region_has addr) (vs_vmas st)) reg of
        Some r \<Rightarrow> r | None \<Rightarrow> False)"

text \<open>
  The search loop of \<open>reserve_mmap_addr\<close>. \<open>Some (None, st)\<close> is the error, \<open>None\<close> a loop that
  never ends. The list of conflicts is not empty when its maximum is taken.
\<close>

partial_function (option) reserve_loop :: "usize \<Rightarrow> vm_state \<Rightarrow> (usize option \<times> vm_state) option" where
  "reserve_loop aligned_len st =
     (let candidate = (if 0 < vs_next_mmap_addr st then vs_next_mmap_addr st else USER_MMAP_BASE);
          end_addr = (case checked_add candidate aligned_len of Some e \<Rightarrow> e | None \<Rightarrow> 0);
          conflicts = filter (region_meets candidate end_addr) (vs_vmas st)
      in if USER_MMAP_LIMIT < end_addr \<or> end_addr = 0 then Some (None, st)
         else if conflicts \<noteq> [] then
           reserve_loop aligned_len
             (st\<lparr>vs_next_mmap_addr := page_align_up (Max (set (map vr_end conflicts)))\<rparr>)
         else Some (Some candidate, st\<lparr>vs_next_mmap_addr := end_addr\<rparr>))"

definition reserve_mmap_addr :: "usize \<Rightarrow> usize \<Rightarrow> vm_registry \<Rightarrow> (usize option \<times> vm_registry) option" where
  "reserve_mmap_addr root len reg =
     (case find (slot_is root) reg of
        None \<Rightarrow> Some (None, reg)
      | Some slot \<Rightarrow>
          do { (r, st) \<leftarrow> reserve_loop (page_align_up len) (vss_state slot);
               Some (r, upd_first (slot_is root) (\<lambda>s. s\<lparr>vss_state := st\<rparr>) reg) })"

definition vma_clear_root :: "usize \<Rightarrow> vm_registry \<Rightarrow> vm_registry" where
  "vma_clear_root root reg = snd (with_state root (\<lambda>st. ((), vm_clear st)) reg)"

section \<open>Coverage\<close>

definition region_cov :: "vma_region \<Rightarrow> (usize \<times> usize) set" where
  "region_cov v = (if vr_active v then {vr_start v..<vr_end v} \<times> {vr_prot v} else {})"

definition cov :: "vma_region list \<Rightarrow> (usize \<times> usize) set" where
  "cov vmas = (\<Union>v \<in> set vmas. region_cov v)"

text \<open>Active regions at different indices share no address.\<close>

definition regions_apart :: "vma_region \<Rightarrow> vma_region \<Rightarrow> bool" where
  "regions_apart v w \<longleftrightarrow> (\<forall>a. \<not> (region_has a v \<and> region_has a w))"

definition disjoint_vmas :: "vma_region list \<Rightarrow> bool" where
  "disjoint_vmas vmas \<longleftrightarrow>
     (\<forall>i < length vmas. \<forall>j < length vmas. i \<noteq> j \<longrightarrow> regions_apart (vmas ! i) (vmas ! j))"

lemma in_region_cov: "(a, p) \<in> region_cov v \<longleftrightarrow> region_has a v \<and> vr_prot v = p"
  by (auto simp: region_cov_def region_has_def)

lemma in_cov: "(a, p) \<in> cov vmas \<longleftrightarrow> (\<exists>v \<in> set vmas. region_has a v \<and> vr_prot v = p)"
  by (simp add: cov_def in_region_cov)

lemma cov_update:
  assumes "i < length vmas"
  obtains rest where "cov vmas = region_cov (vmas ! i) \<union> rest"
    and "\<And>v. cov (vmas[i := v]) = region_cov v \<union> rest"
proof
  let ?rest = "cov (take i vmas) \<union> cov (drop (Suc i) vmas)"
  have "set vmas = set (take i vmas) \<union> {vmas ! i} \<union> set (drop (Suc i) vmas)"
    by (metis Un_insert_right append.assoc append_Cons append_Nil assms id_take_nth_drop
        list.set(1,2) set_append)
  then show "cov vmas = region_cov (vmas ! i) \<union> ?rest" by (auto simp: cov_def)
  show "cov (vmas[i := v]) = region_cov v \<union> ?rest" for v
    using assms by (auto simp: cov_def upd_conv_take_nth_drop)
qed

lemma insert_vma_slot:
  assumes "insert_vma vmas s e p = (Some (), vmas')" and "s < e"
  obtains k where "k < length vmas" and "\<not> vr_active (vmas ! k)"
    and "vmas' = vmas[k := \<lparr>vr_start = s, vr_end = e, vr_prot = p, vr_active = True\<rparr>]"
proof -
  let ?new = "\<lparr>vr_start = s, vr_end = e, vr_prot = p, vr_active = True\<rparr>"
  from assms have v': "vmas' = upd_first (\<lambda>v. \<not> vr_active v) (\<lambda>_. ?new) vmas"
    and ex: "\<exists>v \<in> set vmas. \<not> vr_active v"
    by (auto simp: insert_vma_def split: if_splits)
  then obtain x where "find (\<lambda>v. \<not> vr_active v) vmas = Some x" by (metis find_Some_iff_ex not_None_eq)
  from upd_first_split [OF this, of "\<lambda>_. ?new"] obtain ys zs where
    "vmas = ys @ x # zs" "\<not> vr_active x" "vmas' = ys @ ?new # zs" using v' by auto
  with that [of "length ys"] show ?thesis by simp
qed

lemma length_insert_vma: "length (snd (insert_vma vmas s e p)) = length vmas"
  by (simp add: insert_vma_def)

lemma insert_vma_cov:
  assumes "insert_vma vmas s e p = (Some (), vmas')"
  shows "cov vmas' = cov vmas \<union> {s..<e} \<times> {p}"
proof (cases "s < e")
  case True
  from insert_vma_slot [OF assms True] obtain k where k: "k < length vmas" "\<not> vr_active (vmas ! k)"
    "vmas' = vmas[k := \<lparr>vr_start = s, vr_end = e, vr_prot = p, vr_active = True\<rparr>]" .
  from cov_update [OF k(1)] obtain rest where "cov vmas = region_cov (vmas ! k) \<union> rest"
    "cov vmas' = region_cov \<lparr>vr_start = s, vr_end = e, vr_prot = p, vr_active = True\<rparr> \<union> rest"
    unfolding k(3) by metis
  then show ?thesis using k(2) by (auto simp: region_cov_def)
next
  case False
  with assms show ?thesis by (simp add: insert_vma_def)
qed

lemma insert_vma_free: "\<exists>v \<in> set vmas. \<not> vr_active v \<Longrightarrow> fst (insert_vma vmas s e p) = Some ()"
  by (simp add: insert_vma_def)

section \<open>Splitting\<close>

text \<open>
  One iteration of the splitting loop at an index \<open>i\<close>: the coverage outside the range is kept,
  region \<open>i\<close> no longer meets the range, and no other region starts to meet it.
\<close>

definition clean :: "usize \<Rightarrow> usize \<Rightarrow> vma_region list \<Rightarrow> usize \<Rightarrow> bool" where
  "clean s e vmas j \<longleftrightarrow> \<not> region_meets s e (vmas ! j)"

abbreviation outside :: "usize \<Rightarrow> usize \<Rightarrow> (usize \<times> usize) set" where
  "outside s e \<equiv> - ({s..<e} \<times> UNIV)"

lemma cov_replace:
  assumes "i < length vmas" and "region_cov v \<inter> outside s e = region_cov (vmas ! i) \<inter> outside s e"
  shows "cov (vmas[i := v]) \<inter> outside s e = cov vmas \<inter> outside s e"
proof -
  from cov_update [OF assms(1)] obtain rest where
    "cov vmas = region_cov (vmas ! i) \<union> rest" "cov (vmas[i := v]) = region_cov v \<union> rest" by metis
  with assms(2) show ?thesis by (simp add: Int_Un_distrib2)
qed

text \<open>The table after iteration \<open>i\<close>, \<open>None\<close> when the insertion fails.\<close>

definition split_step :: "usize \<Rightarrow> usize \<Rightarrow> usize \<Rightarrow> vma_region list \<Rightarrow> vma_region list option" where
  "split_step s e i vmas =
     (let v = vmas ! i in
      if \<not> region_meets s e v then Some vmas
      else if vr_start v < s \<and> e < vr_end v then
        (case insert_vma (vmas[i := v\<lparr>vr_end := s\<rparr>]) e (vr_end v) (vr_prot v) of
           (None, _) \<Rightarrow> None | (Some _, vmas') \<Rightarrow> Some vmas')
      else if vr_start v < s then Some (vmas[i := v\<lparr>vr_end := s\<rparr>])
      else if e < vr_end v then Some (vmas[i := v\<lparr>vr_start := e\<rparr>])
      else Some (vmas[i := v\<lparr>vr_active := False\<rparr>]))"

lemma split_from_step:
  "split_step s e i vmas = Some vmas' \<Longrightarrow> split_from s e (i # is) vmas = split_from s e is vmas'"
  "split_step s e i vmas = None \<Longrightarrow> fst (split_from s e (i # is) vmas) = None"
  by (auto simp: split_step_def region_meets_def Let_def not_less split: if_splits option.splits prod.splits)

lemma split_step_cases:
  assumes st: "split_step s e i vmas = Some vmas'" and i: "i < length vmas"
  obtains (same) "vmas' = vmas" "clean s e vmas i"
  | (shrunk) w where "vmas' = vmas[i := w]" "region_cov w = region_cov (vmas ! i) \<inter> outside s e"
      "\<not> region_meets s e w"
  | (cut) w n k where "vmas' = vmas[i := w, k := n]" "k < length vmas" "k \<noteq> i"
      "\<not> vr_active (vmas ! k)" "region_cov w \<union> region_cov n = region_cov (vmas ! i) \<inter> outside s e"
      "\<not> region_meets s e w" "\<not> region_meets s e n" "s \<le> e \<Longrightarrow> regions_apart w n"
proof -
  let ?v = "vmas ! i"
  consider "\<not> region_meets s e ?v" | "region_meets s e ?v" "vr_start ?v < s" "e < vr_end ?v"
    | "region_meets s e ?v" "vr_start ?v < s" "vr_end ?v \<le> e"
    | "region_meets s e ?v" "s \<le> vr_start ?v" "e < vr_end ?v"
    | "region_meets s e ?v" "s \<le> vr_start ?v" "vr_end ?v \<le> e" by linarith
  then show ?thesis
  proof cases
    case 1
    with st show ?thesis by (intro same) (auto simp: split_step_def clean_def)
  next
    case 2
    let ?w = "?v\<lparr>vr_end := s\<rparr>"
      and ?n = "\<lparr>vr_start = e, vr_end = vr_end ?v, vr_prot = vr_prot ?v, vr_active = True\<rparr>"
    from st 2 have "insert_vma (vmas[i := ?w]) e (vr_end ?v) (vr_prot ?v) = (Some (), vmas')"
      by (auto simp: split_step_def Let_def split: option.splits prod.splits)
    from insert_vma_slot [OF this 2(3)] obtain k where k: "k < length vmas"
      "\<not> vr_active (vmas[i := ?w] ! k)" "vmas' = vmas[i := ?w, k := ?n]" by auto
    have act: "vr_active ?v" using 2(1) by (simp add: region_meets_def)
    then have ki: "k \<noteq> i" using k(2) i by auto
    show ?thesis
    proof (rule cut [of ?w k ?n])
      show "region_cov ?w \<union> region_cov ?n = region_cov ?v \<inter> outside s e"
        using 2 act by (auto simp: region_cov_def region_meets_def)
      show "s \<le> e \<Longrightarrow> regions_apart ?w ?n" by (auto simp: regions_apart_def region_has_def)
    qed (use k ki 2 in \<open>auto simp: region_meets_def\<close>)
  next
    case 3
    with st show ?thesis
      by (intro shrunk [of "?v\<lparr>vr_end := s\<rparr>"])
        (auto simp: split_step_def Let_def region_meets_def region_cov_def)
  next
    case 4
    with st show ?thesis
      by (intro shrunk [of "?v\<lparr>vr_start := e\<rparr>"])
        (auto simp: split_step_def Let_def region_meets_def region_cov_def)
  next
    case 5
    with st show ?thesis
      by (intro shrunk [of "?v\<lparr>vr_active := False\<rparr>"])
        (auto simp: split_step_def Let_def region_meets_def region_cov_def)
  qed
qed

lemma region_cov_inactive: "\<not> vr_active v \<Longrightarrow> region_cov v = {}"
  by (simp add: region_cov_def)

lemma split_step_cov:
  assumes "split_step s e i vmas = Some vmas'" and i: "i < length vmas"
  shows "cov vmas' \<inter> outside s e = cov vmas \<inter> outside s e"
  using assms
proof (cases rule: split_step_cases)
  case (shrunk w)
  then show ?thesis unfolding shrunk(1) by (intro cov_replace i) auto
next
  case (cut w n k)
  from cov_update [OF i] obtain rest where
    r: "cov vmas = region_cov (vmas ! i) \<union> rest" "cov (vmas[i := w]) = region_cov w \<union> rest" by metis
  have "k < length (vmas[i := w])" using cut by simp
  from cov_update [OF this] obtain rest' where
    r': "cov (vmas[i := w]) = region_cov (vmas[i := w] ! k) \<union> rest'" "cov vmas' = region_cov n \<union> rest'"
    unfolding cut(1) by metis
  have "vmas[i := w] ! k = vmas ! k" using cut(3) by simp
  with r'(1) r(2) cut(4) have "region_cov w \<union> rest = rest'" by (simp add: region_cov_inactive)
  with r'(2) r(1) cut(5) show ?thesis by blast
qed simp

lemma split_step_clean:
  assumes "split_step s e i vmas = Some vmas'" and i: "i < length vmas"
  shows "clean s e vmas' i" and "length vmas' = length vmas"
    and "j < length vmas \<Longrightarrow> clean s e vmas j \<Longrightarrow> clean s e vmas' j"
proof -
  from assms have "clean s e vmas' i \<and> length vmas' = length vmas \<and>
    (j < length vmas \<longrightarrow> clean s e vmas j \<longrightarrow> clean s e vmas' j)"
  proof (cases rule: split_step_cases)
    case (shrunk w)
    then show ?thesis using i by (cases "j = i") (simp_all add: clean_def)
  next
    case (cut w n k)
    then show ?thesis using i by (auto simp: clean_def nth_list_update)
  qed simp
  then show "clean s e vmas' i" "length vmas' = length vmas"
    "j < length vmas \<Longrightarrow> clean s e vmas j \<Longrightarrow> clean s e vmas' j" by blast+
qed

lemma regions_apart_sym: "regions_apart v w = regions_apart w v"
  by (auto simp: regions_apart_def)

lemma regions_apart_sub:
  "regions_apart v w \<Longrightarrow> region_cov v' \<subseteq> region_cov v \<Longrightarrow> regions_apart v' w"
  unfolding regions_apart_def by (metis in_region_cov subsetD)

lemma disjoint_vmas_update:
  assumes d: "disjoint_vmas vmas" and "i < length vmas"
    and "\<And>j. j < length vmas \<Longrightarrow> j \<noteq> i \<Longrightarrow> regions_apart v (vmas ! j)"
  shows "disjoint_vmas (vmas[i := v])"
  using assms regions_apart_sym by (auto simp: disjoint_vmas_def nth_list_update)

lemma disjoint_vmas_part:
  assumes "disjoint_vmas vmas" and "i < length vmas" and "j < length vmas" and "j \<noteq> i"
    and "region_cov w \<subseteq> region_cov (vmas ! i)"
  shows "regions_apart w (vmas ! j)"
  by (rule regions_apart_sub [of "vmas ! i"]) (use assms in \<open>simp_all add: disjoint_vmas_def\<close>)

lemma split_step_disjoint:
  assumes st: "split_step s e i vmas = Some vmas'" and i: "i < length vmas"
    and d: "disjoint_vmas vmas" and se: "s \<le> e"
  shows "disjoint_vmas vmas'"
  using st i
proof (cases rule: split_step_cases)
  case same
  with d show ?thesis by simp
next
  case (shrunk w)
  have "region_cov w \<subseteq> region_cov (vmas ! i)" using shrunk(2) by blast
  then show ?thesis unfolding shrunk(1)
    by (intro disjoint_vmas_update d i disjoint_vmas_part [OF d i])
next
  case (cut w n k)
  have sub: "region_cov w \<subseteq> region_cov (vmas ! i)" "region_cov n \<subseteq> region_cov (vmas ! i)"
    using cut(5) by blast+
  note part = disjoint_vmas_part [OF d i]
  have d': "disjoint_vmas (vmas[i := w])" by (intro disjoint_vmas_update d i part sub)
  have nw: "regions_apart n w" using cut(8) [OF se] by (simp add: regions_apart_sym)
  have "regions_apart n (vmas[i := w] ! j)" if "j < length (vmas[i := w])" for j
    using that part [OF _ _ sub(2), of j] nw by (cases "j = i") simp_all
  then show ?thesis unfolding cut(1) using cut(2) by (intro disjoint_vmas_update d') simp_all
qed

lemma split_from_spec:
  assumes "split_from s e is vmas = (Some (), vmas')" and "\<forall>i \<in> set is. i < length vmas"
  shows "cov vmas' \<inter> outside s e = cov vmas \<inter> outside s e \<and> length vmas' = length vmas \<and>
    (\<forall>j < length vmas. clean s e vmas j \<or> j \<in> set is \<longrightarrow> clean s e vmas' j) \<and>
    (s \<le> e \<longrightarrow> disjoint_vmas vmas \<longrightarrow> disjoint_vmas vmas')"
  using assms
proof (induction "is" arbitrary: vmas)
  case Nil
  then show ?case by simp
next
  case (Cons i "is")
  obtain vm where vm: "split_step s e i vmas = Some vm"
    using split_from_step(2) [of s e i vmas "is"] Cons.prems(1) by (cases "split_step s e i vmas") auto
  have i: "i < length vmas" using Cons.prems(2) by simp
  note step = split_step_cov [OF vm i] split_step_clean [OF vm i] split_step_disjoint [OF vm i]
  have "split_from s e is vm = (Some (), vmas')"
    using Cons.prems(1) by (simp only: split_from_step(1) [OF vm])
  from Cons.IH [OF this] Cons.prems(2) step(3) have
    ih: "cov vmas' \<inter> outside s e = cov vm \<inter> outside s e" "length vmas' = length vm"
    "\<forall>j < length vm. clean s e vm j \<or> j \<in> set is \<longrightarrow> clean s e vmas' j"
    "s \<le> e \<longrightarrow> disjoint_vmas vm \<longrightarrow> disjoint_vmas vmas'" by auto
  with step show ?case by auto
qed

lemma split_overlapping_spec:
  assumes "split_overlapping_vmas vmas s e = (Some (), vmas')"
  shows "cov vmas' = cov vmas - {s..<e} \<times> UNIV" and "length vmas' = length vmas"
    and "s \<le> e \<Longrightarrow> disjoint_vmas vmas \<Longrightarrow> disjoint_vmas vmas'"
proof -
  note spec = split_from_spec [OF assms [unfolded split_overlapping_vmas_def]]
  have c: "clean s e vmas' j" if "j < length vmas'" for j using spec that by simp
  have "(a, p) \<notin> {s..<e} \<times> UNIV" if "(a, p) \<in> cov vmas'" for a p
  proof -
    from that obtain j where "j < length vmas'" "region_has a (vmas' ! j)"
      by (auto simp: in_cov in_set_conv_nth)
    with c [of j] show ?thesis by (auto simp: clean_def region_meets_def region_has_def)
  qed
  then have "cov vmas' = cov vmas' \<inter> outside s e" by auto
  then show "cov vmas' = cov vmas - {s..<e} \<times> UNIV" using spec by auto
  show "length vmas' = length vmas" "s \<le> e \<Longrightarrow> disjoint_vmas vmas \<Longrightarrow> disjoint_vmas vmas'"
    using spec by auto
qed

lemma insert_vma_disjoint:
  assumes ins: "insert_vma vmas s e p = (Some (), vmas')" and d: "disjoint_vmas vmas"
    and gap: "cov vmas \<inter> {s..<e} \<times> UNIV = {}"
  shows "disjoint_vmas vmas'"
proof (cases "s < e")
  case True
  let ?n = "\<lparr>vr_start = s, vr_end = e, vr_prot = p, vr_active = True\<rparr>"
  from insert_vma_slot [OF ins True] obtain k where k: "k < length vmas" "vmas' = vmas[k := ?n]" by metis
  have "regions_apart ?n (vmas ! j)" if "j < length vmas" for j
  proof -
    have "(a, vr_prot (vmas ! j)) \<in> cov vmas" if "region_has a (vmas ! j)" for a
      using that \<open>j < length vmas\<close> by (auto simp: in_cov)
    with gap show ?thesis by (fastforce simp: regions_apart_def region_has_def)
  qed
  then show ?thesis unfolding k(2) by (intro disjoint_vmas_update d k(1))
next
  case False
  with ins d show ?thesis by (simp add: insert_vma_def)
qed

lemma add_vmas_fixed:
  assumes "add_vmas vmas s e p True = (Some (), vmas')"
  shows "cov vmas' = (cov vmas - {s..<e} \<times> UNIV) \<union> {s..<e} \<times> {p}"
    and "length vmas' = length vmas" and "s \<le> e \<Longrightarrow> disjoint_vmas vmas \<Longrightarrow> disjoint_vmas vmas'"
proof -
  from assms obtain vm where sp: "split_overlapping_vmas vmas s e = (Some (), vm)"
    and ins: "insert_vma vm s e p = (Some (), vmas')"
    by (auto simp: add_vmas_def split: option.splits prod.splits)
  note spec = split_overlapping_spec [OF sp]
  show "cov vmas' = (cov vmas - {s..<e} \<times> UNIV) \<union> {s..<e} \<times> {p}"
    using insert_vma_cov [OF ins] spec(1) by simp
  show "length vmas' = length vmas"
    using length_insert_vma [of vm s e p] ins spec(2) by simp
  show "s \<le> e \<Longrightarrow> disjoint_vmas vmas \<Longrightarrow> disjoint_vmas vmas'"
    using insert_vma_disjoint [OF ins] spec by blast
qed

text \<open>Among disjoint regions at most one strictly contains a nonempty range, so one free slot is enough.\<close>

definition strictly_contains :: "usize \<Rightarrow> usize \<Rightarrow> vma_region \<Rightarrow> bool" where
  "strictly_contains s e v \<longleftrightarrow> vr_active v \<and> vr_start v < s \<and> e < vr_end v"

lemma split_step_total:
  assumes i: "i < length vmas"
    and free: "(\<exists>v \<in> set vmas. \<not> vr_active v) \<or> \<not> strictly_contains s e (vmas ! i)"
  shows "\<exists>vm. split_step s e i vmas = Some vm"
proof (cases "strictly_contains s e (vmas ! i)")
  case True
  let ?w = "(vmas ! i)\<lparr>vr_end := s\<rparr>"
  from free True obtain k where k: "k < length vmas" "\<not> vr_active (vmas ! k)"
    by (auto simp: in_set_conv_nth)
  then have "k \<noteq> i" using True by (auto simp: strictly_contains_def)
  then have "vmas[i := ?w] ! k = vmas ! k" by simp
  then have "\<exists>v \<in> set (vmas[i := ?w]). \<not> vr_active v"
    using k by (metis length_list_update nth_mem)
  then show ?thesis by (simp add: split_step_def insert_vma_def Let_def)
qed (auto simp: split_step_def strictly_contains_def region_meets_def Let_def)

lemma split_step_contains:
  assumes st: "split_step s e i vmas = Some vm" and i: "i < length vmas" and j: "j < length vmas"
    and "strictly_contains s e (vm ! j)" and se: "s < e"
  shows "strictly_contains s e (vmas ! j) \<and> j \<noteq> i"
proof -
  from assms(4) se have "region_meets s e (vm ! j)" by (auto simp: strictly_contains_def region_meets_def)
  with split_step_clean(1) [OF st i] have "j \<noteq> i" by (auto simp: clean_def)
  from st i have "vm ! j = vmas ! j \<or> \<not> region_meets s e (vm ! j)"
    using \<open>j \<noteq> i\<close> j by (cases rule: split_step_cases) (auto simp: nth_list_update)
  with assms(4) \<open>region_meets s e (vm ! j)\<close> \<open>j \<noteq> i\<close> show ?thesis by auto
qed

lemma split_step_free:
  assumes "split_step s e i vmas = Some vm" and "i < length vmas" and "\<not> strictly_contains s e (vmas ! i)"
    and "\<exists>v \<in> set vmas. \<not> vr_active v"
  shows "\<exists>v \<in> set vm. \<not> vr_active v"
proof -
  from assms(4) obtain k where k: "k < length vmas" "\<not> vr_active (vmas ! k)"
    by (auto simp: in_set_conv_nth)
  have "vm = vmas \<or> (\<exists>w. vm = vmas[i := w] \<and> (vr_active w \<longrightarrow> vr_active (vmas ! i)))"
    using assms(1,3) by (auto simp: split_step_def Let_def strictly_contains_def region_meets_def split: if_splits)
  with k have "\<not> vr_active (vm ! k)" by (cases "k = i") auto
  with k(1) split_step_clean(2) [OF assms(1,2)] show ?thesis by (metis nth_mem)
qed

lemma split_from_total:
  assumes "\<forall>i \<in> set is. i < length vmas" and "distinct is" and "disjoint_vmas vmas" and "s < e"
    and "(\<exists>v \<in> set vmas. \<not> vr_active v) \<or> (\<forall>j \<in> set is. \<not> strictly_contains s e (vmas ! j))"
  shows "fst (split_from s e is vmas) = Some ()"
  using assms
proof (induction "is" arbitrary: vmas)
  case Nil
  then show ?case by simp
next
  case (Cons i "is")
  have i: "i < length vmas" using Cons.prems(1) by simp
  obtain vm where vm: "split_step s e i vmas = Some vm"
    using split_step_total [OF i, of s e] Cons.prems(5) by auto
  have d: "disjoint_vmas vm" using split_step_disjoint [OF vm i Cons.prems(3)] Cons.prems(4) by simp
  have len: "\<forall>j \<in> set is. j < length vm" using Cons.prems(1) split_step_clean(2) [OF vm i] by simp
  have kept: "strictly_contains s e (vmas ! j) \<and> j \<noteq> i" if "j \<in> set is" "strictly_contains s e (vm ! j)" for j
    using split_step_contains [OF vm i _ that(2) Cons.prems(4)] that(1) Cons.prems(1) by simp
  have "(\<exists>v \<in> set vm. \<not> vr_active v) \<or> (\<forall>j \<in> set is. \<not> strictly_contains s e (vm ! j))"
  proof (cases "strictly_contains s e (vmas ! i)")
    case True
    have "\<not> strictly_contains s e (vm ! j)" if "j \<in> set is" for j
    proof
      assume "strictly_contains s e (vm ! j)"
      with kept [OF that] True Cons.prems(4) have "j \<noteq> i" "region_has s (vmas ! i)" "region_has s (vmas ! j)"
        by (auto simp: strictly_contains_def region_has_def)
      moreover have "j < length vmas" using that Cons.prems(1) by simp
      ultimately have "regions_apart (vmas ! i) (vmas ! j)"
        using Cons.prems(3) i by (simp add: disjoint_vmas_def)
      with \<open>region_has s (vmas ! i)\<close> \<open>region_has s (vmas ! j)\<close> show False by (auto simp: regions_apart_def)
    qed
    then show ?thesis by blast
  next
    case False
    from Cons.prems(5) show ?thesis
    proof
      assume "\<exists>v \<in> set vmas. \<not> vr_active v"
      from split_step_free [OF vm i False this] show ?thesis ..
    next
      assume "\<forall>j \<in> set (i # is). \<not> strictly_contains s e (vmas ! j)"
      with kept show ?thesis by (meson list.set_intros(2))
    qed
  qed
  from Cons.IH [OF len _ d Cons.prems(4) this] Cons.prems(2) show ?case
    by (simp only: split_from_step(1) [OF vm] distinct.simps)
qed

section \<open>Queries\<close>

lemma query_vmas_cov:
  assumes "disjoint_vmas vmas"
  shows "query_vmas a vmas = Some p \<longleftrightarrow> (a, p) \<in> cov vmas"
proof
  assume "query_vmas a vmas = Some p"
  then show "(a, p) \<in> cov vmas" by (auto simp: query_vmas_def in_cov dest: find_SomeD)
next
  assume "(a, p) \<in> cov vmas"
  then obtain v where v: "v \<in> set vmas" "region_has a v" "vr_prot v = p" by (auto simp: in_cov)
  then obtain w where w: "find (region_has a) vmas = Some w" by (metis find_Some_iff_ex not_None_eq)
  from find_SomeD [OF w] v obtain i j where ij: "i < length vmas" "vmas ! i = v" "j < length vmas"
    "vmas ! j = w" "region_has a w" by (auto simp: in_set_conv_nth)
  have "i = j"
  proof (rule ccontr)
    assume "i \<noteq> j"
    with assms ij have "regions_apart v w" by (auto simp: disjoint_vmas_def)
    with ij(5) v(2) show False by (auto simp: regions_apart_def)
  qed
  with ij w v show "query_vmas a vmas = Some p" by (simp add: query_vmas_def)
qed

definition region_size :: "vma_region \<Rightarrow> usize" where
  "region_size v = wsub (vr_end v) (vr_start v)"

definition accessible_at :: "usize \<Rightarrow> vma_region \<Rightarrow> bool" where
  "accessible_at a v = (region_has a v \<and> vr_prot v \<noteq> 0)"

lemma check_loop_found:
  "p \<noteq> 0 \<Longrightarrow> \<exists>q. check_loop a vs (Some p) b = Some q \<and> q \<noteq> 0 \<and>
    ((q = p \<and> (\<forall>w \<in> set vs. accessible_at a w \<longrightarrow> b \<le> region_size w)) \<or>
     (\<exists>v \<in> set vs. accessible_at a v \<and> vr_prot v = q \<and> region_size v < b \<and>
        (\<forall>w \<in> set vs. accessible_at a w \<longrightarrow> region_size v \<le> region_size w)))"
proof (induction vs arbitrary: p b)
  case Nil
  then show ?case by simp
next
  case (Cons v vs)
  show ?case
  proof (cases "accessible_at a v \<and> region_size v < b")
    case True
    then have "check_loop a (v # vs) (Some p) b = check_loop a vs (Some (vr_prot v)) (region_size v)"
      using Cons.prems by (simp add: accessible_at_def region_size_def Let_def)
    with Cons.IH [of "vr_prot v" "region_size v"] True show ?thesis
      by (fastforce simp: accessible_at_def)
  next
    case False
    then have "check_loop a (v # vs) (Some p) b = check_loop a vs (Some p) b"
      using Cons.prems by (auto simp: accessible_at_def region_size_def Let_def)
    with Cons.IH [OF Cons.prems, of b] False show ?thesis by (fastforce simp: not_less)
  qed
qed

lemma check_loop_none:
  "if \<exists>v \<in> set vs. accessible_at a v
   then \<exists>v \<in> set vs. accessible_at a v \<and> check_loop a vs None b = Some (vr_prot v) \<and>
     (\<forall>w \<in> set vs. accessible_at a w \<longrightarrow> region_size v \<le> region_size w)
   else check_loop a vs None b = None"
proof (induction vs arbitrary: b)
  case Nil
  then show ?case by simp
next
  case (Cons v vs)
  show ?case
  proof (cases "accessible_at a v")
    case True
    then have "check_loop a (v # vs) None b = check_loop a vs (Some (vr_prot v)) (region_size v)"
      and "vr_prot v \<noteq> 0" by (simp_all add: accessible_at_def region_size_def Let_def)
    with check_loop_found [of "vr_prot v" a vs "region_size v"] True show ?thesis by fastforce
  next
    case False
    then have "check_loop a (v # vs) None b = check_loop a vs None b \<or>
        check_loop a (v # vs) None b = check_loop a vs None (region_size v)"
      by (auto simp: accessible_at_def region_size_def Let_def)
    then obtain b' where "check_loop a (v # vs) None b = check_loop a vs None b'" by blast
    with Cons.IH [of b'] False show ?thesis by (simp split: if_splits)
  qed
qed

section \<open>The search for a gap\<close>

definition mmap_candidate :: "vm_state \<Rightarrow> usize" where
  "mmap_candidate st = (if 0 < vs_next_mmap_addr st then vs_next_mmap_addr st else USER_MMAP_BASE)"

definition gap_at :: "vma_region list \<Rightarrow> usize \<Rightarrow> usize \<Rightarrow> bool" where
  "gap_at vmas len c \<longleftrightarrow> c + len \<le> USER_MMAP_LIMIT \<and> (\<forall>v \<in> set vmas. \<not> region_meets c (c + len) v)"

definition ends_in_range :: "vma_region list \<Rightarrow> bool" where
  "ends_in_range vmas \<longleftrightarrow> (\<forall>v \<in> set vmas. vr_active v \<longrightarrow> vr_end v + 4095 < 2 ^ 64)"

text \<open>One unfolding of the loop.\<close>

lemma reserve_loop_eq:
  "reserve_loop len st =
     (let c = mmap_candidate st; conflicts = filter (region_meets c (c + len)) (vs_vmas st)
      in if USER_MMAP_LIMIT < c + len then Some (None, st)
         else if conflicts \<noteq> [] then
           reserve_loop len (st\<lparr>vs_next_mmap_addr := page_align_up (Max (set (map vr_end conflicts)))\<rparr>)
         else Some (Some c, st\<lparr>vs_next_mmap_addr := c + len\<rparr>))"
proof -
  have pos: "0 < mmap_candidate st" by (simp add: mmap_candidate_def USER_MMAP_BASE_def)
  show ?thesis
  proof (cases "mmap_candidate st + len < 2 ^ 64")
    case True
    then show ?thesis using pos
      by (subst reserve_loop.simps) (simp add: checked_add_def mmap_candidate_def [symmetric] Let_def)
  next
    case False
    then have "USER_MMAP_LIMIT < mmap_candidate st + len" by (simp add: USER_MMAP_LIMIT_def)
    with False show ?thesis
      by (subst reserve_loop.simps) (simp add: checked_add_def mmap_candidate_def [symmetric] Let_def)
  qed
qed

lemma conflict_skip:
  assumes "ends_in_range vmas" and "v \<in> set vmas" and "region_meets c (c + len) v"
    and "c \<le> c'" and "c' < vr_end v"
  shows "\<not> gap_at vmas len c'"
proof -
  have "region_meets c' (c' + len) v" using assms by (simp add: region_meets_def)
  with assms(2) show ?thesis by (auto simp: gap_at_def)
qed

text \<open>
  The loop ends, keeps the regions, and is a first fit: its answer is the lowest page-aligned gap
  from the candidate on, and it fails only when there is none.
\<close>

definition first_gap :: "vma_region list \<Rightarrow> usize \<Rightarrow> usize \<Rightarrow> usize option \<Rightarrow> bool" where
  "first_gap vmas len c0 r \<longleftrightarrow>
     (case r of
        Some c \<Rightarrow> c0 \<le> c \<and> c mod 4096 = 0 \<and> gap_at vmas len c \<and>
          (\<forall>c'. c0 \<le> c' \<and> c' < c \<and> c' mod 4096 = 0 \<longrightarrow> \<not> gap_at vmas len c')
      | None \<Rightarrow> \<forall>c'. c0 \<le> c' \<and> c' mod 4096 = 0 \<longrightarrow> \<not> gap_at vmas len c')"

lemma first_gap_later:
  assumes "first_gap vmas len c1 r" and "c0 \<le> c1"
    and "\<And>c'. c0 \<le> c' \<Longrightarrow> c' < c1 \<Longrightarrow> c' mod 4096 = 0 \<Longrightarrow> \<not> gap_at vmas len c'"
  shows "first_gap vmas len c0 r"
proof (cases r)
  case None
  have "\<not> gap_at vmas len c'" if "c0 \<le> c'" "c' mod 4096 = 0" for c'
    using assms that None by (cases "c1 \<le> c'") (simp_all add: first_gap_def)
  with None show ?thesis by (simp add: first_gap_def)
next
  case (Some c)
  have "\<not> gap_at vmas len c'" if "c0 \<le> c'" "c' < c" "c' mod 4096 = 0" for c'
    using assms that Some by (cases "c1 \<le> c'") (simp_all add: first_gap_def)
  with Some assms(1,2) show ?thesis by (simp add: first_gap_def)
qed

lemma candidate_aligned: "vs_next_mmap_addr st mod 4096 = 0 \<Longrightarrow> mmap_candidate st mod 4096 = 0"
  by (simp add: mmap_candidate_def USER_MMAP_BASE_def)

lemma reserve_loop_first_gap:
  assumes "ends_in_range (vs_vmas st)" and "vs_next_mmap_addr st mod 4096 = 0" and "len mod 4096 = 0"
  shows "\<exists>r n. reserve_loop len st = Some (r, st\<lparr>vs_next_mmap_addr := n\<rparr>) \<and> n mod 4096 = 0 \<and>
    first_gap (vs_vmas st) len (mmap_candidate st) r \<and> (\<forall>c. r = Some c \<longrightarrow> n = c + len)"
  using assms(1,2)
proof (induction "2 ^ 64 - mmap_candidate st" arbitrary: st rule: less_induct)
  case less
  let ?c = "mmap_candidate st" and ?vs = "vs_vmas st"
  let ?conf = "filter (region_meets ?c (?c + len)) ?vs"
  have al: "?c mod 4096 = 0" using less.prems(2) by (rule candidate_aligned)
  consider (high) "USER_MMAP_LIMIT < ?c + len" | (clash) "?c + len \<le> USER_MMAP_LIMIT" "?conf \<noteq> []"
    | (gap) "?c + len \<le> USER_MMAP_LIMIT" "?conf = []" by linarith
  then show ?case
  proof cases
    case high
    then have "reserve_loop len st = Some (None, st\<lparr>vs_next_mmap_addr := vs_next_mmap_addr st\<rparr>)"
      by (subst reserve_loop_eq) (simp add: Let_def)
    moreover have "first_gap ?vs len ?c None" using high by (auto simp: first_gap_def gap_at_def)
    ultimately show ?thesis using less.prems(2)
      by (intro exI [of _ None] exI [of _ "vs_next_mmap_addr st"]) simp
  next
    case gap
    then have "reserve_loop len st = Some (Some ?c, st\<lparr>vs_next_mmap_addr := ?c + len\<rparr>)"
      by (subst reserve_loop_eq) (simp add: Let_def)
    moreover have "gap_at ?vs len ?c" using gap by (auto simp: gap_at_def filter_empty_conv)
    then have "first_gap ?vs len ?c (Some ?c)" using al by (auto simp: first_gap_def)
    moreover have "(?c + len) mod 4096 = 0" using al assms(3) by (simp add: mod_add_eq [symmetric])
    ultimately show ?thesis by (intro exI [of _ "Some ?c"] exI [of _ "?c + len"]) simp
  next
    case clash
    define m where "m = Max (set (map vr_end ?conf))"
    let ?st = "st\<lparr>vs_next_mmap_addr := page_align_up m\<rparr>"
    have "m \<in> set (map vr_end ?conf)" unfolding m_def using clash(2) by (intro Max_in) (auto simp: filter_empty_conv)
    then obtain v where v: "v \<in> set ?vs" "region_meets ?c (?c + len) v" "m = vr_end v" by auto
    have m64: "m + 4095 < 2 ^ 64" using v less.prems(1) by (auto simp: ends_in_range_def region_meets_def)
    have cm: "?c < m" using v by (simp add: region_meets_def)
    have pm: "m \<le> page_align_up m" using m64 by (rule page_align_up_ge)
    then have c1: "mmap_candidate ?st = page_align_up m" using cm by (simp add: mmap_candidate_def)
    have pal: "page_align_up m mod 4096 = 0" using m64 by (rule page_align_up_aligned)
    have le: "page_align_up m \<le> m + 4095" using m64 by (rule page_align_up_le)
    have "2 ^ 64 - mmap_candidate ?st < 2 ^ 64 - ?c"
      unfolding c1 using cm pm le m64 by linarith
    from less.hyps [OF this] less.prems pal obtain r n where
      ih: "reserve_loop len ?st = Some (r, st\<lparr>vs_next_mmap_addr := n\<rparr>)" "n mod 4096 = 0"
      "first_gap ?vs len (page_align_up m) r" "\<forall>c. r = Some c \<longrightarrow> n = c + len"
      by (auto simp: c1)
    have "first_gap ?vs len ?c r"
    proof (rule first_gap_later [OF ih(3)])
      show "?c \<le> page_align_up m" using cm pm by simp
      show "\<not> gap_at ?vs len c'" if "?c \<le> c'" "c' < page_align_up m" "c' mod 4096 = 0" for c'
      proof -
        have "c' < m" using page_align_up_least [OF m64 _ that(3)] that(2) by (meson leD leI)
        then show ?thesis using conflict_skip [OF less.prems(1) v(1,2) that(1)] v(3) by simp
      qed
    qed
    moreover have "reserve_loop len st = reserve_loop len ?st"
      using clash by (subst reserve_loop_eq) (simp add: Let_def m_def)
    ultimately show ?thesis using ih by auto
  qed
qed

section \<open>The registry of address spaces\<close>

interpretation vm_slots: keyed_table slot_is
  by unfold_locales (simp add: slot_is_def)

definition state_of :: "usize \<Rightarrow> vm_registry \<Rightarrow> vm_state option" where
  "state_of root reg = map_option vss_state (find (slot_is root) reg)"

lemma with_state_eq:
  "with_state root f reg =
     (map_option (\<lambda>st. fst (f st)) (state_of root reg),
      upd_first (slot_is root) (\<lambda>s. s\<lparr>vss_state := snd (f (vss_state s))\<rparr>) reg)"
  by (induction reg) (auto simp: state_of_def split: prod.splits)

lemma state_of_upd:
  "state_of r (upd_first (slot_is root) (\<lambda>s. s\<lparr>vss_state := g (vss_state s)\<rparr>) reg) =
     (if r = root then map_option g (state_of root reg) else state_of r reg)"
proof -
  have "slot_is k (s\<lparr>vss_state := g (vss_state s)\<rparr>) = slot_is k s" for k s by (simp add: slot_is_def)
  then show ?thesis
    by (simp add: state_of_def vm_slots.get_upd_kept option.map_comp comp_def)
qed

lemma state_of_with_state [table_simps]:
  "state_of r (snd (with_state root f reg)) =
     (if r = root then map_option (\<lambda>st. snd (f st)) (state_of root reg) else state_of r reg)"
  using state_of_upd [of r root "\<lambda>st. snd (f st)"] by (simp add: with_state_eq)

lemma on_vmas_simps [simp]:
  "fst (on_vmas f st) = fst (f (vs_vmas st))"
  "snd (on_vmas f st) = st\<lparr>vs_vmas := snd (f (vs_vmas st))\<rparr>"
  by (simp_all add: on_vmas_def split: prod.splits)

lemma vma_add_simps:
  "snd (vma_add root s e p fixed reg) =
     snd (with_state root (on_vmas (\<lambda>vmas. add_vmas vmas s e p fixed)) reg)"
  "fst (vma_add root s e p fixed reg) =
     Option.bind (state_of root reg) (\<lambda>st. fst (add_vmas (vs_vmas st) s e p fixed))"
  by (simp_all add: vma_add_def with_state_eq split: option.splits)

lemma copy_from_eq: "copy_from self other = other"
  by (simp add: copy_from_def)

lemma clone_scan_src:
  "(\<exists>slot \<in> set reg. slot_is root slot) \<Longrightarrow>
   \<exists>k < length reg. fst (clone_scan root i reg src dst) = Some (i + k) \<and> slot_is root (reg ! k)"
proof (induction reg arbitrary: i src dst)
  case Nil
  then show ?case by simp
next
  case (Cons a reg)
  show ?case
  proof (cases "\<exists>slot \<in> set reg. slot_is root slot")
    case True
    from Cons.IH [OF True, of "Suc i" "if slot_is root a then Some i else src"
        "if \<not> vss_active a \<and> dst = None then Some i else dst"]
    obtain k where "k < length reg"
      "fst (clone_scan root i (a # reg) src dst) = Some (Suc i + k)" "slot_is root (reg ! k)" by auto
    then show ?thesis by (intro exI [of _ "Suc k"]) simp
  next
    case False
    then have "fst (clone_scan root j reg x d) = x" for j x d
      by (induction reg arbitrary: j x d) auto
    with Cons.prems False show ?thesis by (intro exI [of _ 0]) simp
  qed
qed

lemma clone_scan_dst_kept: "snd (clone_scan root i reg src (Some d)) = Some d"
  by (induction reg arbitrary: i src) auto

lemma clone_scan_dst:
  "(\<exists>slot \<in> set reg. \<not> vss_active slot) \<Longrightarrow>
   \<exists>k < length reg. snd (clone_scan root i reg src None) = Some (i + k) \<and> \<not> vss_active (reg ! k)"
proof (induction reg arbitrary: i src)
  case Nil
  then show ?case by simp
next
  case (Cons a reg)
  show ?case
  proof (cases "vss_active a")
    case True
    with Cons.prems have "\<exists>slot \<in> set reg. \<not> vss_active slot" by auto
    from Cons.IH [OF this, of "Suc i" "if slot_is root a then Some i else src"] obtain k where
      "k < length reg" "snd (clone_scan root i (a # reg) src None) = Some (Suc i + k)"
      "\<not> vss_active (reg ! k)" using True by auto
    then show ?thesis by (intro exI [of _ "Suc k"]) simp
  next
    case False
    then show ?thesis by (intro exI [of _ 0]) (simp add: clone_scan_dst_kept)
  qed
qed

lemma slot_unique:
  assumes "vm_slots.one_per_key reg" and "k < length reg" and "slot_is root (reg ! k)"
  shows "state_of root reg = Some (vss_state (reg ! k))"
  using vm_slots.one_per_key_find [OF assms(1) nth_mem [OF assms(2)] assms(3)] by (simp add: state_of_def)

lemma slot_is_mem: "state_of root reg = Some st \<Longrightarrow> \<exists>slot \<in> set reg. slot_is root slot"
  by (auto simp: state_of_def dest: find_SomeD)

lemma clone_fresh:
  assumes one: "vm_slots.one_per_key reg" and src: "state_of src reg = Some st" and "src \<noteq> 0" and "dst \<noteq> 0"
    and new: "state_of dst reg = None" and free: "\<exists>slot \<in> set reg. \<not> vss_active slot"
  shows "\<exists>k reg'. clone_root_state src dst reg = (Some (), reg') \<and> k < length reg \<and>
    \<not> vss_active (reg ! k) \<and> reg' = reg[k := \<lparr>vss_root = dst, vss_active = True, vss_state = st\<rparr>]"
proof -
  from clone_scan_src [OF slot_is_mem [OF src], of 0 None None] clone_scan_dst [OF free, of src 0 None]
  obtain i k where scan: "clone_scan src 0 reg None None = (Some i, Some k)"
    and i: "i < length reg" "slot_is src (reg ! i)" and k: "k < length reg" "\<not> vss_active (reg ! k)"
    by (metis add_0 prod.collapse)
  have "i \<noteq> k" using i k by (auto simp: slot_is_def)
  moreover have "vss_state (reg ! i) = st" using slot_unique [OF one i] src by simp
  ultimately have "clone_root_state src dst reg =
    (Some (), reg[k := (reg ! k)\<lparr>vss_state := st, vss_root := dst, vss_active := True\<rparr>])"
    using assms(3,4) by (simp add: clone_root_state_def scan copy_from_eq Let_def)
  moreover have "(reg ! k)\<lparr>vss_state := st, vss_root := dst, vss_active := True\<rparr> =
    \<lparr>vss_root = dst, vss_active = True, vss_state = st\<rparr>" by simp
  ultimately show ?thesis using k by auto
qed

lemma filter_update_length:
  "i < length xs \<Longrightarrow> \<not> P (xs ! i) \<Longrightarrow>
   length (filter P (xs[i := x])) = length (filter P xs) + (if P x then 1 else 0)"
  by (induction xs arbitrary: i) (auto split: nat.splits)

lemma one_per_key_claim:
  assumes "vm_slots.one_per_key reg" and "k < length reg" and "\<not> vss_active (reg ! k)"
    and "state_of (vss_root x) reg = None"
  shows "vm_slots.one_per_key (reg[k := x])"
proof -
  have "length (filter (slot_is r) (reg[k := x])) \<le> 1" for r
  proof (cases "slot_is r x")
    case True
    then have "find (slot_is r) reg = None" using assms(4) by (simp add: state_of_def slot_is_def)
    then have "filter (slot_is r) reg = []" by (simp add: find_None_iff filter_empty_conv)
    then show ?thesis using assms(2,3) by (simp add: filter_update_length slot_is_def)
  next
    case False
    then show ?thesis using assms(1-3)
      by (simp add: filter_update_length slot_is_def [of _ "reg ! k"] vm_slots.one_per_key_def)
  qed
  then show ?thesis by (simp add: vm_slots.one_per_key_def)
qed

lemma vma_query_state: "vma_query root a reg = Option.bind (state_of root reg) (\<lambda>st. query_vmas a (vs_vmas st))"
  by (simp add: vma_query_def with_state_ref_def state_of_def split: option.splits)

lemma query_vmas_eqI:
  assumes "disjoint_vmas vmas" and "disjoint_vmas vmas'" and "\<And>p. (a, p) \<in> cov vmas' \<longleftrightarrow> (a, p) \<in> cov vmas"
  shows "query_vmas a vmas' = query_vmas a vmas"
  using query_vmas_cov [OF assms(1), of a] query_vmas_cov [OF assms(2), of a] assms(3)
  by (metis not_None_eq)

lemma query_vmas_none: "query_vmas a vmas = None \<longleftrightarrow> (\<forall>p. (a, p) \<notin> cov vmas)"
  by (auto simp: query_vmas_def in_cov find_None_iff)

lemma split_from_skip:
  "\<forall>i \<in> set is. clean s e vmas i \<Longrightarrow> split_from s e (is @ js) vmas = split_from s e js vmas"
  by (induction "is") (auto simp: clean_def region_meets_def Let_def)

lemma split_full:
  assumes d: "disjoint_vmas vmas" and full: "\<forall>v \<in> set vmas. vr_active v \<and> vr_start v < vr_end v" and k: "k < length vmas"
    and c: "strictly_contains s e (vmas ! k)" and se: "s < e"
  shows "split_overlapping_vmas vmas s e = (None, vmas[k := (vmas ! k)\<lparr>vr_end := s\<rparr>])"
proof -
  have others: "clean s e vmas i" if i: "i < k" for i
  proof (rule ccontr)
    assume "\<not> clean s e vmas i"
    then have "region_has (max s (vr_start (vmas ! i))) (vmas ! i)"
      "region_has (max s (vr_start (vmas ! i))) (vmas ! k)"
      using c se full i k by (auto simp: clean_def region_meets_def region_has_def strictly_contains_def)
    moreover have "regions_apart (vmas ! i) (vmas ! k)" using d k i by (simp add: disjoint_vmas_def)
    ultimately show False by (auto simp: regions_apart_def)
  qed
  have upt: "[0..<length vmas] = [0..<k] @ k # [Suc k..<length vmas]"
    using k by (metis append.assoc le0 less_imp_le upt_add_eq_append upt_conv_Cons le_add_diff_inverse add_0)
  have "\<not> (\<exists>v \<in> set (vmas[k := (vmas ! k)\<lparr>vr_end := s\<rparr>]). \<not> vr_active v)"
    using full k by (auto dest!: subsetD [OF set_update_subset_insert])
  then have "insert_vma (vmas[k := (vmas ! k)\<lparr>vr_end := s\<rparr>]) e (vr_end (vmas ! k)) (vr_prot (vmas ! k)) =
      (None, vmas[k := (vmas ! k)\<lparr>vr_end := s\<rparr>])"
    using c by (auto simp: insert_vma_def strictly_contains_def)
  then show ?thesis unfolding split_overlapping_vmas_def upt
    using others c se by (subst split_from_skip) (auto simp: strictly_contains_def Let_def)
qed

section \<open>Properties\<close>

text \<open>
  C5: \<open>vma_add\<close> with \<open>map_fixed\<close>, when it succeeds, is an update of the address space's protection
  map: the addresses of the range get exactly the new protection and every other address keeps
  what it had, however the old regions were cut. Disjoint regions stay disjoint, and then
  \<open>vma_query\<close> answers precisely this.
\<close>

theorem vma_add_fixed_updates:
  assumes add: "vma_add root s e p True reg = (Some (), reg')"
  shows "\<exists>st st'. state_of root reg = Some st \<and> state_of root reg' = Some st' \<and>
    cov (vs_vmas st') = (cov (vs_vmas st) - {s..<e} \<times> UNIV) \<union> {s..<e} \<times> {p} \<and>
    (s \<le> e \<and> disjoint_vmas (vs_vmas st) \<longrightarrow> disjoint_vmas (vs_vmas st') \<and>
      (\<forall>a. vma_query root a reg' = (if s \<le> a \<and> a < e then Some p else vma_query root a reg)))"
proof -
  have f: "fst (vma_add root s e p True reg) = Some ()" and sn: "snd (vma_add root s e p True reg) = reg'"
    using add by simp_all
  from f [unfolded vma_add_simps] obtain st where st: "state_of root reg = Some st"
    "fst (add_vmas (vs_vmas st) s e p True) = Some ()" by (auto simp: bind_eq_Some_conv)
  define vm where "vm = snd (add_vmas (vs_vmas st) s e p True)"
  have av: "add_vmas (vs_vmas st) s e p True = (Some (), vm)" using st(2) by (simp add: vm_def prod_eq_iff)
  have st': "state_of root reg' = Some (st\<lparr>vs_vmas := vm\<rparr>)"
    unfolding sn [symmetric] vma_add_simps(1) state_of_with_state by (simp add: st(1) vm_def)
  note spec = add_vmas_fixed [OF av]
  have q: "vma_query root a reg' = (if s \<le> a \<and> a < e then Some p else vma_query root a reg)"
    if "s \<le> e" "disjoint_vmas (vs_vmas st)" for a
  proof (cases "s \<le> a \<and> a < e")
    case True
    then have "(a, p) \<in> cov vm" by (simp add: spec(1))
    with query_vmas_cov [OF spec(3) [OF that]] True show ?thesis by (simp add: vma_query_state st')
  next
    case False
    then have "(a, q) \<in> cov vm \<longleftrightarrow> (a, q) \<in> cov (vs_vmas st)" for q by (auto simp: spec(1))
    with query_vmas_eqI [OF that(2) spec(3) [OF that]] have "query_vmas a vm = query_vmas a (vs_vmas st)" by simp
    with False show ?thesis by (auto simp: vma_query_state st(1) st')
  qed
  show ?thesis using st(1) st' spec q by auto
qed

text \<open>
  C26: \<open>vma_remove_range\<close> on disjoint regions with at least one free table entry removes exactly the
  range: its addresses have no region afterwards, and every other address answers as before.
\<close>

theorem vma_remove_range_exact:
  assumes st: "state_of root reg = Some st" and d: "disjoint_vmas (vs_vmas st)" and se: "s < e"
    and free: "\<exists>v \<in> set (vs_vmas st). \<not> vr_active v"
  shows "vma_query root a (vma_remove_range root s e reg) =
    (if s \<le> a \<and> a < e then None else vma_query root a reg)"
proof -
  define vm where "vm = snd (split_overlapping_vmas (vs_vmas st) s e)"
  have "fst (split_overlapping_vmas (vs_vmas st) s e) = Some ()"
    unfolding split_overlapping_vmas_def using d se free by (intro split_from_total) auto
  then have sp: "split_overlapping_vmas (vs_vmas st) s e = (Some (), vm)" by (simp add: vm_def prod_eq_iff)
  have st': "state_of root (vma_remove_range root s e reg) = Some (st\<lparr>vs_vmas := vm\<rparr>)"
    by (simp add: vma_remove_range_def state_of_with_state st vm_def)
  note spec = split_overlapping_spec [OF sp]
  show ?thesis
  proof (cases "s \<le> a \<and> a < e")
    case True
    then have "query_vmas a vm = None" unfolding query_vmas_none spec(1) by auto
    with True show ?thesis by (simp add: vma_query_state st')
  next
    case False
    then have "(a, q) \<in> cov vm \<longleftrightarrow> (a, q) \<in> cov (vs_vmas st)" for q by (auto simp: spec(1))
    with query_vmas_eqI [OF d spec(3)] se d have "query_vmas a vm = query_vmas a (vs_vmas st)" by simp
    with False show ?thesis by (auto simp: vma_query_state st st')
  qed
qed

text \<open>
  With a full table \<open>vma_remove_range\<close> loses mappings: when the range lies strictly inside a
  region, the insertion of the tail fragment fails, the failure is ignored, and every address of
  the tail, outside the range, has no region any more.
\<close>

theorem vma_remove_range_full_loses_tail:
  assumes st: "state_of root reg = Some st" and d: "disjoint_vmas (vs_vmas st)" and se: "s < e"
    and full: "\<forall>v \<in> set (vs_vmas st). vr_active v \<and> vr_start v < vr_end v"
    and k: "k < length (vs_vmas st)"
    and c: "strictly_contains s e (vs_vmas st ! k)" and a: "e \<le> a" "a < vr_end (vs_vmas st ! k)"
  shows "vma_query root a reg = Some (vr_prot (vs_vmas st ! k)) \<and>
    vma_query root a (vma_remove_range root s e reg) = None"
proof -
  let ?v = "vs_vmas st ! k"
  have has: "region_has a ?v" using c a se by (auto simp: region_has_def strictly_contains_def)
  then have "(a, vr_prot ?v) \<in> cov (vs_vmas st)" using k by (auto simp: in_cov)
  then have q: "vma_query root a reg = Some (vr_prot ?v)"
    using query_vmas_cov [OF d] by (simp add: vma_query_state st)
  let ?w = "?v\<lparr>vr_end := s\<rparr>"
  have "\<not> region_has a ((vs_vmas st)[k := ?w] ! i)" if i: "i < length (vs_vmas st)" for i
  proof (cases "i = k")
    case True
    then show ?thesis using k a se by (simp add: region_has_def)
  next
    case False
    then have "regions_apart (vs_vmas st ! i) ?v" using d i k by (simp add: disjoint_vmas_def)
    with has False show ?thesis by (auto simp: regions_apart_def)
  qed
  then have "query_vmas a ((vs_vmas st)[k := ?w]) = None"
    by (auto simp: query_vmas_none in_cov in_set_conv_nth)
  then show ?thesis
    using q by (simp add: vma_query_state vma_remove_range_def state_of_with_state st split_full [OF d full k c se])
qed

text \<open>
  C9: \<open>reserve_mmap_addr\<close> returns, whenever no active region ends within a page of the top of the
  address space, and it is a first fit: it answers the lowest page-aligned address, from the bump
  pointer on, at which the rounded length fits below the limit without meeting a region, it fails
  only when there is none, and it moves the bump pointer behind the answer without touching the
  regions.
\<close>

theorem reserve_mmap_first_fit:
  assumes st: "state_of root reg = Some st" and "ends_in_range (vs_vmas st)"
    and "vs_next_mmap_addr st mod 4096 = 0" and "len + 4095 < 2 ^ 64"
  shows "\<exists>r n reg'. reserve_mmap_addr root len reg = Some (r, reg') \<and>
    state_of root reg' = Some (st\<lparr>vs_next_mmap_addr := n\<rparr>) \<and> n mod 4096 = 0 \<and>
    first_gap (vs_vmas st) (page_align_up len) (mmap_candidate st) r \<and>
    (\<forall>c. r = Some c \<longrightarrow> n = c + page_align_up len)"
proof -
  from st obtain slot where slot: "find (slot_is root) reg = Some slot" "vss_state slot = st"
    by (auto simp: state_of_def)
  from reserve_loop_first_gap [OF assms(2,3) page_align_up_aligned [OF assms(4)]] obtain r n where
    rn: "reserve_loop (page_align_up len) st = Some (r, st\<lparr>vs_next_mmap_addr := n\<rparr>)" "n mod 4096 = 0"
    "first_gap (vs_vmas st) (page_align_up len) (mmap_candidate st) r"
    "\<forall>c. r = Some c \<longrightarrow> n = c + page_align_up len" by (elim exE conjE) (rule that)
  let ?reg = "upd_first (slot_is root) (\<lambda>s. s\<lparr>vss_state := st\<lparr>vs_next_mmap_addr := n\<rparr>\<rparr>) reg"
  have "reserve_mmap_addr root len reg = Some (r, ?reg)"
    by (simp add: reserve_mmap_addr_def slot rn(1))
  moreover have "state_of root ?reg = Some (st\<lparr>vs_next_mmap_addr := n\<rparr>)"
    using state_of_upd [of root root "\<lambda>_. st\<lparr>vs_next_mmap_addr := n\<rparr>" reg] st by simp
  ultimately show ?thesis using rn
    by (intro exI [of _ r] exI [of _ n] exI [of _ ?reg] conjI) simp_all
qed

text \<open>
  C28: Address spaces are isolated: no operation on one root, its creation and its release included,
  changes the regions or the bump pointer recorded for another root.
\<close>

theorem address_spaces_isolated:
  assumes "r \<noteq> root"
  shows "state_of r (snd (vma_add root s e p fixed reg)) = state_of r reg \<and>
    state_of r (vma_remove_range root s e reg) = state_of r reg \<and>
    state_of r (vma_update_prot root s e p reg) = state_of r reg \<and>
    state_of r (ensure_mmap_above root s reg) = state_of r reg \<and>
    state_of r (register_elf_vma root s e p reg) = state_of r reg \<and>
    state_of r (vma_clear_root root reg) = state_of r reg \<and>
    state_of r (snd (init_root root reg)) = state_of r reg \<and>
    state_of r (release_root root reg) = state_of r reg \<and>
    (\<forall>x reg'. reserve_mmap_addr root s reg = Some (x, reg') \<longrightarrow> state_of r reg' = state_of r reg)"
proof (intro conjI allI impI)
  show "state_of r (snd (vma_add root s e p fixed reg)) = state_of r reg"
    "state_of r (vma_remove_range root s e reg) = state_of r reg"
    "state_of r (vma_update_prot root s e p reg) = state_of r reg"
    "state_of r (ensure_mmap_above root s reg) = state_of r reg"
    "state_of r (register_elf_vma root s e p reg) = state_of r reg"
    "state_of r (vma_clear_root root reg) = state_of r reg"
    using assms by (simp_all add: vma_add_simps vma_remove_range_def vma_update_prot_def
        ensure_mmap_above_def register_elf_vma_def vma_clear_root_def state_of_with_state Let_def)
  have "state_of r (upd_first (\<lambda>s. \<not> vss_active s)
      (\<lambda>s. s\<lparr>vss_root := root, vss_active := True, vss_state := vm_clear (vss_state s)\<rparr>) reg) = state_of r reg"
    unfolding state_of_def using assms by (subst find_upd_first_other) (auto simp: slot_is_def)
  then show "state_of r (snd (init_root root reg)) = state_of r reg"
    using assms by (simp add: init_root_def state_of_upd)
next
  show "state_of r (release_root root reg) = state_of r reg"
    unfolding state_of_def release_root_def using assms
    by (cases "root = 0") (simp_all add: vm_slots.get_upd_other slot_is_def [of r])
next
  fix x reg'
  assume "reserve_mmap_addr root s reg = Some (x, reg')"
  then obtain st where "reg' = reg \<or> reg' = upd_first (slot_is root) (\<lambda>s. s\<lparr>vss_state := st\<rparr>) reg"
    by (auto simp: reserve_mmap_addr_def bind_eq_Some_conv split: option.splits)
  then show "state_of r reg' = state_of r reg"
    using assms state_of_upd [of r root "\<lambda>_. st" reg] by auto
qed

text \<open>
  C27: \<open>clone_root_state\<close>, as \<open>fork\<close> uses it with a fresh page table root: if the parent is registered,
  the child's root is not and a slot is free, it succeeds, the child starts with the parent's
  regions and bump pointer, every other address space is unchanged, and roots stay unique, so
  the child's later changes do not reach the parent.
\<close>

theorem fork_copies_address_space:
  assumes one: "vm_slots.one_per_key reg" and src: "state_of parent reg = Some st"
    and "parent \<noteq> 0" and "child \<noteq> 0" and new: "state_of child reg = None"
    and free: "\<exists>slot \<in> set reg. \<not> vss_active slot"
  shows "\<exists>reg'. clone_root_state parent child reg = (Some (), reg') \<and> state_of child reg' = Some st \<and>
    (\<forall>r. r \<noteq> child \<longrightarrow> state_of r reg' = state_of r reg) \<and> vm_slots.one_per_key reg' \<and>
    state_of parent (snd (vma_add child s e p fixed reg')) = Some st"
proof -
  let ?slot = "\<lparr>vss_root = child, vss_active = True, vss_state = st\<rparr>"
  from clone_fresh [OF assms] obtain k where cl: "clone_root_state parent child reg = (Some (), reg[k := ?slot])"
    and k: "k < length reg" "\<not> vss_active (reg ! k)" by blast
  have child: "state_of child (reg[k := ?slot]) = Some st"
    using new k(1) by (simp add: state_of_def find_update_new slot_is_def)
  have others: "state_of r (reg[k := ?slot]) = state_of r reg" if "r \<noteq> child" for r
    using that k(2) by (simp add: state_of_def find_update_other slot_is_def)
  have "vm_slots.one_per_key (reg[k := ?slot])"
    using one k new by (intro one_per_key_claim) simp_all
  moreover have "parent \<noteq> child" using src new by auto
  ultimately show ?thesis using cl child others src
    by (auto simp: vma_add_simps state_of_with_state)
qed

text \<open>
  C29: \<open>vma_check\<close>, the page fault handler's question, answers the protection of the smallest
  accessible region containing the address, also when regions overlap, and \<open>None\<close> exactly when
  no accessible region contains it: a \<open>PROT_NONE\<close> region never hides an accessible one.
\<close>

theorem vma_check_smallest_accessible:
  assumes "state_of root reg = Some st"
  shows "if \<exists>v \<in> set (vs_vmas st). accessible_at a v
    then \<exists>v \<in> set (vs_vmas st). accessible_at a v \<and> vma_check root a reg = Some (vr_prot v) \<and>
      (\<forall>w \<in> set (vs_vmas st). accessible_at a w \<longrightarrow> region_size v \<le> region_size w)
    else vma_check root a reg = None"
proof -
  have "vma_check root a reg = check_loop a (vs_vmas st) None USIZE_MAX"
    using assms by (auto simp: vma_check_def with_state_ref_def state_of_def)
  then show ?thesis using check_loop_none [of "vs_vmas st" a USIZE_MAX] by (simp only:)
qed

text \<open>
  \<open>vma_update_prot\<close> works on whole regions: on disjoint regions an address gets the new
  protection exactly when its region meets the range, so addresses outside the range whose
  region reaches into it change too, and all others keep their protection.
\<close>

theorem vma_update_prot_whole_regions:
  assumes st: "state_of root reg = Some st" and d: "disjoint_vmas (vs_vmas st)"
  shows "vma_query root a (vma_update_prot root s e p reg) =
    (if \<exists>v \<in> set (vs_vmas st). region_has a v \<and> region_meets s e v then Some p else vma_query root a reg)"
proof -
  let ?f = "\<lambda>v. if region_meets s e v then v\<lparr>vr_prot := p\<rparr> else v"
  have has: "region_has x (?f v) = region_has x v" for x v by (simp add: region_has_def)
  have q: "vma_query root a (vma_update_prot root s e p reg) = query_vmas a (map ?f (vs_vmas st))"
    by (simp add: vma_query_state vma_update_prot_def state_of_with_state st update_prot_vmas_def)
  have fm: "find (region_has a) (map ?f vmas) = map_option ?f (find (region_has a) vmas)" for vmas
    by (induction vmas) (simp_all add: has)
  show ?thesis
  proof (cases "find (region_has a) (vs_vmas st)")
    case None
    then have "\<not> (\<exists>v \<in> set (vs_vmas st). region_has a v)" by (auto simp: find_None_iff)
    then show ?thesis unfolding q using fm None by (auto simp: vma_query_state st query_vmas_def)
  next
    case (Some w)
    have "v = w" if "v \<in> set (vs_vmas st)" "region_has a v" for v
    proof -
      from that find_SomeD [OF Some] obtain i j where "i < length (vs_vmas st)" "vs_vmas st ! i = v"
        "j < length (vs_vmas st)" "vs_vmas st ! j = w" "region_has a w" by (auto simp: in_set_conv_nth)
      with d that(2) show ?thesis by (cases "i = j") (auto simp: disjoint_vmas_def regions_apart_def)
    qed
    with find_SomeD [OF Some]
    have "(\<exists>v \<in> set (vs_vmas st). region_has a v \<and> region_meets s e v) \<longleftrightarrow> region_meets s e w" by auto
    then show ?thesis unfolding q using fm Some by (simp add: vma_query_state st query_vmas_def)
  qed
qed

section \<open>Concrete address spaces\<close>

text \<open>Two address spaces: root 7 with one read-write region and one free entry, root 9 without free entry.\<close>

definition rw_region :: vma_region where
  "rw_region = \<lparr>vr_start = 0x20000000, vr_end = 0x20004000, vr_prot = 3, vr_active = True\<rparr>"

definition two_spaces :: vm_registry where
  "two_spaces =
     [\<lparr>vss_root = 7, vss_active = True,
       vss_state = \<lparr>vs_vmas = [rw_region, vma_empty], vs_next_mmap_addr = 0, vs_max_elf_vaddr = 0\<rparr>\<rparr>,
      \<lparr>vss_root = 9, vss_active = True,
       vss_state = \<lparr>vs_vmas = [rw_region], vs_next_mmap_addr = 0, vs_max_elf_vaddr = 0\<rparr>\<rparr>,
      vm_state_slot_default]"

lemma two_spaces_7:
  "state_of 7 two_spaces = Some \<lparr>vs_vmas = [rw_region, vma_empty], vs_next_mmap_addr = 0, vs_max_elf_vaddr = 0\<rparr>"
  by (simp add: state_of_def two_spaces_def slot_is_def)

lemma two_spaces_9:
  "state_of 9 two_spaces = Some \<lparr>vs_vmas = [rw_region], vs_next_mmap_addr = 0, vs_max_elf_vaddr = 0\<rparr>"
  by (simp add: state_of_def two_spaces_def slot_is_def)

lemma two_spaces_disjoint: "disjoint_vmas [rw_region, vma_empty]" "disjoint_vmas [rw_region]"
  by (auto simp: disjoint_vmas_def regions_apart_def region_has_def vma_empty_def less_Suc_eq)

theorem vma_add_fixed_updates_witness:
  "\<exists>reg'. vma_add 7 0x20000000 0x20001000 1 True two_spaces = (Some (), reg') \<and>
     vma_query 7 0x20000800 reg' = Some 1 \<and> vma_query 7 0x20003000 reg' = Some 3"
proof -
  have "fst (vma_add 7 0x20000000 0x20001000 1 True two_spaces) = Some ()"
    by (simp add: vma_add_simps two_spaces_7 add_vmas_def split_overlapping_vmas_def insert_vma_def
        rw_region_def vma_empty_def Let_def)
  then obtain reg' where add: "vma_add 7 0x20000000 0x20001000 1 True two_spaces = (Some (), reg')"
    by (metis prod.collapse)
  from vma_add_fixed_updates [OF add] two_spaces_7 two_spaces_disjoint(1)
  have "vma_query 7 a reg' = (if 0x20000000 \<le> a \<and> a < 0x20001000 then Some 1 else vma_query 7 a two_spaces)" for a
    by auto
  with add show ?thesis
    by (simp add: vma_query_state two_spaces_7 query_vmas_def region_has_def rw_region_def)
qed

theorem vma_remove_range_exact_witness:
  "vma_query 7 0x20001800 (vma_remove_range 7 0x20001000 0x20002000 two_spaces) = None \<and>
   vma_query 7 0x20003000 (vma_remove_range 7 0x20001000 0x20002000 two_spaces) = Some 3"
proof -
  have "vma_query 7 a (vma_remove_range 7 0x20001000 0x20002000 two_spaces) =
    (if 0x20001000 \<le> a \<and> a < 0x20002000 then None else vma_query 7 a two_spaces)" for a
    by (rule vma_remove_range_exact [OF two_spaces_7])
      (simp_all add: two_spaces_disjoint, simp add: vma_empty_def)
  then show ?thesis by (simp add: vma_query_state two_spaces_7 query_vmas_def region_has_def rw_region_def)
qed

theorem vma_remove_range_full_loses_tail_witness:
  "vma_query 9 0x20003000 two_spaces = Some 3 \<and>
   vma_query 9 0x20003000 (vma_remove_range 9 0x20001000 0x20002000 two_spaces) = None"
  using vma_remove_range_full_loses_tail [OF two_spaces_9, of "0x20001000" "0x20002000" 0 "0x20003000"]
  by (simp add: two_spaces_disjoint strictly_contains_def) (simp add: rw_region_def)

theorem reserve_mmap_first_fit_witness:
  "\<exists>reg'. reserve_mmap_addr 7 0x1800 two_spaces = Some (Some 0x20004000, reg')"
proof -
  let ?vs = "[rw_region, vma_empty]"
  have "ends_in_range ?vs" by (simp add: ends_in_range_def rw_region_def vma_empty_def)
  moreover have pl: "page_align_up 0x1800 = 0x2000" by (simp add: page_align_up_eq)
  ultimately obtain r reg' where rr: "reserve_mmap_addr 7 0x1800 two_spaces = Some (r, reg')"
    "first_gap ?vs 0x2000 USER_MMAP_BASE r"
    using reserve_mmap_first_fit [OF two_spaces_7, of "0x1800"] by (auto simp: mmap_candidate_def)
  have g: "gap_at ?vs 0x2000 0x20004000"
    by (simp add: gap_at_def USER_MMAP_LIMIT_def region_meets_def rw_region_def vma_empty_def)
  with rr(2) obtain c where c: "r = Some c" "USER_MMAP_BASE \<le> c" "gap_at ?vs 0x2000 c"
    by (cases r) (auto simp: first_gap_def USER_MMAP_BASE_def)
  have "0x20004000 \<le> c"
    using c(2,3) by (auto simp: gap_at_def region_meets_def rw_region_def USER_MMAP_BASE_def)
  moreover have "\<not> 0x20004000 < c" using rr(2) g by (auto simp: first_gap_def c(1) USER_MMAP_BASE_def)
  ultimately show ?thesis using rr(1) c(1) by auto
qed

theorem address_spaces_isolated_witness:
  "state_of 9 (vma_remove_range 7 0x20000000 0x20004000 two_spaces) = state_of 9 two_spaces"
  using address_spaces_isolated [of 9 7] by simp

theorem fork_copies_address_space_witness:
  "\<exists>reg'. clone_root_state 7 11 two_spaces = (Some (), reg') \<and>
     vma_query 11 0x20000000 reg' = Some 3 \<and> vma_query 9 0x20000000 reg' = vma_query 9 0x20000000 two_spaces"
proof -
  have "vm_slots.one_per_key two_spaces"
    by (auto simp: vm_slots.one_per_key_def two_spaces_def slot_is_def vm_state_slot_default_def)
  moreover have "state_of 11 two_spaces = None" "\<exists>slot \<in> set two_spaces. \<not> vss_active slot"
    by (simp_all add: two_spaces_def state_of_def slot_is_def vm_state_slot_default_def)
  ultimately show ?thesis
    using fork_copies_address_space [OF _ two_spaces_7, of 11 0 0 0 True]
    by (auto simp: vma_query_state query_vmas_def region_has_def rw_region_def)
qed

theorem vma_check_smallest_accessible_witness:
  "vma_check 7 0x20001000 two_spaces = Some 3 \<and> vma_check 7 0x20004000 two_spaces = None"
  using vma_check_smallest_accessible [OF two_spaces_7, of "0x20001000"]
    vma_check_smallest_accessible [OF two_spaces_7, of "0x20004000"]
  by (simp add: accessible_at_def region_has_def rw_region_def vma_empty_def)

theorem vma_update_prot_whole_regions_witness:
  "vma_query 7 0x20003000 two_spaces = Some 3 \<and>
   vma_query 7 0x20003000 (vma_update_prot 7 0x20000000 0x20001000 0 two_spaces) = Some 0"
  using vma_update_prot_whole_regions [OF two_spaces_7, of "0x20003000" "0x20000000" "0x20001000" 0]
  by (simp add: two_spaces_disjoint vma_query_state two_spaces_7 query_vmas_def)
    (simp add: region_has_def region_meets_def rw_region_def)

end
