(* ===== verification/Ring.thy ===== *)
theory Ring
  imports Karte_Prelude
begin

text \<open>
  Ring buffers. The kernel has four of them (pipes, the kernel log, the token pipe and the terminal
  input), each with its own way of telling a full ring from an empty one. This theory holds the
  lemmas on the window of an array that a ring occupies, and the contracts the rings are verified
  against: a bounded queue (\<open>fifo\<close>), one that refuses an element when full (\<open>refusing_fifo\<close>), one
  that drops the oldest (\<open>overwriting_fifo\<close>), and operations that pass a stream of elements on
  without loss (\<open>stream\<close>).
\<close>

named_theorems ring_simps "windows of a ring after an update of the array"

section \<open>The window of a ring\<close>

text \<open>The \<open>n\<close> elements from position \<open>pos\<close> on, around the end of the array.\<close>

definition ring_window :: "'a list \<Rightarrow> nat \<Rightarrow> nat \<Rightarrow> 'a list" where
  "ring_window buf pos n = map (\<lambda>i. buf ! ((pos + i) mod length buf)) [0..<n]"

lemma length_ring_window [simp]: "length (ring_window buf pos n) = n"
  by (simp add: ring_window_def)

lemma ring_window_0 [simp]: "ring_window buf pos 0 = []"
  by (simp add: ring_window_def)

lemma ring_window_nth [simp]:
  "i < n \<Longrightarrow> ring_window buf pos n ! i = buf ! ((pos + i) mod length buf)"
  by (simp add: ring_window_def)

lemma ring_window_Suc:
  "ring_window buf pos (Suc n) = buf ! (pos mod length buf) # ring_window buf (Suc pos mod length buf) n"
proof (rule nth_equalityI)
  fix i assume "i < length (ring_window buf pos (Suc n))"
  then show "ring_window buf pos (Suc n) ! i =
    (buf ! (pos mod length buf) # ring_window buf (Suc pos mod length buf) n) ! i"
    by (cases i) (simp_all add: mod_simps)
qed simp

lemma ring_window_snoc:
  "ring_window buf pos (Suc n) = ring_window buf pos n @ [buf ! ((pos + n) mod length buf)]"
  by (simp add: ring_window_def)

lemma ring_window_mod [simp]: "ring_window buf (pos mod length buf) n = ring_window buf pos n"
  by (simp add: ring_window_def mod_simps)

lemma take_ring_window: "take k (ring_window buf pos n) = ring_window buf pos (min k n)"
  by (simp add: ring_window_def take_map take_upt min_def)

lemma drop_ring_window:
  "drop k (ring_window buf pos n) = ring_window buf ((pos + k) mod length buf) (n - k)"
  by (rule nth_equalityI) (auto simp: ac_simps)

lemma ring_positions_differ:
  assumes "i < n" and "n < N"
  shows "(pos + i) mod N \<noteq> (pos + n) mod (N :: nat)"
proof
  assume "(pos + i) mod N = (pos + n) mod N"
  then have "N dvd (pos + n) - (pos + i)" using assms by (metis mod_eq_dvd_iff_nat add_le_cancel_left less_imp_le)
  then show False using assms by (auto dest: dvd_imp_le)
qed

text \<open>Writing just behind the window extends it; the window itself is untouched.\<close>

lemma ring_window_put_keep:
  assumes "n < length buf" and "m \<le> n"
  shows "ring_window (buf[(pos + n) mod length buf := b]) pos m = ring_window buf pos m"
proof (rule nth_equalityI)
  fix i assume "i < length (ring_window (buf[(pos + n) mod length buf := b]) pos m)"
  then have "i < m" by simp
  moreover from this assms have "(pos + i) mod length buf \<noteq> (pos + n) mod length buf"
    by (intro ring_positions_differ) auto
  ultimately show "ring_window (buf[(pos + n) mod length buf := b]) pos m ! i = ring_window buf pos m ! i"
    by simp
qed simp

lemma ring_window_put [ring_simps]:
  assumes "n < length buf"
  shows "ring_window (buf[(pos + n) mod length buf := b]) pos (Suc n) = ring_window buf pos n @ [b]"
proof -
  have "(pos + n) mod length buf < length buf" using assms by (intro mod_less_divisor) auto
  then show ?thesis
    using ring_window_put_keep [OF assms, of n pos b] by (simp add: ring_window_snoc)
qed

lemma ring_window_straight:
  assumes "pos + n \<le> length buf"
  shows "ring_window buf pos n = take n (drop pos buf)"
  using assms by (intro nth_equalityI) auto

text \<open>A window that passes the end of the array is a final and an initial segment of it.\<close>

lemma ring_window_folded:
  assumes "pos < length buf" and "length buf \<le> pos + n" and "n \<le> length buf"
  shows "ring_window buf pos n = drop pos buf @ take (pos + n - length buf) buf"
proof (rule nth_equalityI)
  show "length (ring_window buf pos n) = length (drop pos buf @ take (pos + n - length buf) buf)"
    using assms by simp
  fix i assume "i < length (ring_window buf pos n)"
  then have i: "i < n" by simp
  show "ring_window buf pos n ! i = (drop pos buf @ take (pos + n - length buf) buf) ! i"
  proof (cases "pos + i < length buf")
    case True
    then have "i < length buf - pos" by simp
    with True i assms show ?thesis by (simp add: nth_append)
  next
    case False
    then have "(pos + i) mod length buf = pos + i - length buf"
      using i assms by (simp add: mod_if)
    moreover from False have "\<not> i < length buf - pos" by simp
    ultimately show ?thesis using False i assms by (simp add: nth_append add.commute)
  qed
qed

text \<open>
  The number of occupied places of a ring that keeps one place free and stores its head and tail.
\<close>

definition occupied :: "nat \<Rightarrow> nat \<Rightarrow> nat \<Rightarrow> nat" where
  "occupied N head tail = (if tail \<le> head then head - tail else N - tail + head)"

lemma mod_wrap_once: "x < N + N \<Longrightarrow> x mod N = (if x < N then x else x - (N :: nat))"
  by (simp add: mod_if)

lemma occupied_less: "head < N \<Longrightarrow> tail < N \<Longrightarrow> occupied N head tail < N"
  by (auto simp: occupied_def)

lemma head_from_tail: "head < N \<Longrightarrow> tail < N \<Longrightarrow> (tail + occupied N head tail) mod N = head"
  by (simp add: occupied_def)

lemma occupied_at:
  assumes "tail < N" and "n < N"
  shows "occupied N ((tail + n) mod N) tail = n"
proof (cases "tail + n < N")
  case True
  then show ?thesis by (simp add: occupied_def)
next
  case False
  then have "(tail + n) mod N = tail + n - N" using assms by (simp add: mod_wrap_once)
  with False assms show ?thesis by (simp add: occupied_def)
qed

text \<open>A head is determined by the number of occupied places.\<close>

lemma occupied_eqI:
  assumes "head < N" and "tail < N" and "n < N" and "head = (tail + n) mod N"
  shows "occupied N head tail = n"
  using occupied_at [OF assms(2,3)] assms(4) by simp

lemma occupied_empty: "head < N \<Longrightarrow> tail < N \<Longrightarrow> (occupied N head tail = 0) = (head = tail)"
  by (auto simp: occupied_def)

lemma occupied_push:
  assumes "head < N" and "tail < N" and "Suc (occupied N head tail) < N"
  shows "occupied N ((head + 1) mod N) tail = Suc (occupied N head tail)"
proof -
  have "(head + 1) mod N = (tail + Suc (occupied N head tail)) mod N"
    using head_from_tail [OF assms(1,2)] by (metis Suc_eq_plus1 add_Suc_right mod_Suc_eq)
  then show ?thesis using occupied_at [OF assms(2,3)] by simp
qed

lemma occupied_full:
  assumes "head < N" and "tail < N"
  shows "((head + 1) mod N = tail) = (Suc (occupied N head tail) = N)"
proof (cases "Suc (occupied N head tail) = N")
  case True
  have "(head + 1) mod N = (tail + Suc (occupied N head tail)) mod N"
    using head_from_tail [OF assms] by (metis Suc_eq_plus1 add_Suc_right mod_Suc_eq)
  with True assms(2) show ?thesis by simp
next
  case False
  then have "Suc (occupied N head tail) < N" using occupied_less [OF assms] by simp
  from occupied_push [OF assms this] have "(head + 1) mod N \<noteq> tail" by (auto simp: occupied_def)
  with False show ?thesis by simp
qed

lemma occupied_pop:
  assumes "head < N" and "tail < N" and "k \<le> occupied N head tail"
  shows "occupied N head ((tail + k) mod N) = occupied N head tail - k"
proof (rule occupied_eqI)
  let ?n = "occupied N head tail"
  show "(tail + k) mod N < N" using assms(1) by (intro mod_less_divisor) simp
  show "?n - k < N" using occupied_less [OF assms(1,2)] by simp
  have "((tail + k) mod N + (?n - k)) mod N = (tail + ?n) mod N"
    unfolding mod_add_left_eq using assms(3) by simp
  then show "head = ((tail + k) mod N + (?n - k)) mod N" using head_from_tail [OF assms(1,2)] by simp
qed (rule assms(1))
section \<open>Queue contracts\<close>

text \<open>The newest \<open>k\<close> elements.\<close>

definition newest :: "nat \<Rightarrow> 'a list \<Rightarrow> 'a list" where
  "newest k xs = drop (length xs - k) xs"

lemma newest_all: "length xs \<le> k \<Longrightarrow> newest k xs = xs"
  by (simp add: newest_def)

lemma newest_snoc:
  assumes "0 < k" and "length xs \<le> k"
  shows "newest k (xs @ [x]) = (if length xs < k then xs else tl xs) @ [x]"
  using assms by (auto simp: newest_def drop_Suc)

lemma newest_append_newest: "newest k (newest k xs @ ys) = newest k (xs @ ys)"
  by (cases "length xs \<le> k") (simp_all add: newest_def add.commute)

locale fifo =
  fixes ok :: "'s \<Rightarrow> bool" and contents :: "'s \<Rightarrow> 'e list" and cap :: nat
    and get :: "nat \<Rightarrow> 's \<Rightarrow> 'e list \<times> 's"
  assumes fits: "ok s \<Longrightarrow> length (contents s) \<le> cap"
    and get_ok: "ok s \<Longrightarrow> ok (snd (get n s))"
    and get_out: "ok s \<Longrightarrow> fst (get n s) = take n (contents s)"
    and get_rest: "ok s \<Longrightarrow> contents (snd (get n s)) = drop n (contents s)"
begin

lemma get_twice:
  assumes "ok s"
  shows "fst (get m s) @ fst (get n (snd (get m s))) = fst (get (m + n) s)"
  using assms by (simp add: get_ok get_out get_rest take_add)

lemma get_drains:
  assumes "ok s" and "length (contents s) \<le> n"
  shows "fst (get n s) = contents s \<and> contents (snd (get n s)) = []"
  using assms by (simp add: get_out get_rest)

end

text \<open>
  Operations in any order: the state they lead to, and what one of their outputs adds up to along
  the way.
\<close>

fun run_ops :: "('op \<Rightarrow> 's \<Rightarrow> 's) \<Rightarrow> 'op list \<Rightarrow> 's \<Rightarrow> 's" where
  "run_ops step [] s = s"
| "run_ops step (x # ops) s = run_ops step ops (step x s)"

fun flow :: "('op \<Rightarrow> 's \<Rightarrow> 's) \<Rightarrow> ('op \<Rightarrow> 's \<Rightarrow> 'e list) \<Rightarrow> 'op list \<Rightarrow> 's \<Rightarrow> 'e list" where
  "flow step out [] s = []"
| "flow step out (x # ops) s = out x s @ flow step out ops (step x s)"

locale stream =
  fixes ok :: "'s \<Rightarrow> bool" and contents :: "'s \<Rightarrow> 'e list" and step :: "'op \<Rightarrow> 's \<Rightarrow> 's"
    and accepted :: "'op \<Rightarrow> 's \<Rightarrow> 'e list" and delivered :: "'op \<Rightarrow> 's \<Rightarrow> 'e list"
  assumes step_ok: "ok s \<Longrightarrow> ok (step x s)"
    and step_flow: "ok s \<Longrightarrow> contents s @ accepted x s = delivered x s @ contents (step x s)"
begin

text \<open>Everything accepted is delivered once, in order, or still inside.\<close>

lemma conserves:
  "ok s \<Longrightarrow> ok (run_ops step ops s) \<and>
    contents s @ flow step accepted ops s = flow step delivered ops s @ contents (run_ops step ops s)"
proof (induction ops arbitrary: s)
  case Nil
  then show ?case by simp
next
  case (Cons x ops)
  have "contents s @ flow step accepted (x # ops) s =
    (contents s @ accepted x s) @ flow step accepted ops (step x s)" by simp
  also have "\<dots> = delivered x s @ contents (step x s) @ flow step accepted ops (step x s)"
    using step_flow [OF Cons.prems, of x] by simp
  also have "\<dots> = flow step delivered (x # ops) s @ contents (run_ops step (x # ops) s)"
    using Cons.IH [OF step_ok [OF Cons.prems]] by simp
  finally show ?case using Cons.IH [OF step_ok [OF Cons.prems]] by simp
qed

end

locale refusing_fifo = fifo +
  fixes put :: "'a \<Rightarrow> 's \<Rightarrow> 's"
  assumes put_ok: "ok s \<Longrightarrow> ok (put e s)"
    and put_contents:
      "ok s \<Longrightarrow> contents (put e s) = (if length (contents s) < cap then contents s @ [e] else contents s)"
begin

lemma put_each_ok: "ok s \<Longrightarrow> ok (fold put es s)"
  by (induction es arbitrary: s) (simp_all add: put_ok)

lemma put_each:
  "ok s \<Longrightarrow> contents (fold put es s) = contents s @ take (cap - length (contents s)) es"
proof (induction es arbitrary: s)
  case (Cons e es)
  show ?case
  proof (cases "length (contents s) < cap")
    case True
    then have "cap - length (contents s) = Suc (cap - Suc (length (contents s)))" by simp
    with True Cons show ?thesis by (simp add: put_ok put_contents)
  qed (use Cons in \<open>simp add: put_ok put_contents\<close>)
qed simp

end

text \<open>What is stored of an element \<open>x\<close> is \<open>elem x\<close>, which may be less than \<open>x\<close>.\<close>

locale overwriting_fifo = fifo +
  fixes put :: "'x \<Rightarrow> 's \<Rightarrow> 's" and elem :: "'x \<Rightarrow> 'a"
  assumes cap_pos: "0 < cap"
    and put_ok: "ok s \<Longrightarrow> ok (put x s)"
    and put_contents:
      "ok s \<Longrightarrow> contents (put x s) = (if length (contents s) < cap then contents s else tl (contents s)) @ [elem x]"
begin

lemma put_newest: "ok s \<Longrightarrow> contents (put x s) = newest cap (contents s @ [elem x])"
  using fits [of s] by (simp add: put_contents newest_snoc cap_pos)

text \<open>After any number of writes, exactly the newest \<open>cap\<close> elements are left.\<close>

lemma put_each_newest:
  "ok s \<Longrightarrow> contents (fold put xs s) = newest cap (contents s @ map elem xs) \<and> ok (fold put xs s)"
proof (induction xs arbitrary: s)
  case Nil
  then show ?case using fits [of s] by (simp add: newest_all)
next
  case (Cons x xs)
  then show ?case by (simp add: put_ok put_newest newest_append_newest)
qed

end

end
