(* ===== verification/Ready_Queue.thy ===== *)
theory Ready_Queue
  imports Karte_Prelude "HOL-Library.Multiset"
begin

text \<open>
  Scheduling classes and the ready queue: \<open>kernel/src/sched/class.rs\<close> and
  \<open>kernel/src/sched/ready_queue.rs\<close>. The queue is a bitmap of non-empty levels over 32 FIFO lists
  with a starvation counter. The scheduler sees it through the locale \<open>task_queue\<close>, a bag of
  tokens with push, pop and remove; the priority order and the starvation boost are separate
  theorems about the concrete queue.
\<close>

section \<open>Scheduling classes\<close>

datatype sched_class = RtFifo u8 | RtRoundRobin u8 | Normal | AiBatch

definition RT_LEVELS :: u8 where "RT_LEVELS = 16"
definition NORMAL_PRIO :: u8 where "NORMAL_PRIO = 24"
definition AI_BATCH_PRIO :: u8 where "AI_BATCH_PRIO = 31"
definition AI_BATCH_BOOST_PRIO :: u8 where "AI_BATCH_BOOST_PRIO = NORMAL_PRIO"
definition AI_BATCH_STARVATION_TICKS :: u32 where "AI_BATCH_STARVATION_TICKS = 64"

fun class_code :: "sched_class \<Rightarrow> u8" where
  "class_code (RtFifo _) = 0"
| "class_code (RtRoundRobin _) = 1"
| "class_code Normal = 2"
| "class_code AiBatch = 3"

fun class_level :: "sched_class \<Rightarrow> u8" where
  "class_level (RtFifo n) = n"
| "class_level (RtRoundRobin n) = n"
| "class_level _ = 0"

definition from_code :: "u8 \<Rightarrow> u8 \<Rightarrow> sched_class option" where
  "from_code code level =
     (if code = 0 then Some (RtFifo level)
      else if code = 1 then Some (RtRoundRobin level)
      else if code = 2 then Some Normal
      else if code = 3 then Some AiBatch
      else None)"

definition clamp :: "u8 \<Rightarrow> u8 \<Rightarrow> u8 \<Rightarrow> u8" where
  "clamp n lo hi = (if n < lo then lo else if hi < n then hi else n)"

fun class_priority :: "sched_class \<Rightarrow> u8" where
  "class_priority (RtFifo n) = clamp n 1 RT_LEVELS - 1"
| "class_priority (RtRoundRobin n) = clamp n 1 RT_LEVELS - 1"
| "class_priority Normal = NORMAL_PRIO"
| "class_priority AiBatch = AI_BATCH_PRIO"

fun is_realtime :: "sched_class \<Rightarrow> bool" where
  "is_realtime (RtFifo _) = True"
| "is_realtime (RtRoundRobin _) = True"
| "is_realtime _ = False"

fun quantum :: "sched_class \<Rightarrow> usize" where
  "quantum (RtFifo _) = USIZE_MAX"
| "quantum (RtRoundRobin _) = 4"
| "quantum Normal = 2"
| "quantum AiBatch = 2"

section \<open>The ready queue\<close>

definition LEVELS :: usize where "LEVELS = 32"

type_synonym queue_token = usize

record ready_queue =
  rq_bitmap :: u32
  rq_queues :: "queue_token list list"
  rq_batch_starved :: u32

definition rq_new :: ready_queue where
  "rq_new = \<lparr>rq_bitmap = 0, rq_queues = replicate LEVELS [], rq_batch_starved = 0\<rparr>"

text \<open>\<open>self.bitmap |= 1 << lvl\<close> and \<open>self.bitmap &= !(1 << lvl)\<close>\<close>

definition set_level :: "u32 \<Rightarrow> usize \<Rightarrow> u32" where
  "set_level bm lvl = bm OR push_bit lvl 1"

definition clear_level :: "u32 \<Rightarrow> usize \<Rightarrow> u32" where
  "clear_level bm lvl = bm AND NOT (push_bit lvl 1)"

definition rq_push :: "ready_queue \<Rightarrow> queue_token \<Rightarrow> u8 \<Rightarrow> ready_queue" where
  "rq_push rq token prio =
     (let lvl = min (unat prio) (LEVELS - 1);
          q = rq_queues rq ! lvl
      in rq\<lparr>rq_queues := (if token \<in> set q then rq_queues rq else (rq_queues rq)[lvl := q @ [token]]),
            rq_bitmap := set_level (rq_bitmap rq) lvl\<rparr>)"

definition trailing_zeros :: "u32 \<Rightarrow> usize" where
  "trailing_zeros bm = (case find (bit bm) [0..<32] of Some i \<Rightarrow> i | None \<Rightarrow> 32)"

definition pick_from :: "ready_queue \<Rightarrow> usize \<Rightarrow> queue_token option \<times> ready_queue" where
  "pick_from rq lvl =
     (case rq_queues rq ! lvl of
        [] \<Rightarrow> (None, rq)
      | token # rest \<Rightarrow>
          (Some token,
           rq\<lparr>rq_queues := (rq_queues rq)[lvl := rest],
              rq_bitmap := (if rest = [] then clear_level (rq_bitmap rq) lvl else rq_bitmap rq)\<rparr>))"

text \<open>The promotion at the start of \<open>pop_next\<close>, with \<open>batch_lvl = 31\<close> and \<open>boosted_lvl = 24\<close>.\<close>

definition promote_starved :: "ready_queue \<Rightarrow> ready_queue" where
  "promote_starved rq =
     (let batch_lvl = unat AI_BATCH_PRIO; boosted_lvl = unat AI_BATCH_BOOST_PRIO in
      if AI_BATCH_STARVATION_TICKS \<le> rq_batch_starved rq then
        (case rq_queues rq ! batch_lvl of
           [] \<Rightarrow> rq
         | tok # rest \<Rightarrow>
             let qs = (rq_queues rq)[batch_lvl := rest];
                 bm = (if rest = [] then clear_level (rq_bitmap rq) batch_lvl else rq_bitmap rq)
             in rq\<lparr>rq_queues := qs[boosted_lvl := qs ! boosted_lvl @ [tok]],
                   rq_bitmap := set_level bm boosted_lvl,
                   rq_batch_starved := 0\<rparr>)
      else rq)"

definition pop_next :: "ready_queue \<Rightarrow> queue_token option \<times> ready_queue" where
  "pop_next rq0 =
     (let batch_lvl = unat AI_BATCH_PRIO; boosted_lvl = unat AI_BATCH_BOOST_PRIO;
          rq = promote_starved rq0
      in if rq_bitmap rq = 0 then (None, rq)
         else let lvl = trailing_zeros (rq_bitmap rq); (pick, rq') = pick_from rq lvl
              in if pick \<noteq> None then
                   (pick, rq'\<lparr>rq_batch_starved :=
                      (if lvl = batch_lvl \<or> lvl = boosted_lvl then 0
                       else if rq_queues rq' ! batch_lvl \<noteq> [] then rq_batch_starved rq' + 1
                       else 0)\<rparr>)
                 else (pick, rq'))"

definition rq_remove :: "ready_queue \<Rightarrow> queue_token \<Rightarrow> bool \<times> ready_queue" where
  "rq_remove rq token =
     (case find (\<lambda>lvl. token \<in> set (rq_queues rq ! lvl)) [0..<LEVELS] of
        None \<Rightarrow> (False, rq)
      | Some lvl \<Rightarrow>
          let q = remove1 token (rq_queues rq ! lvl)
          in (True, rq\<lparr>rq_queues := (rq_queues rq)[lvl := q],
                        rq_bitmap := (if q = [] then clear_level (rq_bitmap rq) lvl else rq_bitmap rq)\<rparr>))"

definition rq_is_empty :: "ready_queue \<Rightarrow> bool" where
  "rq_is_empty rq = (rq_bitmap rq = 0)"

definition rq_len :: "ready_queue \<Rightarrow> usize" where
  "rq_len rq = sum_list (map length (rq_queues rq))"

section \<open>The contract of a task queue\<close>

text \<open>A bag of tokens: what the scheduler relies on.\<close>

locale task_queue =
  fixes inv :: "'q \<Rightarrow> bool"
    and bag :: "'q \<Rightarrow> queue_token multiset"
    and push :: "'q \<Rightarrow> queue_token \<Rightarrow> u8 \<Rightarrow> 'q"
    and pop :: "'q \<Rightarrow> queue_token option \<times> 'q"
    and remove :: "'q \<Rightarrow> queue_token \<Rightarrow> bool \<times> 'q"
  assumes push_law: "inv q \<Longrightarrow> t \<notin># bag q \<Longrightarrow> inv (push q t p) \<and> bag (push q t p) = add_mset t (bag q)"
    and pop_law: "inv q \<Longrightarrow>
      (\<exists>t q'. pop q = (Some t, q') \<and> inv q' \<and> bag q = add_mset t (bag q')) \<or>
      (pop q = (None, q) \<and> bag q = {#})"
    and remove_law: "inv q \<Longrightarrow>
      inv (snd (remove q t)) \<and> bag (snd (remove q t)) = bag q - {#t#} \<and> (fst (remove q t) \<longleftrightarrow> t \<in># bag q)"
begin

lemma pop_Some:
  assumes "inv q" and "pop q = (Some t, q')"
  shows "inv q'" and "bag q = add_mset t (bag q')"
  using pop_law [OF assms(1)] assms(2) by auto

lemma pop_None:
  assumes "inv q" and "pop q = (None, q')"
  shows "q' = q" and "bag q = {#}"
  using pop_law [OF assms(1)] assms(2) by auto

lemma push_then_pop:
  assumes "inv q" and "t \<notin># bag q"
  shows "\<exists>u q'. pop (push q t p) = (Some u, q')"
  using push_law [OF assms, of p] pop_law [of "push q t p"] by auto

lemma remove_absent: "inv q \<Longrightarrow> t \<notin># bag q \<Longrightarrow> bag (snd (remove q t)) = bag q"
  using remove_law [of q t] by (simp add: diff_single_trivial)

end

section \<open>The bitmap queue as a bag\<close>

definition rq_inv :: "ready_queue \<Rightarrow> bool" where
  "rq_inv rq \<longleftrightarrow> length (rq_queues rq) = 32 \<and>
     (\<forall>l < 32. bit (rq_bitmap rq) l \<longleftrightarrow> rq_queues rq ! l \<noteq> []) \<and> rq_batch_starved rq \<le> 64"

definition rq_bag :: "ready_queue \<Rightarrow> queue_token multiset" where
  "rq_bag rq = mset (concat (rq_queues rq))"

lemma bit_set_level: "l < 32 \<Longrightarrow> bit (set_level bm l) n = (bit bm n \<or> n = l)"
  by (auto simp: set_level_def bit_simps)

lemma bit_clear_level: "bit (clear_level bm l) n = (bit bm n \<and> n \<noteq> l)"
  by (auto simp: clear_level_def bit_simps dest: bit_imp_le_length)

lemma bitmap_zero: "(bm :: u32) = 0 \<longleftrightarrow> (\<forall>l < 32. \<not> bit bm l)"
  by (auto simp: bit_eq_iff dest: bit_imp_le_length)

lemma levels_nat [simp]: "unat AI_BATCH_PRIO = 31" "unat AI_BATCH_BOOST_PRIO = 24" "unat NORMAL_PRIO = 24"
  "LEVELS = 32"
  by (simp_all add: AI_BATCH_PRIO_def AI_BATCH_BOOST_PRIO_def NORMAL_PRIO_def LEVELS_def)

lemma mset_concat_update:
  "l < length qs \<Longrightarrow> mset (concat (qs[l := q])) + mset (qs ! l) = mset (concat qs) + mset q"
proof (induction qs arbitrary: l)
  case (Cons a qs)
  then show ?case by (cases l) (simp_all add: ac_simps)
qed simp

lemma mset_concat_nth: "l < length qs \<Longrightarrow> mset (qs ! l) \<subseteq># mset (concat qs)"
  by (metis concat.simps(2) le_add1 mset_concat_update mset_append mset_subset_eq_add_left
      nth_list_update_eq union_commute mset.simps(1) add.right_neutral)

text \<open>Replacing one level: the bitmap must follow, and the bag changes by that level only.\<close>

lemma rq_replace:
  assumes inv: "rq_inv rq" and l: "l < 32" and st: "sv \<le> 64"
    and bm: "\<And>n. n < 32 \<Longrightarrow> bit bm n \<longleftrightarrow> (if n = l then q \<noteq> [] else bit (rq_bitmap rq) n)"
  shows "rq_inv (rq\<lparr>rq_queues := (rq_queues rq)[l := q], rq_bitmap := bm, rq_batch_starved := sv\<rparr>)"
    and "rq_bag (rq\<lparr>rq_queues := (rq_queues rq)[l := q], rq_bitmap := bm, rq_batch_starved := sv\<rparr>) +
      mset (rq_queues rq ! l) = rq_bag rq + mset q"
  using inv l st bm by (auto simp: rq_inv_def rq_bag_def nth_list_update mset_concat_update)

lemma rq_invD:
  assumes "rq_inv rq"
  shows "length (rq_queues rq) = 32" and "rq_batch_starved rq \<le> 64"
    and "l < 32 \<Longrightarrow> bit (rq_bitmap rq) l \<longleftrightarrow> rq_queues rq ! l \<noteq> []"
  using assms by (auto simp: rq_inv_def)

lemma rq_bag_ex:
  assumes "rq_inv rq"
  shows "t \<in># rq_bag rq \<longleftrightarrow> (\<exists>l < 32. t \<in> set (rq_queues rq ! l))"
proof -
  have "set (rq_queues rq) = (\<lambda>l. rq_queues rq ! l) ` {..<32}"
    using rq_invD(1) [OF assms] by (auto simp: in_set_conv_nth)
  then show ?thesis by (auto simp: rq_bag_def)
qed

lemma rq_bag_level: "rq_inv rq \<Longrightarrow> l < 32 \<Longrightarrow> t \<in> set (rq_queues rq ! l) \<Longrightarrow> t \<in># rq_bag rq"
  using rq_bag_ex by blast

lemma rq_push_bag:
  assumes inv: "rq_inv rq" and t: "t \<notin># rq_bag rq"
  shows "rq_inv (rq_push rq t p) \<and> rq_bag (rq_push rq t p) = add_mset t (rq_bag rq)"
proof -
  define l where "l = min (unat p) 31"
  have l: "l < 32" by (simp add: l_def)
  have nin: "t \<notin> set (rq_queues rq ! l)" using rq_bag_level [OF inv l] t by blast
  let ?rq = "rq\<lparr>rq_queues := (rq_queues rq)[l := rq_queues rq ! l @ [t]],
    rq_bitmap := set_level (rq_bitmap rq) l, rq_batch_starved := rq_batch_starved rq\<rparr>"
  have eq: "rq_push rq t p = ?rq" using nin by (simp add: rq_push_def l_def Let_def)
  have "rq_inv ?rq" by (rule rq_replace [OF inv l]) (auto simp: bit_set_level l rq_invD [OF inv])
  moreover have "rq_bag ?rq + mset (rq_queues rq ! l) = rq_bag rq + mset (rq_queues rq ! l @ [t])"
    by (rule rq_replace [OF inv l]) (auto simp: bit_set_level l rq_invD [OF inv])
  ultimately show ?thesis unfolding eq by simp
qed

lemma pick_from_bag:
  assumes inv: "rq_inv rq" and l: "l < 32" and q: "rq_queues rq ! l = t # rest" and sv: "sv \<le> 64"
  shows "\<exists>rq'. pick_from rq l = (Some t, rq') \<and> rq_inv (rq'\<lparr>rq_batch_starved := sv\<rparr>) \<and>
    rq_bag rq = add_mset t (rq_bag (rq'\<lparr>rq_batch_starved := sv\<rparr>)) \<and>
    rq_queues rq' = (rq_queues rq)[l := rest] \<and> rq_batch_starved rq' = rq_batch_starved rq"
proof -
  let ?bm = "if rest = [] then clear_level (rq_bitmap rq) l else rq_bitmap rq"
  let ?rq = "rq\<lparr>rq_queues := (rq_queues rq)[l := rest], rq_bitmap := ?bm, rq_batch_starved := sv\<rparr>"
  have bm: "bit ?bm n \<longleftrightarrow> (if n = l then rest \<noteq> [] else bit (rq_bitmap rq) n)" if "n < 32" for n
    using q l rq_invD(3) [OF inv l] by (auto simp: bit_clear_level)
  have "rq_inv ?rq" by (rule rq_replace(1) [OF inv l sv bm])
  moreover have "rq_bag ?rq + mset (rq_queues rq ! l) = rq_bag rq + mset rest"
    by (rule rq_replace(2) [OF inv l sv bm])
  ultimately show ?thesis by (simp add: pick_from_def q)
qed

lemma promote_starved_bag:
  assumes inv: "rq_inv rq"
  shows "rq_inv (promote_starved rq)" and "rq_bag (promote_starved rq) = rq_bag rq"
proof -
  have "rq_inv (promote_starved rq) \<and> rq_bag (promote_starved rq) = rq_bag rq"
  proof (cases "AI_BATCH_STARVATION_TICKS \<le> rq_batch_starved rq \<and> rq_queues rq ! 31 \<noteq> []")
    case True
    then obtain tok rest where q: "rq_queues rq ! 31 = tok # rest" by (cases "rq_queues rq ! 31") auto
    from pick_from_bag [OF inv _ q, of 0] obtain rq1 where
      r1: "rq_inv (rq1\<lparr>rq_batch_starved := 0\<rparr>)" (is "rq_inv ?r1")
        "rq_bag rq = add_mset tok (rq_bag (rq1\<lparr>rq_batch_starved := 0\<rparr>))"
        "pick_from rq 31 = (Some tok, rq1)" by auto
    let ?rq = "?r1\<lparr>rq_queues := (rq_queues ?r1)[24 := rq_queues ?r1 ! 24 @ [tok]],
      rq_bitmap := set_level (rq_bitmap ?r1) 24, rq_batch_starved := 0\<rparr>"
    have "rq_inv ?rq" by (rule rq_replace(1) [OF r1(1)]) (auto simp: bit_set_level)
    moreover have "rq_bag ?rq + mset (rq_queues ?r1 ! 24) = rq_bag ?r1 + mset (rq_queues ?r1 ! 24 @ [tok])"
      by (rule rq_replace(2) [OF r1(1)]) (auto simp: bit_set_level)
    then have "rq_bag ?rq = rq_bag rq" by (simp add: r1(2))
    moreover have "promote_starved rq = ?rq"
      using True r1(3) by (auto simp: promote_starved_def pick_from_def q Let_def)
    ultimately show ?thesis by simp
  next
    case False
    then have "promote_starved rq = rq" by (auto simp: promote_starved_def Let_def split: list.splits)
    with inv show ?thesis by simp
  qed
  then show "rq_inv (promote_starved rq)" "rq_bag (promote_starved rq) = rq_bag rq" by simp_all
qed

text \<open>The level that \<open>trailing_zeros\<close> finds: the first that is not empty.\<close>

lemma trailing_zeros_level:
  assumes "rq_inv rq" and "rq_bitmap rq \<noteq> 0"
  shows "trailing_zeros (rq_bitmap rq) < 32" and "rq_queues rq ! trailing_zeros (rq_bitmap rq) \<noteq> []"
    and "\<And>l. l < trailing_zeros (rq_bitmap rq) \<Longrightarrow> rq_queues rq ! l = []"
proof -
  from assms(2) obtain l where "l < 32" "bit (rq_bitmap rq) l" by (auto simp: bitmap_zero)
  then have "\<exists>l \<in> set [0..<32]. bit (rq_bitmap rq) l" by auto
  then have "find (bit (rq_bitmap rq)) [0..<32] \<noteq> None" by (simp only: find_Some_iff_ex)
  then obtain k where k: "find (bit (rq_bitmap rq)) [0..<32] = Some k" by auto
  then have tz: "trailing_zeros (rq_bitmap rq) = k" by (simp add: trailing_zeros_def)
  from k have "k < 32" "bit (rq_bitmap rq) k" "\<forall>j \<in> {0..<k}. \<not> bit (rq_bitmap rq) j"
    by (auto simp: find_upt_Some_iff)
  then show "trailing_zeros (rq_bitmap rq) < 32" "rq_queues rq ! trailing_zeros (rq_bitmap rq) \<noteq> []"
    "\<And>l. l < trailing_zeros (rq_bitmap rq) \<Longrightarrow> rq_queues rq ! l = []"
    using rq_invD(3) [OF assms(1)] by (auto simp: tz)
qed

lemma rq_empty_bag:
  assumes "rq_inv rq"
  shows "rq_bitmap rq = 0 \<longleftrightarrow> rq_bag rq = {#}"
proof -
  have "rq_bitmap rq = 0 \<longleftrightarrow> (\<forall>l < 32. rq_queues rq ! l = [])"
    using rq_invD(3) [OF assms] by (auto simp: bitmap_zero)
  also have "\<dots> \<longleftrightarrow> (\<forall>t. t \<notin># rq_bag rq)"
    unfolding rq_bag_ex [OF assms] by (metis empty_iff last_in_set list.set(1))
  finally show ?thesis by (simp add: multiset_eq_iff not_in_iff)
qed

lemma starved_cases: "sv \<le> (64 :: u32) \<Longrightarrow> \<not> 64 \<le> sv \<Longrightarrow> sv + 1 \<le> 64"
  by (metis inc_le not_le)

text \<open>\<open>pop_next\<close> after the promotion: the head of the first non-empty level.\<close>

lemma pop_next_cases:
  assumes inv: "rq_inv rq0"
  defines "rq \<equiv> promote_starved rq0"
  shows "(rq_bag rq0 = {#} \<and> pop_next rq0 = (None, rq0)) \<or>
    (\<exists>l t rest rq'. l < 32 \<and> rq_queues rq ! l = t # rest \<and> (\<forall>k < l. rq_queues rq ! k = []) \<and>
      pop_next rq0 = (Some t, rq') \<and> rq_inv rq' \<and> rq_bag rq0 = add_mset t (rq_bag rq') \<and>
      rq_queues rq' = (rq_queues rq)[l := rest] \<and>
      rq_batch_starved rq' = (if l \<noteq> 31 \<and> l \<noteq> 24 \<and> (rq_queues rq)[l := rest] ! 31 \<noteq> []
        then rq_batch_starved rq + 1 else 0))"
proof (cases "rq_bitmap rq = 0")
  case True
  have i: "rq_inv rq" and b: "rq_bag rq = rq_bag rq0"
    using promote_starved_bag [OF inv] by (simp_all add: rq_def)
  have e: "rq_bag rq0 = {#}" using rq_empty_bag [OF i] True b by simp
  then have "rq_queues rq0 ! 31 = []" using rq_bag_level [OF inv, of 31] by (cases "rq_queues rq0 ! 31") auto
  then have "rq = rq0" by (simp add: rq_def promote_starved_def Let_def)
  with True e show ?thesis by (simp add: pop_next_def rq_def [symmetric] Let_def)
next
  case False
  have i: "rq_inv rq" and b: "rq_bag rq = rq_bag rq0"
    using promote_starved_bag [OF inv] by (simp_all add: rq_def)
  define l where "l = trailing_zeros (rq_bitmap rq)"
  note tz = trailing_zeros_level [OF i False, folded l_def]
  then obtain t rest where q: "rq_queues rq ! l = t # rest" by (cases "rq_queues rq ! l") auto
  define sv where "sv = (if l \<noteq> 31 \<and> l \<noteq> 24 \<and> (rq_queues rq)[l := rest] ! 31 \<noteq> []
        then rq_batch_starved rq + 1 else 0)"
  have "sv \<le> 64"
  proof (cases "l \<noteq> 31 \<and> l \<noteq> 24 \<and> (rq_queues rq)[l := rest] ! 31 \<noteq> []")
    case True
    then have "rq_queues rq ! 31 \<noteq> []" by auto
    have "\<not> 64 \<le> rq_batch_starved rq"
    proof (cases "64 \<le> rq_batch_starved rq0 \<and> rq_queues rq0 ! 31 \<noteq> []")
      case True
      then show ?thesis
        by (cases "rq_queues rq0 ! 31")
          (auto simp: rq_def promote_starved_def AI_BATCH_STARVATION_TICKS_def Let_def)
    next
      case False
      then have "rq = rq0" by (auto simp: rq_def promote_starved_def AI_BATCH_STARVATION_TICKS_def
            Let_def split: list.splits)
      with False \<open>rq_queues rq ! 31 \<noteq> []\<close> show ?thesis by simp
    qed
    with starved_cases [OF rq_invD(2) [OF i]] show ?thesis by (simp add: sv_def True)
  qed (auto simp: sv_def)
  from pick_from_bag [OF i tz(1) q this] obtain rq' where
    p: "pick_from rq l = (Some t, rq')" "rq_inv (rq'\<lparr>rq_batch_starved := sv\<rparr>)"
      "rq_bag rq = add_mset t (rq_bag (rq'\<lparr>rq_batch_starved := sv\<rparr>))"
      "rq_queues rq' = (rq_queues rq)[l := rest]" "rq_batch_starved rq' = rq_batch_starved rq" by auto
  have "pop_next rq0 = (Some t, rq'\<lparr>rq_batch_starved := sv\<rparr>)"
    using False p by (simp add: pop_next_def rq_def [symmetric] l_def [symmetric] sv_def Let_def)
  with tz q p b show ?thesis
    by (intro disjI2 exI [of _ l] exI [of _ t] exI [of _ rest] exI [of _ "rq'\<lparr>rq_batch_starved := sv\<rparr>"])
      (simp add: sv_def)
qed

lemma rq_remove_bag:
  assumes inv: "rq_inv rq"
  shows "rq_inv (snd (rq_remove rq t)) \<and> rq_bag (snd (rq_remove rq t)) = rq_bag rq - {#t#} \<and>
    (fst (rq_remove rq t) \<longleftrightarrow> t \<in># rq_bag rq)"
proof (cases "find (\<lambda>lvl. t \<in> set (rq_queues rq ! lvl)) [0..<LEVELS]")
  case None
  then have "t \<notin># rq_bag rq" using rq_bag_ex [OF inv] by (auto simp: find_None_iff)
  with None inv show ?thesis by (simp add: rq_remove_def diff_single_trivial)
next
  case (Some l)
  then have l: "l < 32" and t: "t \<in> set (rq_queues rq ! l)" by (auto dest: find_SomeD)
  define q where "q = remove1 t (rq_queues rq ! l)"
  have mq: "mset (rq_queues rq ! l) = add_mset t (mset q)" using t by (simp add: q_def)
  let ?bm = "if q = [] then clear_level (rq_bitmap rq) l else rq_bitmap rq"
  let ?rq = "rq\<lparr>rq_queues := (rq_queues rq)[l := q], rq_bitmap := ?bm, rq_batch_starved := rq_batch_starved rq\<rparr>"
  have "rq_queues rq ! l \<noteq> []" using t by auto
  then have bm: "bit ?bm n \<longleftrightarrow> (if n = l then q \<noteq> [] else bit (rq_bitmap rq) n)" if "n < 32" for n
    using l rq_invD(3) [OF inv l] by (auto simp: bit_clear_level)
  have i: "rq_inv ?rq" by (rule rq_replace(1) [OF inv l rq_invD(2) [OF inv] bm])
  have "rq_bag ?rq + mset (rq_queues rq ! l) = rq_bag rq + mset q"
    by (rule rq_replace(2) [OF inv l rq_invD(2) [OF inv] bm])
  then have "add_mset t (rq_bag ?rq) + mset q = rq_bag rq + mset q"
    unfolding mq by (simp only: union_mset_add_mset_left union_mset_add_mset_right)
  then have "add_mset t (rq_bag ?rq) = rq_bag rq" by (simp only: add_right_cancel)
  then have bag: "rq_bag ?rq = rq_bag rq - {#t#}" by (metis add_mset_remove_trivial)
  have "rq_remove rq t = (True, ?rq)" by (simp add: rq_remove_def Some q_def Let_def del: levels_nat)
  with i bag rq_bag_level [OF inv l t] show ?thesis by (simp only: fst_conv snd_conv)
qed

interpretation rq_tasks: task_queue rq_inv rq_bag rq_push pop_next rq_remove
proof unfold_locales
  fix q t p
  assume inv: "rq_inv q"
  show "t \<notin># rq_bag q \<Longrightarrow> rq_inv (rq_push q t p) \<and> rq_bag (rq_push q t p) = add_mset t (rq_bag q)"
    by (rule rq_push_bag [OF inv])
  show "(\<exists>t q'. pop_next q = (Some t, q') \<and> rq_inv q' \<and> rq_bag q = add_mset t (rq_bag q')) \<or>
      (pop_next q = (None, q) \<and> rq_bag q = {#})"
    using pop_next_cases [OF inv] by auto
  show "rq_inv (snd (rq_remove q t)) \<and> rq_bag (snd (rq_remove q t)) = rq_bag q - {#t#} \<and>
    (fst (rq_remove q t) \<longleftrightarrow> t \<in># rq_bag q)" by (rule rq_remove_bag [OF inv])
qed

section \<open>Starvation under a steady Normal load\<close>

text \<open>Rounds in which the picked task is Normal and becomes ready again at once.\<close>

fun normal_rounds :: "nat \<Rightarrow> ready_queue \<Rightarrow> queue_token list \<times> ready_queue" where
  "normal_rounds 0 rq = ([], rq)"
| "normal_rounds (Suc n) rq =
     (case pop_next rq of
        (None, rq') \<Rightarrow> ([], rq')
      | (Some t, rq') \<Rightarrow>
          let (ts, rq'') = normal_rounds n (rq_push rq' t (class_priority Normal)) in (t # ts, rq''))"

lemma normal_round:
  assumes inv: "rq_inv rq" and sv: "rq_batch_starved rq = 0" and q: "rq_queues rq ! 24 = t # rest"
    and above: "\<forall>k < 24. rq_queues rq ! k = []"
  shows "\<exists>rq'. pop_next rq = (Some t, rq') \<and> rq_inv rq' \<and> rq_batch_starved rq' = 0 \<and>
    rq_queues rq' = (rq_queues rq)[24 := rest] \<and> rq_bag rq = add_mset t (rq_bag rq')"
proof -
  have p: "promote_starved rq = rq" by (simp add: promote_starved_def AI_BATCH_STARVATION_TICKS_def sv)
  have "rq_bag rq \<noteq> {#}" using rq_bag_level [OF inv, of 24 t] q by auto
  then obtain l t' rest' rq' where h: "l < 32" "rq_queues rq ! l = t' # rest'" "\<forall>k < l. rq_queues rq ! k = []"
    "pop_next rq = (Some t', rq')" "rq_inv rq'" "rq_bag rq = add_mset t' (rq_bag rq')"
    "rq_queues rq' = (rq_queues rq)[l := rest']"
    "rq_batch_starved rq' = (if l \<noteq> 31 \<and> l \<noteq> 24 \<and> (rq_queues rq)[l := rest'] ! 31 \<noteq> []
        then rq_batch_starved rq + 1 else 0)"
    using pop_next_cases [OF inv] unfolding p by auto
  have "l = 24"
  proof (rule linorder_cases [of l 24])
    assume "l < 24" then show ?thesis using above h(2) by auto
  next
    assume "24 < l" then show ?thesis using h(3) q by auto
  qed simp
  with h q show ?thesis by auto
qed

lemma normal_rounds_starve:
  assumes "rq_inv rq" and "rq_batch_starved rq = 0" and "rq_queues rq ! 24 \<noteq> []"
    and "\<forall>k < 24. rq_queues rq ! k = []" and "\<forall>t. count (rq_bag rq) t \<le> 1"
  shows "length (fst (normal_rounds n rq)) = n \<and> set (fst (normal_rounds n rq)) \<subseteq> set (rq_queues rq ! 24) \<and>
    rq_queues (snd (normal_rounds n rq)) ! 31 = rq_queues rq ! 31"
  using assms
proof (induction n arbitrary: rq)
  case 0
  then show ?case by simp
next
  case (Suc n)
  obtain t rest where q: "rq_queues rq ! 24 = t # rest" using Suc.prems(3) by (cases "rq_queues rq ! 24") auto
  from normal_round [OF Suc.prems(1,2) q Suc.prems(4)] obtain rq' where
    p: "pop_next rq = (Some t, rq')" "rq_inv rq'" "rq_batch_starved rq' = 0"
      "rq_queues rq' = (rq_queues rq)[24 := rest]" "rq_bag rq = add_mset t (rq_bag rq')" by auto
  have t: "t \<notin># rq_bag rq'" using Suc.prems(5) p(5) by (auto simp: not_in_iff dest: spec [of _ t])
  define rq1 where "rq1 = rq_push rq' t (class_priority Normal)"
  have len: "length (rq_queues rq) = 32" using rq_invD(1) [OF Suc.prems(1)] .
  have nin: "t \<notin> set rest" using rq_bag_level [OF p(2), of 24 t] t len by (auto simp: p(4))
  have q1: "rq_queues rq1 = (rq_queues rq)[24 := rest @ [t]]" and s1: "rq_batch_starved rq1 = 0"
    using nin len p(3) by (simp_all add: rq1_def rq_push_def p(4) Let_def)
  have i1: "rq_inv rq1" and b1: "rq_bag rq1 = rq_bag rq"
    using rq_push_bag [OF p(2) t, of "class_priority Normal"] p(5) by (simp_all add: rq1_def)
  have "length (fst (normal_rounds n rq1)) = n \<and>
    set (fst (normal_rounds n rq1)) \<subseteq> set (rq_queues rq1 ! 24) \<and>
    rq_queues (snd (normal_rounds n rq1)) ! 31 = rq_queues rq1 ! 31"
    using i1 s1 q1 len Suc.prems(4,5) b1 by (intro Suc.IH) auto
  moreover have "normal_rounds (Suc n) rq = (t # fst (normal_rounds n rq1), snd (normal_rounds n rq1))"
    by (simp add: p(1) rq1_def split: prod.splits)
  ultimately show ?case using q q1 len by auto
qed

lemma clamp_range: "1 \<le> clamp n 1 RT_LEVELS \<and> clamp n 1 RT_LEVELS \<le> 16"
  by (auto simp: clamp_def RT_LEVELS_def not_less word_le_nat_alt Suc_le_eq unat_gt_0)

lemma rt_priority: "unat (clamp n 1 RT_LEVELS - 1) < 16"
proof -
  have u: "1 \<le> unat (clamp n 1 RT_LEVELS)" "unat (clamp n 1 RT_LEVELS) \<le> 16"
    using clamp_range [of n] by (simp_all add: word_le_nat_alt)
  have "unat (clamp n 1 RT_LEVELS - 1) = unat (clamp n 1 RT_LEVELS) - 1"
    using u by (subst unat_sub) (simp_all add: word_le_nat_alt)
  with u show ?thesis by simp
qed

section \<open>Properties\<close>

text \<open>
  C6: \<open>pop_next\<close> picks the highest priority. It answers \<open>None\<close>, unchanged, exactly when no
  token is queued; otherwise it answers the oldest token of the lowest-numbered non-empty level,
  looking at the queue after the starvation promotion, and removes exactly that token. The
  promotion leaves the levels below 24 as they are, so no token there is ever overtaken.
\<close>

theorem pop_next_highest_priority:
  assumes inv: "rq_inv rq"
  shows "(rq_bag rq = {#} \<and> pop_next rq = (None, rq)) \<or>
    (\<exists>l t rest rq'. l < 32 \<and> rq_queues (promote_starved rq) ! l = t # rest \<and>
      (\<forall>k < l. rq_queues (promote_starved rq) ! k = []) \<and> pop_next rq = (Some t, rq') \<and> rq_inv rq' \<and>
      rq_bag rq = add_mset t (rq_bag rq') \<and> rq_queues rq' = (rq_queues (promote_starved rq))[l := rest] \<and>
      (\<forall>k < 24. rq_queues (promote_starved rq) ! k = rq_queues rq ! k))"
proof -
  have "\<forall>k < 24. rq_queues (promote_starved rq) ! k = rq_queues rq ! k"
    by (auto simp: promote_starved_def Let_def split: list.splits)
  with pop_next_cases [OF inv] show ?thesis by auto
qed

text \<open>
  A steady Normal load starves the batch class. With a Normal task ready in every round and no
  real-time task, any number of picks serves level-24 tasks only and leaves the batch queue as it
  was: a pick from level 24 resets the starvation counter, so the promotion never happens.
\<close>

theorem normal_load_starves_batch:
  assumes "rq_inv rq" and "rq_batch_starved rq = 0" and "rq_queues rq ! 24 \<noteq> []"
    and "\<forall>k < 24. rq_queues rq ! k = []" and "\<forall>t. count (rq_bag rq) t \<le> 1"
  shows "length (fst (normal_rounds n rq)) = n \<and>
    set (fst (normal_rounds n rq)) \<subseteq> set (rq_queues rq ! 24) \<and>
    rq_queues (snd (normal_rounds n rq)) ! 31 = rq_queues rq ! 31"
  using normal_rounds_starve [OF assms] .

text \<open>
  The scheduling classes: the wire code and level determine the class again, real-time classes
  take the levels 0 to 15 whatever level a caller passes, Normal and AiBatch come after them in
  this order, all within the 32 levels, and every class has a positive quantum.
\<close>

theorem sched_class_codes:
  "from_code (class_code c) (class_level c) = Some c \<and> unat (class_priority c) < LEVELS \<and>
   0 < quantum c \<and> (is_realtime c \<longleftrightarrow> unat (class_priority c) < 16) \<and>
   class_priority Normal < class_priority AiBatch"
proof -
  have "unat (clamp n 1 RT_LEVELS - 1) < 32" for n using rt_priority [of n] by simp
  then show ?thesis
    using rt_priority by (cases c) (simp_all add: from_code_def NORMAL_PRIO_def AI_BATCH_PRIO_def)
qed

text \<open>One Normal task and one batch task.\<close>

definition mixed_queue :: ready_queue where
  "mixed_queue = rq_push (rq_push rq_new 1 (class_priority Normal)) 2 (class_priority AiBatch)"

lemma rq_new_inv: "rq_inv rq_new" "rq_bag rq_new = {#}"
  by (simp_all add: rq_inv_def rq_new_def rq_bag_def)

lemma mixed_queue_inv: "rq_inv mixed_queue" "rq_bag mixed_queue = {#1, 2#}"
proof -
  have "rq_inv (rq_push rq_new 1 (class_priority Normal)) \<and> rq_bag (rq_push rq_new 1 (class_priority Normal)) = {#1#}"
    using rq_push_bag [OF rq_new_inv(1), of 1] rq_new_inv(2) by simp
  with rq_push_bag [of "rq_push rq_new 1 (class_priority Normal)" 2]
  show "rq_inv mixed_queue" "rq_bag mixed_queue = {#1, 2#}"
    by (auto simp: mixed_queue_def add_mset_commute)
qed

lemma mixed_queue_levels:
  "rq_queues mixed_queue = (replicate 32 [])[24 := [1], 31 := [2]]" "rq_batch_starved mixed_queue = 0"
  by (simp_all add: mixed_queue_def rq_push_def rq_new_def Let_def)

theorem pop_next_highest_priority_witness:
  "rq_inv mixed_queue \<and> fst (pop_next mixed_queue) = Some 1"
proof -
  have p: "promote_starved mixed_queue = mixed_queue"
    by (simp add: promote_starved_def AI_BATCH_STARVATION_TICKS_def mixed_queue_levels(2))
  from pop_next_highest_priority [OF mixed_queue_inv(1)] obtain l t rest where
    h: "l < 32" "rq_queues mixed_queue ! l = t # rest" "\<forall>k < l. rq_queues mixed_queue ! k = []"
    "fst (pop_next mixed_queue) = Some t" by (auto simp: p mixed_queue_inv(2))
  have "\<not> 24 < l" using h(3) by (auto simp: mixed_queue_levels)
  with h(1,2) have "t = 1"
    by (auto simp: mixed_queue_levels nth_list_update split: if_splits)
  with h(4) mixed_queue_inv(1) show ?thesis by simp
qed

theorem normal_load_starves_batch_witness:
  "rq_queues (snd (normal_rounds 1000 mixed_queue)) ! 31 = [2]"
proof -
  have "rq_queues (snd (normal_rounds 1000 mixed_queue)) ! 31 = rq_queues mixed_queue ! 31"
    using normal_load_starves_batch [OF mixed_queue_inv(1), of 1000]
    by (simp add: mixed_queue_levels mixed_queue_inv(2))
  then show ?thesis by (simp add: mixed_queue_levels)
qed

end
