(* ===== verification/Scheduler.thy ===== *)
theory Scheduler
  imports Ready_Queue
begin

text \<open>
  The task scheduler, \<open>kernel/src/sched/mod.rs\<close> and the task states of \<open>kernel/src/sched/task.rs\<close>,
  in the x86\_64 configuration. The statics of the module (\<open>SCHEDULER\<close>, \<open>PROC_TO_SLOT\<close>, \<open>SLEEPQ\<close>,
  \<open>CURRENT_RUNNING\<close>, \<open>LAST_SCHEDULED\<close>, \<open>PENDING_RSP0\<close>) and the registers its functions write are
  the fields of \<open>sched_world\<close>. Each function is a definition on that state; its critical sections
  are atomic, as the spin locks make them, and the outcome of a \<open>try_lock\<close> is an argument.

  \<open>__switch\<close> is assembly: the model follows the state up to the call and then what the resumed
  continuation does first, \<open>restore_task_arch_state\<close>. The stack frames that \<open>build_initial_stack\<close>
  and its variants write, and the waiting loops on the clock, are not modelled.

  The invariant \<open>sched_inv\<close> is proved for every step of the relation \<open>sched_step\<close> but a process
  that removes its own task; it relies on the ready queue through the contract \<open>task_queue\<close> only.
\<close>

section \<open>Data\<close>

datatype task_kind = Empty | Idle | User (proc_idx: usize)

datatype task_state = Ready | Running | Blocked | Exited

datatype sched_error = NoFreeSlot | InvalidTask

definition IDLE_SLOT :: usize where "IDLE_SLOT = 0"
definition NO_SLOT :: usize where "NO_SLOT = USIZE_MAX"

record task_node =
  tn_kind :: task_kind
  tn_state :: task_state
  tn_class :: sched_class
  tn_sp :: usize
  tn_initial_sp :: usize
  tn_quantum_left :: usize
  tn_kstack :: u64
  tn_fs_base :: u64

definition new_idle :: task_node where
  "new_idle = \<lparr>tn_kind = Idle, tn_state = Running, tn_class = Normal, tn_sp = 0, tn_initial_sp = 0,
     tn_quantum_left = USIZE_MAX, tn_kstack = 0, tn_fs_base = 0\<rparr>"

definition new_user :: "usize \<Rightarrow> sched_class \<Rightarrow> usize \<Rightarrow> task_node" where
  "new_user proc class initial_sp = \<lparr>tn_kind = User proc, tn_state = Ready, tn_class = class,
     tn_sp = initial_sp, tn_initial_sp = initial_sp, tn_quantum_left = quantum class,
     tn_kstack = 0, tn_fs_base = 0\<rparr>"

record scheduler =
  sc_nodes :: "task_node option list"
  sc_free :: "usize list"
  sc_ready :: ready_queue
  sc_current :: usize
  sc_high_water :: usize

text \<open>
  The statics, the process module's per-cpu cells that \<open>switch_to\<close> sets, the registers, and the
  process table's page table roots as a function.
\<close>

record sched_world =
  sw_sched :: scheduler
  sw_proc_to_slot :: "usize list"
  sw_sleepq :: "(usize \<times> nat) list"
  sw_current_running :: usize
  sw_last_scheduled :: usize
  sw_pending_rsp0 :: u64
  sw_pending_fs_base :: u64
  sw_fs_msr :: u64
  sw_kernel_rsp0 :: u64
  sw_current_index :: usize
  sw_current_root :: usize
  sw_proc_root :: "usize \<Rightarrow> usize"

definition is_user :: "task_node \<Rightarrow> bool" where
  "is_user n = (case tn_kind n of User _ \<Rightarrow> True | _ \<Rightarrow> False)"

definition node_ref :: "scheduler \<Rightarrow> usize \<Rightarrow> task_node option" where
  "node_ref s slot = (if slot < length (sc_nodes s) then sc_nodes s ! slot else None)"

text \<open>\<open>if let Some(n) = node_mut(&mut sched, slot) { f(n) }\<close>\<close>

definition node_upd :: "usize \<Rightarrow> (task_node \<Rightarrow> task_node) \<Rightarrow> scheduler \<Rightarrow> scheduler" where
  "node_upd slot f s =
     (case node_ref s slot of
        None \<Rightarrow> s
      | Some n \<Rightarrow> s\<lparr>sc_nodes := (sc_nodes s)[slot := Some (f n)]\<rparr>)"

definition proc_slot_get :: "sched_world \<Rightarrow> usize \<Rightarrow> usize" where
  "proc_slot_get w p = (if p < length (sw_proc_to_slot w) then sw_proc_to_slot w ! p else NO_SLOT)"

definition proc_slot_set :: "usize \<Rightarrow> usize \<Rightarrow> sched_world \<Rightarrow> sched_world" where
  "proc_slot_set p slot w =
     (let m = sw_proc_to_slot w;
          m' = (if length m \<le> p then m @ replicate (p + 1 - length m) NO_SLOT else m)
      in w\<lparr>sw_proc_to_slot := m'[p := slot]\<rparr>)"

section \<open>Operations\<close>

definition scheduler_new :: scheduler where
  "scheduler_new = \<lparr>sc_nodes = [], sc_free = [], sc_ready = rq_new, sc_current = IDLE_SLOT, sc_high_water = 1\<rparr>"

definition sched_init :: "sched_world \<Rightarrow> sched_world" where
  "sched_init w =
     w\<lparr>sw_sched := (sw_sched w)\<lparr>sc_nodes := sc_nodes (sw_sched w) @ [Some new_idle],
                                sc_current := IDLE_SLOT, sc_high_water := 1\<rparr>,
       sw_current_running := IDLE_SLOT\<rparr>"

definition current_user_proc :: "sched_world \<Rightarrow> usize option" where
  "current_user_proc w =
     Option.bind (node_ref (sw_sched w) (sc_current (sw_sched w)))
       (\<lambda>n. case tn_kind n of User p \<Rightarrow> Some p | _ \<Rightarrow> None)"

definition current_kernel_stack :: "sched_world \<Rightarrow> u64 option" where
  "current_kernel_stack w =
     (case node_ref (sw_sched w) (sw_current_running w) of
        Some n \<Rightarrow> if tn_kstack n \<noteq> 0 then Some (tn_kstack n) else None
      | None \<Rightarrow> None)"

definition find_next_ready_user :: "scheduler \<Rightarrow> usize option \<times> scheduler" where
  "find_next_ready_user s = (let (t, rq) = pop_next (sc_ready s) in (t, s\<lparr>sc_ready := rq\<rparr>))"

definition set_current_process_for_slot :: "usize \<Rightarrow> sched_world \<Rightarrow> sched_world" where
  "set_current_process_for_slot slot w =
     (case map_option tn_kind (node_ref (sw_sched w) slot) of
        Some (User p) \<Rightarrow> w\<lparr>sw_current_index := p, sw_current_root := sw_proc_root w p\<rparr>
      | _ \<Rightarrow> w\<lparr>sw_current_root := 0\<rparr>)"

definition save_fs_base :: "usize \<Rightarrow> sched_world \<Rightarrow> sched_world" where
  "save_fs_base slot w = w\<lparr>sw_sched := node_upd slot (\<lambda>n. n\<lparr>tn_fs_base := sw_fs_msr w\<rparr>) (sw_sched w)\<rparr>"

definition restore_task_arch_state :: "usize \<Rightarrow> sched_world \<Rightarrow> sched_world" where
  "restore_task_arch_state slot w =
     (case node_ref (sw_sched w) slot of
        None \<Rightarrow> w
      | Some n \<Rightarrow> (if tn_kstack n \<noteq> 0 then w\<lparr>sw_kernel_rsp0 := tn_kstack n\<rparr> else w)\<lparr>sw_fs_msr := tn_fs_base n\<rparr>)"

definition switch_to :: "usize \<Rightarrow> usize \<Rightarrow> sched_world \<Rightarrow> sched_world" where
  "switch_to cur nxt w =
     (let w1 = set_current_process_for_slot nxt ((save_fs_base cur w)\<lparr>sw_current_running := nxt\<rparr>);
          w2 = w1\<lparr>sw_pending_fs_base :=
                  (case node_ref (sw_sched w1) nxt of Some n \<Rightarrow> tn_fs_base n | None \<Rightarrow> 0)\<rparr>
      in if node_ref (sw_sched w2) cur = None \<or> node_ref (sw_sched w2) nxt = None then w2
         else restore_task_arch_state (sw_current_running w2) w2)"

text \<open>The common end of the scheduling functions: \<open>next\<close> becomes the running task.\<close>

definition run_next :: "usize \<Rightarrow> usize \<Rightarrow> scheduler \<Rightarrow> sched_world \<Rightarrow> sched_world" where
  "run_next cur nxt s w =
     w\<lparr>sw_sched := (node_upd nxt (\<lambda>n. n\<lparr>tn_state := Running\<rparr>) s)\<lparr>sc_current := nxt\<rparr>,
       sw_last_scheduled := nxt\<rparr>"

definition slice_left :: "scheduler \<Rightarrow> bool" where
  "slice_left s =
     (case node_ref s (sc_current s) of
        Some n \<Rightarrow> is_user n \<and> tn_state n = Running \<and> 0 < tn_quantum_left n
      | None \<Rightarrow> False)"

definition requeue_current :: "scheduler \<Rightarrow> scheduler" where
  "requeue_current s =
     (case node_ref s (sc_current s) of
        Some n \<Rightarrow>
          if is_user n \<and> tn_state n = Running
          then (node_upd (sc_current s) (\<lambda>n. n\<lparr>tn_state := Ready, tn_quantum_left := quantum (tn_class n)\<rparr>) s)
                 \<lparr>sc_ready := rq_push (sc_ready s) (sc_current s) (class_priority (tn_class n))\<rparr>
          else s
      | None \<Rightarrow> s)"

definition schedule :: "sched_world \<Rightarrow> sched_world" where
  "schedule w =
     (let s = sw_sched w; cur = sc_current s in
      if slice_left s
      then w\<lparr>sw_sched := node_upd cur (\<lambda>n. n\<lparr>tn_quantum_left := tn_quantum_left n - 1\<rparr>) s\<rparr>
      else let (pick, s') = find_next_ready_user (requeue_current s) in
        (case pick of
           Some nxt \<Rightarrow> switch_to cur nxt (run_next cur nxt s' w)
         | None \<Rightarrow>
             w\<lparr>sw_sched := node_upd cur (\<lambda>n. if tn_state n = Ready then n\<lparr>tn_state := Running\<rparr> else n) s',
               sw_last_scheduled := cur\<rparr>))"

definition schedule_block :: "sched_world \<Rightarrow> sched_world" where
  "schedule_block w =
     (let s = sw_sched w; cur = sc_current s in
      if (case node_ref s cur of Some n \<Rightarrow> is_user n | None \<Rightarrow> False)
      then let s1 = (node_upd cur (\<lambda>n. n\<lparr>tn_state := Blocked\<rparr>) s)\<lparr>sc_ready := snd (rq_remove (sc_ready s) cur)\<rparr>;
               (pick, s') = find_next_ready_user s1;
               nxt = (case pick of Some t \<Rightarrow> t | None \<Rightarrow> IDLE_SLOT)
           in switch_to cur nxt (run_next cur nxt s' w)
      else w)"

definition remove_sleep :: "usize \<Rightarrow> sched_world \<Rightarrow> sched_world" where
  "remove_sleep slot w = w\<lparr>sw_sleepq := filter (\<lambda>(s, _). s \<noteq> slot) (sw_sleepq w)\<rparr>"

text \<open>Mark a slot exited, take it out of the ready queue and recycle it.\<close>

definition retire_slot :: "usize \<Rightarrow> scheduler \<Rightarrow> scheduler" where
  "retire_slot slot s =
     (case node_ref s slot of
        None \<Rightarrow> s
      | Some _ \<Rightarrow>
          (node_upd slot (\<lambda>n. n\<lparr>tn_state := Exited, tn_kind := Empty\<rparr>) s)
            \<lparr>sc_ready := snd (rq_remove (sc_ready s) slot), sc_free := sc_free s @ [slot]\<rparr>)"

definition schedule_exit :: "sched_world \<Rightarrow> sched_world" where
  "schedule_exit w0 =
     (let w = remove_sleep (sw_current_running w0) w0;
          s = sw_sched w; cur = sc_current s;
          proc = Option.bind (node_ref s cur) (\<lambda>n. case tn_kind n of User p \<Rightarrow> Some p | _ \<Rightarrow> None);
          (pick, s') = find_next_ready_user (retire_slot cur s);
          nxt = (case pick of Some t \<Rightarrow> t | None \<Rightarrow> IDLE_SLOT);
          w1 = run_next cur nxt s' w;
          w2 = (case proc of Some p \<Rightarrow> proc_slot_set p NO_SLOT w1 | None \<Rightarrow> w1)
      in switch_to cur nxt w2)"

definition mark_current_exited :: "sched_world \<Rightarrow> sched_world" where
  "mark_current_exited w0 =
     (let w = remove_sleep (sw_current_running w0) w0
      in w\<lparr>sw_sched := node_upd (sc_current (sw_sched w)) (\<lambda>n. n\<lparr>tn_state := Exited\<rparr>) (sw_sched w)\<rparr>)"

definition mark_task_exited_by_proc :: "usize \<Rightarrow> sched_world \<Rightarrow> sched_world" where
  "mark_task_exited_by_proc p w =
     (let slot = proc_slot_get w p in
      if slot = NO_SLOT then w
      else let w1 = remove_sleep slot w
           in proc_slot_set p NO_SLOT (w1\<lparr>sw_sched := retire_slot slot (sw_sched w1)\<rparr>))"

text \<open>A blocked task becomes ready; the answer tells whether it was blocked.\<close>

definition ready_blocked :: "usize \<Rightarrow> scheduler \<Rightarrow> bool \<times> scheduler" where
  "ready_blocked slot s =
     (case node_ref s slot of
        Some n \<Rightarrow>
          if tn_state n = Blocked
          then (True, (node_upd slot (\<lambda>n. n\<lparr>tn_state := Ready\<rparr>) s)
                        \<lparr>sc_ready := rq_push (sc_ready s) slot (class_priority (tn_class n))\<rparr>)
          else (False, s)
      | None \<Rightarrow> (False, s))"

definition wake_task :: "usize \<Rightarrow> sched_world \<Rightarrow> bool \<times> sched_world" where
  "wake_task p w =
     (let slot = proc_slot_get w p in
      if slot = NO_SLOT then (False, w)
      else let w1 = remove_sleep slot w; (woken, s) = ready_blocked slot (sw_sched w1)
           in (woken, w1\<lparr>sw_sched := s\<rparr>))"

definition queue_sleep :: "usize \<Rightarrow> nat \<Rightarrow> sched_world \<Rightarrow> sched_world" where
  "queue_sleep slot wake_tick w =
     w\<lparr>sw_sleepq :=
         (if \<exists>e \<in> set (sw_sleepq w). fst e = slot
          then upd_first (\<lambda>e. fst e = slot) (\<lambda>e. (fst e, wake_tick)) (sw_sleepq w)
          else sw_sleepq w @ [(slot, wake_tick)])\<rparr>"

definition is_slot_active :: "sched_world \<Rightarrow> usize \<Rightarrow> bool" where
  "is_slot_active w slot =
     (case node_ref (sw_sched w) slot of Some n \<Rightarrow> tn_kind n \<noteq> Empty | None \<Rightarrow> False)"

text \<open>\<open>now\<close> is the clock at the call; an inactive slot waits on the clock and changes nothing.\<close>

definition sleep_until :: "nat \<Rightarrow> nat \<Rightarrow> sched_world \<Rightarrow> sched_world" where
  "sleep_until now wake_tick w =
     (if wake_tick \<le> now then w
      else let slot = sw_current_running w in
        if \<not> is_slot_active w slot then w
        else schedule_block (queue_sleep slot wake_tick w))"

definition next_sleep_deadline :: "sched_world \<Rightarrow> nat option" where
  "next_sleep_deadline w =
     (if sw_sleepq w = [] then None else Some (Min (set (map snd (sw_sleepq w)))))"

definition no_ready_tasks :: "sched_world \<Rightarrow> bool" where
  "no_ready_tasks w = rq_is_empty (sc_ready (sw_sched w))"

fun wake_slots :: "usize list \<Rightarrow> scheduler \<Rightarrow> scheduler" where
  "wake_slots [] s = s"
| "wake_slots (slot # slots) s = wake_slots slots (snd (ready_blocked slot s))"

text \<open>\<open>q_free\<close> and \<open>sched_free\<close>: whether the two \<open>try_lock\<close> calls succeed.\<close>

definition tick_sleep_queue :: "bool \<Rightarrow> bool \<Rightarrow> nat \<Rightarrow> sched_world \<Rightarrow> sched_world" where
  "tick_sleep_queue q_free sched_free now w =
     (if \<not> q_free then w
      else let to_wake = map fst (filter (\<lambda>e. snd e \<le> now) (sw_sleepq w));
               w1 = w\<lparr>sw_sleepq := filter (\<lambda>e. \<not> snd e \<le> now) (sw_sleepq w)\<rparr>
           in if to_wake = [] \<or> \<not> sched_free then w1
              else w1\<lparr>sw_sched := wake_slots to_wake (sw_sched w1)\<rparr>)"

definition allocate_user_slot :: "usize \<Rightarrow> usize \<Rightarrow> usize \<Rightarrow> sched_world \<Rightarrow> (sched_error + usize) \<times> sched_world" where
  "allocate_user_slot p kernel_stack_top initial_sp w =
     (let s = sw_sched w;
          (slot, s1) = (if sc_free s = []
             then (length (sc_nodes s), s\<lparr>sc_nodes := sc_nodes s @ [Some new_idle]\<rparr>)
             else (last (sc_free s), s\<lparr>sc_free := butlast (sc_free s)\<rparr>))
      in case node_ref s1 slot of
           None \<Rightarrow> (Inl NoFreeSlot, w\<lparr>sw_sched := s1\<rparr>)
         | Some _ \<Rightarrow>
             let n = (new_user p Normal initial_sp)\<lparr>tn_kstack := of_nat kernel_stack_top\<rparr>;
                 s2 = node_upd slot (\<lambda>_. n) s1;
                 s3 = s2\<lparr>sc_high_water := (if sc_high_water s2 \<le> slot then slot + 1 else sc_high_water s2),
                         sc_ready := rq_push (sc_ready s2) slot (class_priority (tn_class n))\<rparr>
             in (Inr slot, proc_slot_set p slot (w\<lparr>sw_sched := s3\<rparr>)))"

definition set_task_fs_base :: "usize \<Rightarrow> u64 \<Rightarrow> sched_world \<Rightarrow> sched_world" where
  "set_task_fs_base slot val w = w\<lparr>sw_sched := node_upd slot (\<lambda>n. n\<lparr>tn_fs_base := val\<rparr>) (sw_sched w)\<rparr>"

text \<open>\<open>initial_sp\<close> is the stack pointer that \<open>build_clone_stack\<close> answers.\<close>

definition spawn_clone_task ::
    "usize \<Rightarrow> usize \<Rightarrow> usize \<Rightarrow> usize \<Rightarrow> sched_world \<Rightarrow> (sched_error + usize) \<times> sched_world" where
  "spawn_clone_task p kernel_stack_top initial_sp tls w =
     (case allocate_user_slot p kernel_stack_top initial_sp w of
        (Inl e, w') \<Rightarrow> (Inl e, w')
      | (Inr slot, w') \<Rightarrow>
          (Inr slot, (set_task_fs_base slot (of_nat tls) w')\<lparr>sw_pending_rsp0 := of_nat kernel_stack_top\<rparr>))"

definition start_first_task :: "sched_world \<Rightarrow> sched_world panicking" where
  "start_first_task w =
     (case find_next_ready_user (sw_sched w) of
        (None, _) \<Rightarrow> None
      | (Some nxt, s) \<Rightarrow>
          let s1 = node_upd IDLE_SLOT (\<lambda>n. n\<lparr>tn_state := Running\<rparr>) s
          in Some (switch_to IDLE_SLOT nxt (run_next IDLE_SLOT nxt s1 w)))"

definition remove_task :: "usize \<Rightarrow> sched_world \<Rightarrow> sched_world" where
  "remove_task p w = mark_task_exited_by_proc p w"

definition set_task_class :: "usize \<Rightarrow> sched_class \<Rightarrow> sched_world \<Rightarrow> bool \<times> sched_world" where
  "set_task_class p class w =
     (let slot = proc_slot_get w p; s = sw_sched w in
      if slot = NO_SLOT then (False, w)
      else case node_ref s slot of
        None \<Rightarrow> (False, w)
      | Some n \<Rightarrow>
          if tn_kind n = Empty then (False, w)
          else let s1 = node_upd slot (\<lambda>n. n\<lparr>tn_class := class, tn_quantum_left := quantum class\<rparr>) s;
                   s2 = (if tn_state n = Ready
                         then s1\<lparr>sc_ready := rq_push (snd (rq_remove (sc_ready s1) slot)) slot (class_priority class)\<rparr>
                         else s1)
               in (True, w\<lparr>sw_sched := s2\<rparr>))"

definition get_task_class :: "usize \<Rightarrow> sched_world \<Rightarrow> sched_class option" where
  "get_task_class p w =
     (let slot = proc_slot_get w p in
      if slot = NO_SLOT then None else map_option tn_class (node_ref (sw_sched w) slot))"

definition task_kernel_stack :: "sched_world \<Rightarrow> usize \<Rightarrow> u64" where
  "task_kernel_stack w slot = (case node_ref (sw_sched w) slot of Some n \<Rightarrow> tn_kstack n | None \<Rightarrow> 0)"

definition get_task_fs_base :: "sched_world \<Rightarrow> usize \<Rightarrow> u64" where
  "get_task_fs_base w slot = (case node_ref (sw_sched w) slot of Some n \<Rightarrow> tn_fs_base n | None \<Rightarrow> 0)"

definition set_task_sp :: "usize \<Rightarrow> usize \<Rightarrow> sched_world \<Rightarrow> sched_world" where
  "set_task_sp slot sp w = w\<lparr>sw_sched := node_upd slot (\<lambda>n. n\<lparr>tn_sp := sp\<rparr>) (sw_sched w)\<rparr>"

definition task_sp :: "sched_world \<Rightarrow> usize \<Rightarrow> usize" where
  "task_sp w slot = (case node_ref (sw_sched w) slot of Some n \<Rightarrow> tn_sp n | None \<Rightarrow> 0)"

definition child_count :: "sched_world \<Rightarrow> usize" where
  "child_count w =
     length (filter (\<lambda>n. case n of Some node \<Rightarrow> is_user node | None \<Rightarrow> False) (sc_nodes (sw_sched w)))"

definition slot_to_process :: "sched_world \<Rightarrow> usize \<Rightarrow> usize" where
  "slot_to_process w slot =
     (case map_option tn_kind (node_ref (sw_sched w) slot) of Some (User p) \<Rightarrow> p | _ \<Rightarrow> USIZE_MAX)"

definition set_slot_process :: "usize \<Rightarrow> usize \<Rightarrow> sched_world \<Rightarrow> sched_world" where
  "set_slot_process slot p w =
     proc_slot_set p slot (w\<lparr>sw_sched := node_upd slot (\<lambda>n. n\<lparr>tn_kind := User p\<rparr>) (sw_sched w)\<rparr>)"

section \<open>The invariant\<close>

lemma node_ref_upd [simp]:
  "node_ref (node_upd slot f s) k = (if k = slot then map_option f (node_ref s slot) else node_ref s k)"
  by (auto simp: node_ref_def node_upd_def split: option.splits)

lemma node_upd_fields [simp]:
  "sc_free (node_upd slot f s) = sc_free s" "sc_ready (node_upd slot f s) = sc_ready s"
  "sc_current (node_upd slot f s) = sc_current s" "length (sc_nodes (node_upd slot f s)) = length (sc_nodes s)"
  by (simp_all add: node_upd_def split: option.splits)

lemma node_ref_cong [simp]:
  "node_ref (s\<lparr>sc_free := fr\<rparr>) = node_ref s" "node_ref (s\<lparr>sc_ready := rq\<rparr>) = node_ref s"
  "node_ref (s\<lparr>sc_current := c\<rparr>) = node_ref s" "node_ref (s\<lparr>sc_high_water := h\<rparr>) = node_ref s"
  by (auto simp: node_ref_def)

lemma node_ref_length: "node_ref s k = Some n \<Longrightarrow> k < length (sc_nodes s)"
  by (simp add: node_ref_def split: if_splits)

definition ready_slots :: "scheduler \<Rightarrow> usize set" where
  "ready_slots s = {k. \<exists>n. node_ref s k = Some n \<and> tn_state n = Ready}"

lemma finite_ready_slots [simp]: "finite (ready_slots s)"
proof (rule finite_subset)
  show "ready_slots s \<subseteq> {..<length (sc_nodes s)}" by (auto simp: ready_slots_def dest: node_ref_length)
qed simp

text \<open>
  What holds of a node at slot \<open>k\<close> given the set of free slots: waiting tasks are user tasks, the
  empty nodes are exactly the free slots, these are exited, and the idle task is at slot 0.
\<close>

definition node_ok :: "usize set \<Rightarrow> usize \<Rightarrow> task_node \<Rightarrow> bool" where
  "node_ok free k n \<longleftrightarrow> (tn_state n = Ready \<or> tn_state n = Blocked \<longrightarrow> is_user n) \<and>
     (tn_kind n = Empty \<longleftrightarrow> k \<in> free) \<and> (k \<in> free \<longrightarrow> tn_state n = Exited) \<and> (tn_kind n = Idle \<longleftrightarrow> k = 0)"

definition sc_core :: "scheduler \<Rightarrow> bool" where
  "sc_core s \<longleftrightarrow> rq_inv (sc_ready s) \<and> rq_bag (sc_ready s) = mset_set (ready_slots s) \<and>
     (\<exists>n. node_ref s 0 = Some n \<and> tn_kind n = Idle \<and> tn_state n = Running) \<and>
     (\<forall>k < length (sc_nodes s). \<exists>n. node_ref s k = Some n \<and> node_ok (set (sc_free s)) k n) \<and>
     distinct (sc_free s) \<and> set (sc_free s) \<subseteq> {..<length (sc_nodes s)}"

text \<open>At most the current user task runs, next to the idle task.\<close>

definition sc_inv :: "scheduler \<Rightarrow> bool" where
  "sc_inv s \<longleftrightarrow> sc_core s \<and> sc_current s \<notin> set (sc_free s) \<and>
     (\<exists>n. node_ref s (sc_current s) = Some n \<and> (tn_state n = Running \<or> tn_state n = Exited)) \<and>
     (\<forall>k n. node_ref s k = Some n \<and> tn_state n = Running \<longrightarrow> k = 0 \<or> k = sc_current s)"

lemma sc_inv_current: "sc_inv s \<Longrightarrow> sc_current s \<notin> ready_slots s"
  by (auto simp: sc_inv_def ready_slots_def)

text \<open>The process map points to user tasks of that process, and the cpu's running slot is the current one.\<close>

definition kind_at :: "scheduler \<Rightarrow> usize \<Rightarrow> task_kind option" where
  "kind_at s k = map_option tn_kind (node_ref s k)"

definition map_ok :: "sched_world \<Rightarrow> bool" where
  "map_ok w \<longleftrightarrow> (\<forall>p. proc_slot_get w p \<noteq> NO_SLOT \<longrightarrow> kind_at (sw_sched w) (proc_slot_get w p) = Some (User p))"

definition sched_inv :: "sched_world \<Rightarrow> bool" where
  "sched_inv w \<longleftrightarrow> sc_inv (sw_sched w) \<and> sw_current_running w = sc_current (sw_sched w) \<and> map_ok w"

lemma sc_coreD:
  assumes "sc_core s"
  shows "rq_inv (sc_ready s)" and "rq_bag (sc_ready s) = mset_set (ready_slots s)"
    and "distinct (sc_free s)"
    and "node_ref s k = Some n \<Longrightarrow> node_ok (set (sc_free s)) k n"
    and "k \<in># rq_bag (sc_ready s) \<longleftrightarrow> k \<in> ready_slots s"
    and "0 \<notin> set (sc_free s)" and "0 \<notin> ready_slots s"
proof -
  show "rq_inv (sc_ready s)" "rq_bag (sc_ready s) = mset_set (ready_slots s)" "distinct (sc_free s)"
    using assms by (simp_all add: sc_core_def)
  then show "k \<in># rq_bag (sc_ready s) \<longleftrightarrow> k \<in> ready_slots s" by simp
  show ok: "node_ok (set (sc_free s)) k n" if "node_ref s k = Some n" for k n
    using assms that node_ref_length [OF that] by (force simp: sc_core_def)
  from assms obtain n where n: "node_ref s 0 = Some n" "tn_kind n = Idle" "tn_state n = Running"
    by (auto simp: sc_core_def)
  with ok [OF n(1)] show "0 \<notin> set (sc_free s)" by (simp add: node_ok_def)
  show "0 \<notin> ready_slots s" using n by (simp add: ready_slots_def)
qed

text \<open>
  The one update all operations make: node \<open>k\<close> is replaced, the queue is adjusted to its new
  state and the free list to its new kind.
\<close>

lemma sc_core_set:
  assumes core: "sc_core s" and k: "k < length (sc_nodes s)" "k \<noteq> 0"
    and rq: "rq_inv rq" "rq_bag rq = (if tn_state n = Ready then {#k#} else {#}) + (rq_bag (sc_ready s) - {#k#})"
    and fr: "distinct fr" "set fr - {k} = set (sc_free s) - {k}" and ok: "node_ok (set fr) k n"
    and s': "sc_nodes s' = (sc_nodes s)[k := Some n]" "sc_ready s' = rq" "sc_free s' = fr"
  shows "sc_core s'" and "ready_slots s' = (if tn_state n = Ready then insert k else id) (ready_slots s - {k})"
proof -
  have nr: "node_ref s' j = (if j = k then Some n else node_ref s j)" for j
    using k(1) by (simp add: node_ref_def s'(1))
  show rs: "ready_slots s' = (if tn_state n = Ready then insert k else id) (ready_slots s - {k})"
    by (auto simp: ready_slots_def nr)
  have "mset_set (ready_slots s) - {#k#} = mset_set (ready_slots s - {k})"
    by (cases "k \<in> ready_slots s") (simp_all add: mset_set_Diff diff_single_trivial)
  then have "rq_bag rq = mset_set (ready_slots s')"
    using rq(2) by (simp add: rs sc_coreD(2) [OF core] mset_set.insert_remove)
  moreover have "\<exists>m. node_ref s' j = Some m \<and> node_ok (set fr) j m" if "j < length (sc_nodes s')" for j
  proof (cases "j = k")
    case True
    with ok show ?thesis by (simp add: nr)
  next
    case False
    with that core obtain m where m: "node_ref s j = Some m" "node_ok (set (sc_free s)) j m"
      by (auto simp: sc_core_def s'(1))
    moreover have "j \<in> set fr \<longleftrightarrow> j \<in> set (sc_free s)" using fr(2) False by blast
    ultimately show ?thesis using False by (simp add: nr node_ok_def)
  qed
  moreover have "set fr \<subseteq> {..<length (sc_nodes s')}"
  proof
    fix j
    assume "j \<in> set fr"
    then have "j = k \<or> j \<in> set (sc_free s)" using fr(2) by blast
    then show "j \<in> {..<length (sc_nodes s')}" using core k(1) by (auto simp: sc_core_def s'(1))
  qed
  moreover have "\<exists>n. node_ref s' 0 = Some n \<and> tn_kind n = Idle \<and> tn_state n = Running"
    using core k(2) by (simp add: nr sc_core_def)
  ultimately show "sc_core s'" using rq(1) fr(1) by (simp add: sc_core_def s'(2,3))
qed

lemma sc_core_cong:
  "sc_nodes s' = sc_nodes s \<Longrightarrow> sc_ready s' = sc_ready s \<Longrightarrow> sc_free s' = sc_free s \<Longrightarrow> sc_core s' = sc_core s"
  by (simp add: sc_core_def node_ref_def ready_slots_def)

lemma node_upd_nodes: "node_ref s k = Some n \<Longrightarrow> sc_nodes (node_upd k f s) = (sc_nodes s)[k := Some (f n)]"
  by (simp add: node_upd_def)

text \<open>Updates that keep kind and state, as of registers and slices, keep the invariant.\<close>

lemma ready_slots_harmless:
  assumes "\<And>n. tn_state (f n) = tn_state n"
  shows "ready_slots (node_upd k f s) = ready_slots s"
  using assms by (auto simp: ready_slots_def split: if_splits)

lemma sc_core_harmless:
  assumes core: "sc_core s" and st: "\<And>n. tn_state (f n) = tn_state n" and kd: "\<And>n. tn_kind (f n) = tn_kind n"
  shows "sc_core (node_upd k f s)"
proof -
  have "node_ok F j (f n) = node_ok F j n" for F j n by (simp add: node_ok_def is_user_def st kd)
  moreover have "\<exists>n. node_ref s j = Some n \<and> node_ok (set (sc_free s)) j n" if "j < length (sc_nodes s)" for j
    using core that by (simp add: sc_core_def)
  ultimately have "\<exists>n. node_ref (node_upd k f s) j = Some n \<and> node_ok (set (sc_free s)) j n"
    if "j < length (sc_nodes s)" for j using that by (cases "j = k") force+
  then show ?thesis using core by (auto simp: sc_core_def ready_slots_harmless st kd)
qed

lemma sc_inv_harmless:
  assumes "sc_inv s" and "\<And>n. tn_state (f n) = tn_state n" and "\<And>n. tn_kind (f n) = tn_kind n"
  shows "sc_inv (node_upd k f s)"
proof -
  have "\<exists>n. node_ref s j = Some n \<and> tn_state n = Running"
    if "node_ref (node_upd k f s) j = Some m" "tn_state m = Running" for j m
    using that assms(2) by (auto split: if_splits)
  moreover obtain n where "node_ref s (sc_current s) = Some n" "tn_state n = Running \<or> tn_state n = Exited"
    using assms(1) by (auto simp: sc_inv_def)
  then have "\<exists>m. node_ref (node_upd k f s) (sc_current s) = Some m \<and> (tn_state m = Running \<or> tn_state m = Exited)"
    using assms(2) by (cases "sc_current s = k") auto
  ultimately show ?thesis
    using assms unfolding sc_inv_def node_upd_fields by (blast intro: sc_core_harmless)
qed

definition no_user_running :: "scheduler \<Rightarrow> bool" where
  "no_user_running s \<longleftrightarrow> (\<forall>k n. node_ref s k = Some n \<and> tn_state n = Running \<longrightarrow> k = 0)"

lemma rq_inv_bag:
  assumes "sc_core s" and "k \<notin> ready_slots s"
  shows "rq_inv (rq_push (sc_ready s) k p)" and "rq_bag (rq_push (sc_ready s) k p) = add_mset k (rq_bag (sc_ready s))"
    and "rq_inv (snd (rq_remove (sc_ready s) k))" and "rq_bag (snd (rq_remove (sc_ready s) k)) = rq_bag (sc_ready s) - {#k#}"
    and "rq_bag (sc_ready s) - {#k#} = rq_bag (sc_ready s)"
  using rq_tasks.push_law [of "sc_ready s" k p] rq_tasks.remove_law [of "sc_ready s" k] assms
    sc_coreD(1,5) [OF assms(1)] by (auto simp: diff_single_trivial)

lemma requeue_current_inv:
  assumes inv: "sc_inv s"
  shows "sc_core (requeue_current s)" and "no_user_running (requeue_current s)"
    and "kind_at (requeue_current s) = kind_at s"
proof -
  have core: "sc_core s" and cur: "sc_current s \<notin> ready_slots s"
    using inv sc_inv_current by (simp_all add: sc_inv_def)
  have run: "k = 0 \<or> k = sc_current s" if "node_ref s k = Some n" "tn_state n = Running" for k n
    using inv that by (auto simp: sc_inv_def)
  obtain n where n: "node_ref s (sc_current s) = Some n"
    using inv by (auto simp: sc_inv_def)
  have "sc_core (requeue_current s) \<and> no_user_running (requeue_current s) \<and>
    kind_at (requeue_current s) = kind_at s"
  proof (cases "is_user n \<and> tn_state n = Running")
    case True
    let ?n = "n\<lparr>tn_state := Ready, tn_quantum_left := quantum (tn_class n)\<rparr>"
    let ?s = "(node_upd (sc_current s) (\<lambda>n. n\<lparr>tn_state := Ready, tn_quantum_left := quantum (tn_class n)\<rparr>) s)
      \<lparr>sc_ready := rq_push (sc_ready s) (sc_current s) (class_priority (tn_class n))\<rparr>"
    have eq: "requeue_current s = ?s" using True by (simp add: requeue_current_def n)
    have ok: "node_ok (set (sc_free s)) (sc_current s) n" using sc_coreD(4) [OF core n] .
    have "sc_current s \<noteq> 0" using ok True by (auto simp: node_ok_def is_user_def)
    then have "sc_core ?s"
      using ok True
      by (intro sc_core_set(1) [OF core node_ref_length [OF n], of _ ?n])
        (simp_all add: rq_inv_bag [OF core cur] sc_coreD(3) [OF core] node_upd_nodes [OF n] node_ok_def is_user_def)
    moreover have "no_user_running ?s"
      using run by (auto simp: no_user_running_def n split: if_splits)
    moreover have "kind_at ?s = kind_at s" by (rule ext) (simp add: kind_at_def n)
    ultimately show ?thesis by (simp only: eq)
  next
    case False
    then have eq: "requeue_current s = s" by (auto simp: requeue_current_def n)
    have "k = 0" if "node_ref s k = Some m" "tn_state m = Running" for k m
    proof (rule ccontr)
      assume "k \<noteq> 0"
      with run [OF that] have "k = sc_current s" by simp
      with that n have m: "m = n" by simp
      with sc_coreD(4) [OF core n] that(2) False \<open>k \<noteq> 0\<close> \<open>k = sc_current s\<close> show False
        by (cases "tn_kind n") (auto simp: node_ok_def is_user_def)
    qed
    then show ?thesis using core by (auto simp: eq no_user_running_def)
  qed
  then show "sc_core (requeue_current s)" "no_user_running (requeue_current s)"
    "kind_at (requeue_current s) = kind_at s" by simp_all
qed

text \<open>Handing the cpu over: the queue's choice, or the idle task.\<close>

lemma idle_runs:
  assumes "node_ref s 0 = Some n" and "tn_state n = Running"
  shows "node_upd 0 (\<lambda>n. n\<lparr>tn_state := Running\<rparr>) s = s"
proof -
  have id: "n\<lparr>tn_state := Running\<rparr> = n" using assms(2) by simp
  have "sc_nodes s ! 0 = Some n" using assms(1) by (simp add: node_ref_def split: if_splits)
  then have "(sc_nodes s)[0 := Some n] = sc_nodes s" by (metis list_update_id)
  then show ?thesis unfolding node_upd_def assms(1) option.case id by simp
qed

definition chosen :: "usize option \<Rightarrow> usize" where
  "chosen pick = (case pick of Some t \<Rightarrow> t | None \<Rightarrow> IDLE_SLOT)"

lemma dispatch_inv:
  assumes core: "sc_core s" and idle: "no_user_running s" and pick: "find_next_ready_user s = (pick, s')"
  defines "s2 \<equiv> (node_upd (chosen pick) (\<lambda>n. n\<lparr>tn_state := Running\<rparr>) s')\<lparr>sc_current := chosen pick\<rparr>"
  shows "sc_inv s2" and "kind_at s2 = kind_at s"
    and "pick = Some t \<Longrightarrow> t \<in> ready_slots s \<and> ready_slots s2 = ready_slots s - {t}"
    and "pick = None \<Longrightarrow> ready_slots s = {} \<and> ready_slots s2 = {} \<and> s' = s"
proof -
  obtain rq where rq: "pop_next (sc_ready s) = (pick, rq)" and s': "s' = s\<lparr>sc_ready := rq\<rparr>"
    using pick by (cases "pop_next (sc_ready s)") (simp add: find_next_ready_user_def)
  note rqi = sc_coreD(1) [OF core]
  have "sc_inv s2 \<and> kind_at s2 = kind_at s \<and> (case pick of
      Some t \<Rightarrow> t \<in> ready_slots s \<and> ready_slots s2 = ready_slots s - {t}
    | None \<Rightarrow> ready_slots s = {} \<and> ready_slots s2 = {} \<and> s' = s)"
  proof (cases pick)
    case None
    from rq_tasks.pop_None [OF rqi] rq None have r: "rq = sc_ready s" "rq_bag (sc_ready s) = {#}" by auto
    then have e: "ready_slots s = {}" using sc_coreD(2) [OF core] by (simp add: mset_set_empty_iff)
    from core obtain n where n: "node_ref s 0 = Some n" "tn_kind n = Idle" "tn_state n = Running"
      by (auto simp: sc_core_def)
    have s2: "s2 = s\<lparr>sc_current := 0\<rparr>"
      using None r(1) idle_runs [OF n(1,3)] by (simp add: s2_def s' chosen_def IDLE_SLOT_def)
    have "sc_core s2" using core sc_core_cong [of s2 s] by (simp add: s2)
    moreover have "ready_slots s2 = {}" using e by (simp add: s2 ready_slots_def)
    ultimately show ?thesis
      using None e r(1) idle sc_coreD(6) [OF core] n
      by (auto simp: sc_inv_def s2 no_user_running_def kind_at_def s')
  next
    case (Some t)
    from rq_tasks.pop_Some [OF rqi] rq Some have r: "rq_inv rq" "rq_bag (sc_ready s) = add_mset t (rq_bag rq)"
      by auto
    then have t: "t \<in> ready_slots s" using sc_coreD(5) [OF core, of t] by simp
    then obtain n where n: "node_ref s t = Some n" "tn_state n = Ready" by (auto simp: ready_slots_def)
    have ok: "node_ok (set (sc_free s)) t n" using sc_coreD(4) [OF core n(1)] .
    have t0: "t \<noteq> 0" using t sc_coreD(7) [OF core] by metis
    have n': "node_ref s' t = Some n" using n(1) by (simp add: s')
    have nodes: "sc_nodes s2 = (sc_nodes s)[t := Some (n\<lparr>tn_state := Running\<rparr>)]"
      using node_upd_nodes [OF n'] by (simp add: s2_def Some chosen_def s')
    have fld: "sc_ready s2 = rq" "sc_free s2 = sc_free s" "sc_current s2 = t"
      by (simp_all add: s2_def Some chosen_def s')
    have nf: "t \<notin> set (sc_free s)" using ok n(2) by (auto simp: node_ok_def)
    have ok': "node_ok (set (sc_free s)) t (n\<lparr>tn_state := Running\<rparr>)"
      using ok n(2) nf by (auto simp: node_ok_def)
    note set = sc_core_set [OF core node_ref_length [OF n(1)] t0 r(1) _ sc_coreD(3) [OF core] _ ok' nodes fld(1,2)]
    have c2: "sc_core s2" and r2: "ready_slots s2 = ready_slots s - {t}"
      using set r(2) by simp_all
    have nr: "node_ref s2 j = (if j = t then Some (n\<lparr>tn_state := Running\<rparr>) else node_ref s j)" for j
      using node_ref_length [OF n(1)] by (simp add: node_ref_def nodes)
    have "sc_inv s2"
      using c2 r2 nf idle node_ref_length [OF n(1)]
      by (auto simp: sc_inv_def fld nr no_user_running_def nodes split: if_splits)
    moreover have "kind_at s2 = kind_at s" using n(1) by (intro ext) (simp add: kind_at_def nr)
    ultimately show ?thesis using Some t r2 by simp
  qed
  then show "sc_inv s2" "kind_at s2 = kind_at s"
    "pick = Some t \<Longrightarrow> t \<in> ready_slots s \<and> ready_slots s2 = ready_slots s - {t}"
    "pick = None \<Longrightarrow> ready_slots s = {} \<and> ready_slots s2 = {} \<and> s' = s" by auto
qed

lemma retire_slot_inv:
  assumes core: "sc_core s" and n: "node_ref s k = Some n" and "k \<noteq> 0" and "k \<notin> set (sc_free s)"
  shows "sc_core (retire_slot k s)" and "ready_slots (retire_slot k s) = ready_slots s - {k}"
    and "kind_at (retire_slot k s) = (kind_at s)(k := Some Empty)"
    and "node_ref (retire_slot k s) j =
      (if j = k then Some (n\<lparr>tn_state := Exited, tn_kind := Empty\<rparr>) else node_ref s j)"
    and "sc_current (retire_slot k s) = sc_current s" and "sc_free (retire_slot k s) = sc_free s @ [k]"
proof -
  have rm: "rq_inv (snd (rq_remove (sc_ready s) k))"
    "rq_bag (snd (rq_remove (sc_ready s) k)) = rq_bag (sc_ready s) - {#k#}"
    using rq_tasks.remove_law [OF sc_coreD(1) [OF core], of k] by simp_all
  let ?n = "n\<lparr>tn_state := Exited, tn_kind := Empty\<rparr>"
  have fld: "sc_ready (retire_slot k s) = snd (rq_remove (sc_ready s) k)"
    "sc_free (retire_slot k s) = sc_free s @ [k]" "sc_nodes (retire_slot k s) = (sc_nodes s)[k := Some ?n]"
    "sc_current (retire_slot k s) = sc_current s"
    by (simp_all add: retire_slot_def n node_upd_nodes [OF n])
  have ok: "node_ok (set (sc_free s @ [k])) k ?n" using assms(3) by (simp add: node_ok_def)
  have fr: "distinct (sc_free s @ [k])" using sc_coreD(3) [OF core] assms(4) by simp
  note set = sc_core_set [OF core node_ref_length [OF n] assms(3) rm(1) _ fr _ ok fld(3,1,2)]
  show "sc_core (retire_slot k s)" "ready_slots (retire_slot k s) = ready_slots s - {k}"
    using set rm(2) by simp_all
  show nr: "node_ref (retire_slot k s) j = (if j = k then Some ?n else node_ref s j)" for j
    using node_ref_length [OF n] by (simp add: node_ref_def fld)
  show "kind_at (retire_slot k s) = (kind_at s)(k := Some Empty)"
    by (intro ext) (simp add: kind_at_def nr)
  show "sc_current (retire_slot k s) = sc_current s" "sc_free (retire_slot k s) = sc_free s @ [k]"
    by (rule fld)+
qed

lemma ready_blocked_inv:
  assumes inv: "sc_inv s"
  shows "sc_inv (snd (ready_blocked k s))" and "kind_at (snd (ready_blocked k s)) = kind_at s"
    and "sc_current (snd (ready_blocked k s)) = sc_current s"
    and "fst (ready_blocked k s) \<longleftrightarrow> map_option tn_state (node_ref s k) = Some Blocked"
    and "ready_slots (snd (ready_blocked k s)) = ready_slots s \<union> (if fst (ready_blocked k s) then {k} else {})"
    and "sc_free (snd (ready_blocked k s)) = sc_free s"
proof -
  have core: "sc_core s" using inv by (simp add: sc_inv_def)
  have "sc_inv (snd (ready_blocked k s)) \<and> kind_at (snd (ready_blocked k s)) = kind_at s \<and>
    sc_current (snd (ready_blocked k s)) = sc_current s \<and>
    (fst (ready_blocked k s) \<longleftrightarrow> map_option tn_state (node_ref s k) = Some Blocked) \<and>
    ready_slots (snd (ready_blocked k s)) = ready_slots s \<union> (if fst (ready_blocked k s) then {k} else {}) \<and>
    sc_free (snd (ready_blocked k s)) = sc_free s"
  proof (cases "map_option tn_state (node_ref s k) = Some Blocked")
    case False
    then have "ready_blocked k s = (False, s)"
      by (cases "node_ref s k") (auto simp: ready_blocked_def)
    with False inv show ?thesis by simp
  next
    case True
    then obtain n where n: "node_ref s k = Some n" "tn_state n = Blocked" by auto
    let ?n = "n\<lparr>tn_state := Ready\<rparr>"
    define s' where "s' = (node_upd k (\<lambda>n. n\<lparr>tn_state := Ready\<rparr>) s)
      \<lparr>sc_ready := rq_push (sc_ready s) k (class_priority (tn_class n))\<rparr>"
    have eq: "ready_blocked k s = (True, s')" using n by (simp add: ready_blocked_def s'_def)
    have nodes: "sc_nodes s' = (sc_nodes s)[k := Some ?n]" by (simp add: s'_def node_upd_nodes [OF n(1)])
    have fld: "sc_ready s' = rq_push (sc_ready s) k (class_priority (tn_class n))" "sc_free s' = sc_free s"
      "sc_current s' = sc_current s" by (simp_all add: s'_def)
    have nr: "k \<notin> ready_slots s" using n by (simp add: ready_slots_def)
    have ok: "node_ok (set (sc_free s)) k n" using sc_coreD(4) [OF core n(1)] .
    then have ok': "node_ok (set (sc_free s)) k ?n" using n(2) by (auto simp: node_ok_def is_user_def)
    have k0: "k \<noteq> 0" using ok n(2) by (auto simp: node_ok_def is_user_def)
    note set = sc_core_set [OF core node_ref_length [OF n(1)] k0 rq_inv_bag(1) [OF core nr] _
        sc_coreD(3) [OF core] _ ok' nodes fld(1,2)]
    have c: "sc_core s'" and r: "ready_slots s' = insert k (ready_slots s)"
      using set by (simp_all add: rq_inv_bag [OF core nr])
    have ref: "node_ref s' j = (if j = k then Some ?n else node_ref s j)" for j
      using node_ref_length [OF n(1)] by (simp add: node_ref_def nodes)
    have "kind_at s' = kind_at s" using n(1) by (intro ext) (simp add: kind_at_def ref)
    moreover have "sc_inv s'"
    proof -
      have "k \<noteq> sc_current s" using inv n by (auto simp: sc_inv_def)
      then show ?thesis using inv c by (auto simp: sc_inv_def ref fld split: if_splits)
    qed
    ultimately show ?thesis using True eq r fld by simp
  qed
  then show "sc_inv (snd (ready_blocked k s))" "kind_at (snd (ready_blocked k s)) = kind_at s"
    "sc_current (snd (ready_blocked k s)) = sc_current s"
    "fst (ready_blocked k s) \<longleftrightarrow> map_option tn_state (node_ref s k) = Some Blocked"
    "ready_slots (snd (ready_blocked k s)) = ready_slots s \<union> (if fst (ready_blocked k s) then {k} else {})"
    "sc_free (snd (ready_blocked k s)) = sc_free s" by blast+
qed

lemma set_current_process_fields [simp]:
  "sw_sched (set_current_process_for_slot k w) = sw_sched w"
  "sw_current_running (set_current_process_for_slot k w) = sw_current_running w"
  "sw_proc_to_slot (set_current_process_for_slot k w) = sw_proc_to_slot w"
  "sw_sleepq (set_current_process_for_slot k w) = sw_sleepq w"
  by (simp_all add: set_current_process_for_slot_def split: option.split task_kind.split)

lemma restore_task_arch_state_fields [simp]:
  "sw_sched (restore_task_arch_state k w) = sw_sched w"
  "sw_current_running (restore_task_arch_state k w) = sw_current_running w"
  "sw_proc_to_slot (restore_task_arch_state k w) = sw_proc_to_slot w"
  "sw_sleepq (restore_task_arch_state k w) = sw_sleepq w"
  by (simp_all add: restore_task_arch_state_def split: option.split)

lemma switch_to_fields [simp]:
  "sw_sched (switch_to c k w) = node_upd c (\<lambda>n. n\<lparr>tn_fs_base := sw_fs_msr w\<rparr>) (sw_sched w)"
  "sw_current_running (switch_to c k w) = k" "sw_proc_to_slot (switch_to c k w) = sw_proc_to_slot w"
  "sw_sleepq (switch_to c k w) = sw_sleepq w"
  by (simp_all add: switch_to_def Let_def save_fs_base_def)

lemma kind_at_harmless: "(\<And>n. tn_kind (f n) = tn_kind n) \<Longrightarrow> kind_at (node_upd k f s) = kind_at s"
  by (rule ext) (simp add: kind_at_def option.map_comp comp_def)

lemma proc_slot_get_cong [simp]:
  "proc_slot_get (w\<lparr>sw_sched := s\<rparr>) = proc_slot_get w" "proc_slot_get (w\<lparr>sw_sleepq := q\<rparr>) = proc_slot_get w"
  "proc_slot_get (w\<lparr>sw_last_scheduled := l\<rparr>) = proc_slot_get w" "proc_slot_get (switch_to c k w) = proc_slot_get w"
  by (rule ext, simp add: proc_slot_get_def)+

lemma proc_slot_get_set [simp]:
  "proc_slot_get (proc_slot_set p slot w) q = (if q = p then slot else proc_slot_get w q)"
  by (auto simp: proc_slot_get_def proc_slot_set_def Let_def nth_append nth_list_update)

lemma proc_slot_set_fields [simp]:
  "sw_sched (proc_slot_set p slot w) = sw_sched w" "sw_current_running (proc_slot_set p slot w) = sw_current_running w"
  "sw_sleepq (proc_slot_set p slot w) = sw_sleepq w"
  by (simp_all add: proc_slot_set_def Let_def)

lemma remove_sleep_fields [simp]:
  "sw_sched (remove_sleep k w) = sw_sched w" "sw_current_running (remove_sleep k w) = sw_current_running w"
  "proc_slot_get (remove_sleep k w) = proc_slot_get w"
  by (simp_all add: remove_sleep_def)

lemma sched_invD:
  assumes "sched_inv w"
  shows "sc_inv (sw_sched w)" and "sc_core (sw_sched w)" and "sw_current_running w = sc_current (sw_sched w)"
    and "map_ok w"
  using assms by (simp_all add: sched_inv_def sc_inv_def)

lemma map_ok_cong: "proc_slot_get w' = proc_slot_get w \<Longrightarrow> kind_at (sw_sched w') = kind_at (sw_sched w) \<Longrightarrow> map_ok w' = map_ok w"
  by (simp add: map_ok_def)

lemma map_ok_retire:
  assumes "map_ok w" and "kind_at (sw_sched w) k = Some (User q)"
    and "kind_at (sw_sched w') = (kind_at (sw_sched w))(k := Some Empty)"
    and "\<And>p. proc_slot_get w' p = (if p = q then NO_SLOT else proc_slot_get w p)"
  shows "map_ok w'"
  unfolding map_ok_def
proof (intro allI impI)
  fix p
  assume "proc_slot_get w' p \<noteq> NO_SLOT"
  then have p: "p \<noteq> q" "proc_slot_get w' p = proc_slot_get w p" "proc_slot_get w p \<noteq> NO_SLOT"
    using assms(4) by (auto split: if_splits)
  then have k: "kind_at (sw_sched w) (proc_slot_get w p) = Some (User p)"
    using assms(1) by (simp add: map_ok_def)
  with assms(2) p(1) have "proc_slot_get w p \<noteq> k" by auto
  with k show "kind_at (sw_sched w') (proc_slot_get w' p) = Some (User p)" by (simp add: assms(3) p(2))
qed

text \<open>The end of every switch: a dispatched scheduler state and a consistent process map.\<close>

lemma switch_inv:
  assumes "sc_inv s2" and "sc_current s2 = k" and "sw_sched w = s2" and "map_ok w"
  shows "sched_inv (switch_to c k w)"
proof -
  have "map_ok (switch_to c k w)" using assms(4) by (simp add: map_ok_def kind_at_harmless)
  moreover have "sc_inv (sw_sched (switch_to c k w))"
    using assms(1,3) by (simp add: sc_inv_harmless)
  ultimately show ?thesis using assms(2,3) by (simp add: sched_inv_def)
qed

lemma run_next_fields [simp]:
  "sw_sched (run_next c k s w) = (node_upd k (\<lambda>n. n\<lparr>tn_state := Running\<rparr>) s)\<lparr>sc_current := k\<rparr>"
  "proc_slot_get (run_next c k s w) = proc_slot_get w" "sw_sleepq (run_next c k s w) = sw_sleepq w"
  by (simp_all add: run_next_def)

lemma schedule_inv:
  assumes inv: "sched_inv w"
  shows "sched_inv (schedule w)"
proof (cases "slice_left (sw_sched w)")
  case True
  have "map_ok (w\<lparr>sw_sched := node_upd (sc_current (sw_sched w)) (\<lambda>n. n\<lparr>tn_quantum_left := tn_quantum_left n - 1\<rparr>) (sw_sched w)\<rparr>)"
    using sched_invD(4) [OF inv] by (simp add: map_ok_def kind_at_harmless)
  with True sched_invD [OF inv] show ?thesis
    by (simp add: schedule_def Let_def sched_inv_def sc_inv_harmless)
next
  case False
  let ?s = "requeue_current (sw_sched w)" and ?c = "sc_current (sw_sched w)"
  note rc = requeue_current_inv [OF sched_invD(1) [OF inv]]
  obtain pick s' where p: "find_next_ready_user ?s = (pick, s')" by fastforce
  note d = dispatch_inv [OF rc(1,2) p]
  show ?thesis
  proof (cases pick)
    case (Some t)
    have "sched_inv (switch_to ?c t (run_next ?c t s' w))"
      using d(1,2) Some rc(3) sched_invD(4) [OF inv]
      by (intro switch_inv) (auto simp: chosen_def map_ok_def)
    with False p Some show ?thesis by (simp add: schedule_def Let_def)
  next
    case None
    have s': "s' = ?s" "ready_slots ?s = {}" using d(4) None by auto
    have "?s = sw_sched w"
    proof (rule ccontr)
      assume "?s \<noteq> sw_sched w"
      then have "?c \<in> ready_slots ?s"
        by (auto simp: requeue_current_def ready_slots_def split: option.splits if_splits)
      with s'(2) show False by simp
    qed
    moreover have "node_upd ?c (\<lambda>n. if tn_state n = Ready then n\<lparr>tn_state := Running\<rparr> else n) (sw_sched w) = sw_sched w"
    proof -
      obtain n where n: "node_ref (sw_sched w) ?c = Some n" "tn_state n = Running \<or> tn_state n = Exited"
        using sched_invD(1) [OF inv] by (auto simp: sc_inv_def)
      then have "sc_nodes (sw_sched w) ! ?c = Some n" by (simp add: node_ref_def split: if_splits)
      then have "(sc_nodes (sw_sched w))[?c := Some n] = sc_nodes (sw_sched w)" by (metis list_update_id)
      then show ?thesis using n by (auto simp: node_upd_def)
    qed
    ultimately have "schedule w = w\<lparr>sw_sched := sw_sched w, sw_last_scheduled := ?c\<rparr>"
      using False p None s' by (simp add: schedule_def Let_def)
    then show ?thesis using inv by (simp add: sched_inv_def map_ok_def)
  qed
qed

lemma current_node:
  assumes "sc_inv s"
  obtains n where "node_ref s (sc_current s) = Some n" "tn_state n = Running \<or> tn_state n = Exited"
    "tn_kind n \<noteq> Empty" "is_user n \<longleftrightarrow> sc_current s \<noteq> 0"
proof -
  from assms obtain n where n: "node_ref s (sc_current s) = Some n" "tn_state n = Running \<or> tn_state n = Exited"
    by (auto simp: sc_inv_def)
  have "node_ok (set (sc_free s)) (sc_current s) n" "sc_current s \<notin> set (sc_free s)"
    using assms sc_coreD(4) [OF _ n(1)] by (simp_all add: sc_inv_def)
  then have "tn_kind n \<noteq> Empty" "is_user n \<longleftrightarrow> sc_current s \<noteq> 0"
    by (cases "tn_kind n"; auto simp: node_ok_def is_user_def)+
  with n show ?thesis by (intro that [of n])
qed

lemma block_inv:
  assumes inv: "sc_inv s" and u: "node_ref s (sc_current s) = Some n" "is_user n"
  defines "s1 \<equiv> (node_upd (sc_current s) (\<lambda>n. n\<lparr>tn_state := Blocked\<rparr>) s)\<lparr>sc_ready := snd (rq_remove (sc_ready s) (sc_current s))\<rparr>"
  shows "sc_core s1" and "no_user_running s1" and "kind_at s1 = kind_at s" and "ready_slots s1 = ready_slots s"
    and "map_option tn_state (node_ref s1 (sc_current s)) = Some Blocked"
proof -
  let ?c = "sc_current s" and ?n = "n\<lparr>tn_state := Blocked\<rparr>"
  have core: "sc_core s" using inv by (simp add: sc_inv_def)
  have cr: "?c \<notin> ready_slots s" using inv by (rule sc_inv_current)
  have ok: "node_ok (set (sc_free s)) ?c n" using sc_coreD(4) [OF core u(1)] .
  have nf: "?c \<notin> set (sc_free s)" using inv by (simp add: sc_inv_def)
  have c0: "?c \<noteq> 0" using ok u(2) by (auto simp: node_ok_def is_user_def)
  have ok': "node_ok (set (sc_free s)) ?c ?n" using ok u(2) nf by (auto simp: node_ok_def is_user_def)
  have nodes: "sc_nodes s1 = (sc_nodes s)[?c := Some ?n]" by (simp add: s1_def node_upd_nodes [OF u(1)])
  have fld: "sc_ready s1 = snd (rq_remove (sc_ready s) ?c)" "sc_free s1 = sc_free s" by (simp_all add: s1_def)
  note set = sc_core_set [OF core node_ref_length [OF u(1)] c0 rq_inv_bag(3) [OF core cr] _
      sc_coreD(3) [OF core] _ ok' nodes fld]
  show "sc_core s1" and "ready_slots s1 = ready_slots s"
    using set cr by (simp_all add: rq_inv_bag [OF core cr])
  have ref: "node_ref s1 j = (if j = ?c then Some ?n else node_ref s j)" for j
    using node_ref_length [OF u(1)] by (simp add: node_ref_def nodes)
  show "no_user_running s1" using inv by (auto simp: no_user_running_def ref sc_inv_def split: if_splits)
  show "kind_at s1 = kind_at s" using u(1) by (intro ext) (simp add: kind_at_def ref)
  show "map_option tn_state (node_ref s1 ?c) = Some Blocked" by (simp add: ref)
qed

lemma schedule_block_inv:
  assumes inv: "sched_inv w"
  shows "sched_inv (schedule_block w)"
proof -
  let ?s = "sw_sched w" let ?c = "sc_current ?s"
  obtain n where n: "node_ref ?s ?c = Some n" using current_node [OF sched_invD(1) [OF inv]] by metis
  show ?thesis
  proof (cases "is_user n")
    case True
    let ?s1 = "(node_upd ?c (\<lambda>n. n\<lparr>tn_state := Blocked\<rparr>) ?s)\<lparr>sc_ready := snd (rq_remove (sc_ready ?s) ?c)\<rparr>"
    note b = block_inv [OF sched_invD(1) [OF inv] n True]
    obtain pick s' where p: "find_next_ready_user ?s1 = (pick, s')" by fastforce
    note d = dispatch_inv [OF b(1,2) p]
    have "sched_inv (switch_to ?c (chosen pick) (run_next ?c (chosen pick) s' w))"
      using d(1,2) b(3) sched_invD(4) [OF inv] by (intro switch_inv) (auto simp: map_ok_def)
    with True n p show ?thesis by (simp add: schedule_block_def Let_def chosen_def)
  next
    case False
    with n inv show ?thesis by (simp add: schedule_block_def Let_def)
  qed
qed

lemma schedule_exit_inv:
  assumes inv: "sched_inv w" and cu: "sc_current (sw_sched w) \<noteq> 0"
  shows "sched_inv (schedule_exit w)"
proof -
  let ?s = "sw_sched w" let ?c = "sc_current ?s"
  obtain n where n: "node_ref ?s ?c = Some n" "is_user n"
    using current_node [OF sched_invD(1) [OF inv]] cu by metis
  then obtain q where q: "tn_kind n = User q" by (auto simp: is_user_def split: task_kind.splits)
  have nf: "?c \<notin> set (sc_free ?s)" using sched_invD(1) [OF inv] by (simp add: sc_inv_def)
  note r = retire_slot_inv [OF sched_invD(2) [OF inv] n(1) cu nf]
  have idle: "no_user_running (retire_slot ?c ?s)"
    using sched_invD(1) [OF inv] by (auto simp: no_user_running_def r(4) sc_inv_def split: if_splits)
  obtain pick s' where p: "find_next_ready_user (retire_slot ?c ?s) = (pick, s')" by fastforce
  note d = dispatch_inv [OF r(1) idle p]
  let ?w = "remove_sleep (sw_current_running w) w"
  have kq: "kind_at ?s ?c = Some (User q)" using n q by (simp add: kind_at_def)
  have "sched_inv (switch_to ?c (chosen pick) (proc_slot_set q NO_SLOT (run_next ?c (chosen pick) s' ?w)))"
  proof (rule switch_inv [OF d(1)])
    have "kind_at (sw_sched (run_next ?c (chosen pick) s' ?w)) = (kind_at ?s)(?c := Some Empty)"
      using d(2) r(3) by simp
    then show "map_ok (proc_slot_set q NO_SLOT (run_next ?c (chosen pick) s' ?w))"
      by (intro map_ok_retire [OF sched_invD(4) [OF inv] kq]) auto
  qed simp_all
  then show ?thesis using p n q by (simp add: schedule_exit_def Let_def chosen_def)
qed

lemma mark_current_exited_inv:
  assumes inv: "sched_inv w" and cu: "sc_current (sw_sched w) \<noteq> 0"
  shows "sched_inv (mark_current_exited w)"
proof -
  let ?s = "sw_sched w" let ?c = "sc_current ?s"
  obtain n where n: "node_ref ?s ?c = Some n" "is_user n"
    using current_node [OF sched_invD(1) [OF inv]] cu by metis
  note core = sched_invD(2) [OF inv]
  have cr: "?c \<notin> ready_slots ?s" using sched_invD(1) [OF inv] by (rule sc_inv_current)
  have nf: "?c \<notin> set (sc_free ?s)" using sched_invD(1) [OF inv] by (simp add: sc_inv_def)
  let ?n = "n\<lparr>tn_state := Exited\<rparr>" and ?s' = "node_upd ?c (\<lambda>n. n\<lparr>tn_state := Exited\<rparr>) ?s"
  have ok': "node_ok (set (sc_free ?s)) ?c ?n"
    using sc_coreD(4) [OF core n(1)] by (auto simp: node_ok_def is_user_def)
  have c: "sc_core ?s'"
    using ok' by (intro sc_core_set(1) [OF core node_ref_length [OF n(1)] cu, of _ ?n])
      (simp_all add: rq_inv_bag(5) [OF core cr] sc_coreD(1,3) [OF core] node_upd_nodes [OF n(1)])
  have "sc_inv ?s'" using sched_invD(1) [OF inv] c by (auto simp: sc_inv_def n split: if_splits)
  moreover have "map_ok ((remove_sleep (sw_current_running w) w)\<lparr>sw_sched := ?s'\<rparr>)"
    using sched_invD(4) [OF inv] by (simp add: map_ok_def kind_at_harmless)
  ultimately show ?thesis using sched_invD(3) [OF inv]
    by (simp add: mark_current_exited_def Let_def sched_inv_def)
qed

lemma mark_task_exited_inv:
  assumes inv: "sched_inv w" and other: "proc_slot_get w q \<noteq> sc_current (sw_sched w)"
  shows "sched_inv (mark_task_exited_by_proc q w)"
proof (cases "proc_slot_get w q = NO_SLOT")
  case True
  then show ?thesis using inv by (simp add: mark_task_exited_by_proc_def)
next
  case False
  let ?s = "sw_sched w" and ?k = "proc_slot_get w q"
  from sched_invD(4) [OF inv] False have kq: "kind_at ?s ?k = Some (User q)" by (simp add: map_ok_def)
  then obtain n where n: "node_ref ?s ?k = Some n" "tn_kind n = User q" by (auto simp: kind_at_def)
  have k: "?k \<noteq> 0" "?k \<notin> set (sc_free ?s)"
    using sc_coreD(4) [OF sched_invD(2) [OF inv] n(1)] n(2) by (auto simp: node_ok_def)
  note r = retire_slot_inv [OF sched_invD(2) [OF inv] n(1) k]
  have "sc_inv (retire_slot ?k ?s)"
    using sched_invD(1) [OF inv] r(1) other by (auto simp: sc_inv_def r(4,5,6) split: if_splits)
  moreover have "map_ok (proc_slot_set q NO_SLOT ((remove_sleep ?k w)\<lparr>sw_sched := retire_slot ?k ?s\<rparr>))"
    by (rule map_ok_retire [OF sched_invD(4) [OF inv] kq]) (auto simp: r(3))
  ultimately show ?thesis using False sched_invD(3) [OF inv]
    by (simp add: mark_task_exited_by_proc_def Let_def sched_inv_def r(5))
qed

lemma sched_inv_wake:
  assumes inv: "sched_inv w" and "sw_current_running w' = sw_current_running w"
    and "proc_slot_get w' = proc_slot_get w" and "sw_sched w' = snd (ready_blocked k (sw_sched w))"
  shows "sched_inv w'"
proof -
  note rb = ready_blocked_inv [OF sched_invD(1) [OF inv], of k]
  have "map_ok w'" using map_ok_cong [of w' w] assms sched_invD(4) [OF inv] rb(2) by simp
  with rb assms sched_invD(3) [OF inv] show ?thesis by (simp add: sched_inv_def)
qed

lemma wake_task_inv:
  assumes inv: "sched_inv w"
  shows "sched_inv (snd (wake_task p w))"
proof (cases "proc_slot_get w p = NO_SLOT")
  case True
  then show ?thesis using inv by (simp add: wake_task_def)
next
  case False
  let ?k = "proc_slot_get w p"
  have "snd (wake_task p w) = (remove_sleep ?k w)\<lparr>sw_sched := snd (ready_blocked ?k (sw_sched w))\<rparr>"
    using False by (simp add: wake_task_def Let_def split: prod.splits)
  then show ?thesis by (intro sched_inv_wake [OF inv]) simp_all
qed

lemma wake_slots_inv:
  "sched_inv w \<Longrightarrow> sched_inv (w\<lparr>sw_sched := wake_slots ks (sw_sched w)\<rparr>)"
proof (induction ks arbitrary: w)
  case Nil
  then show ?case by simp
next
  case (Cons k ks)
  let ?w = "w\<lparr>sw_sched := snd (ready_blocked k (sw_sched w))\<rparr>"
  have "sched_inv ?w" by (rule sched_inv_wake [OF Cons.prems]) simp_all
  from Cons.IH [OF this] show ?case by simp
qed

lemma sched_inv_sleepq: "sched_inv (w\<lparr>sw_sleepq := q\<rparr>) = sched_inv w"
  by (simp add: sched_inv_def map_ok_def)

lemma tick_sleep_queue_inv: "sched_inv w \<Longrightarrow> sched_inv (tick_sleep_queue qf sf now w)"
  using wake_slots_inv [of "w\<lparr>sw_sleepq := filter (\<lambda>e. \<not> snd e \<le> now) (sw_sleepq w)\<rparr>"]
  by (simp add: tick_sleep_queue_def Let_def sched_inv_sleepq)

lemma queue_sleep_inv: "sched_inv w \<Longrightarrow> sched_inv (queue_sleep k t w)"
  by (simp add: queue_sleep_def sched_inv_sleepq)

lemma sleep_until_inv: "sched_inv w \<Longrightarrow> sched_inv (sleep_until now t w)"
  by (simp add: sleep_until_def Let_def schedule_block_inv queue_sleep_inv)

lemma set_task_class_inv:
  assumes inv: "sched_inv w"
  shows "sched_inv (snd (set_task_class p c w))"
proof -
  let ?s = "sw_sched w" and ?k = "proc_slot_get w p"
  let ?f = "\<lambda>n. n\<lparr>tn_class := c, tn_quantum_left := quantum c\<rparr>"
  note core = sched_invD(2) [OF inv]
  consider (none) "?k = NO_SLOT \<or> node_ref ?s ?k = None \<or> kind_at ?s ?k = Some Empty"
    | (other) n where "?k \<noteq> NO_SLOT" "node_ref ?s ?k = Some n" "tn_kind n \<noteq> Empty" "tn_state n \<noteq> Ready"
    | (ready) n where "?k \<noteq> NO_SLOT" "node_ref ?s ?k = Some n" "tn_kind n \<noteq> Empty" "tn_state n = Ready"
    by (cases "node_ref ?s ?k") (auto simp: kind_at_def)
  then show ?thesis
  proof cases
    case none
    then have "snd (set_task_class p c w) = w"
      by (auto simp: set_task_class_def Let_def kind_at_def split: option.splits)
    with inv show ?thesis by simp
  next
    case (other n)
    have "map_ok (w\<lparr>sw_sched := node_upd ?k ?f ?s\<rparr>)"
      using sched_invD(4) [OF inv] by (simp add: map_ok_def kind_at_harmless)
    with sched_invD [OF inv] other show ?thesis
      by (simp add: set_task_class_def Let_def sched_inv_def sc_inv_harmless)
  next
    case (ready n)
    define s' where "s' = (node_upd ?k ?f ?s)\<lparr>sc_ready := rq_push (snd (rq_remove (sc_ready ?s) ?k)) ?k (class_priority c)\<rparr>"
    have eq: "snd (set_task_class p c w) = w\<lparr>sw_sched := s'\<rparr>"
      using ready by (simp add: set_task_class_def Let_def s'_def)
    have ok: "node_ok (set (sc_free ?s)) ?k n" using sc_coreD(4) [OF core ready(2)] .
    have k0: "?k \<noteq> 0" using ok ready(4) by (auto simp: node_ok_def is_user_def)
    have rm: "rq_inv (snd (rq_remove (sc_ready ?s) ?k))" "rq_bag (snd (rq_remove (sc_ready ?s) ?k)) = rq_bag (sc_ready ?s) - {#?k#}"
      using rq_tasks.remove_law [OF sc_coreD(1) [OF core], of ?k] by simp_all
    have "?k \<notin># rq_bag (sc_ready ?s) - {#?k#}" unfolding sc_coreD(2) [OF core]
      by (cases "?k \<in> ready_slots ?s") (simp_all add: not_in_iff)
    with rm have ps: "rq_inv (sc_ready s')" "rq_bag (sc_ready s') = add_mset ?k (rq_bag (sc_ready ?s) - {#?k#})"
      using rq_tasks.push_law [OF rm(1), of ?k "class_priority c"] by (simp_all add: s'_def)
    have nodes: "sc_nodes s' = (sc_nodes ?s)[?k := Some (?f n)]" by (simp add: s'_def node_upd_nodes [OF ready(2)])
    have ok': "node_ok (set (sc_free ?s)) ?k (?f n)" using ok by (simp add: node_ok_def is_user_def)
    have "sc_core s'"
      using sc_core_set(1) [OF core node_ref_length [OF ready(2)] k0 ps(1) _ sc_coreD(3) [OF core] _ ok' nodes refl] ps(2) ready(4)
      by (simp add: s'_def)
    moreover have ref: "node_ref s' j = (if j = ?k then Some (?f n) else node_ref ?s j)" for j
      using node_ref_length [OF ready(2)] by (simp add: node_ref_def nodes)
    ultimately have "sc_inv s'"
      using sched_invD(1) [OF inv] ready(2,4) by (auto simp: sc_inv_def ref s'_def split: if_splits)
    moreover have "kind_at s' = kind_at ?s" using ready(2) by (intro ext) (simp add: kind_at_def ref)
    then have "map_ok (w\<lparr>sw_sched := s'\<rparr>)" using sched_invD(4) [OF inv] by (simp add: map_ok_def)
    moreover have "sc_current s' = sc_current ?s" by (simp add: s'_def)
    ultimately show ?thesis unfolding eq using sched_invD(3) [OF inv] by (simp add: sched_inv_def)
  qed
qed

text \<open>A free slot that becomes a ready user task.\<close>

lemma claim_slot_inv:
  assumes inv: "sc_inv s" and k: "k \<in> set (sc_free s)" and fr: "distinct fr" "set fr = set (sc_free s) - {k}"
    and n: "tn_state n = Ready" "tn_kind n = User p"
    and s': "sc_nodes s' = (sc_nodes s)[k := Some n]" "sc_ready s' = rq_push (sc_ready s) k pr" "sc_free s' = fr"
      "sc_current s' = sc_current s"
  shows "sc_inv s'" and "kind_at s' = (kind_at s)(k := Some (User p))" and "k \<noteq> sc_current s"
    and "ready_slots s' = insert k (ready_slots s)" and "k \<notin> ready_slots s"
proof -
  have core: "sc_core s" using inv by (simp add: sc_inv_def)
  have len: "k < length (sc_nodes s)" using core k by (auto simp: sc_core_def)
  then obtain m where m: "node_ref s k = Some m" using core by (auto simp: sc_core_def)
  have ex: "tn_state m = Exited" using sc_coreD(4) [OF core m] k by (simp add: node_ok_def)
  have k0: "k \<noteq> 0" using sc_coreD(6) [OF core] k by metis
  show nr: "k \<notin> ready_slots s" using m ex by (simp add: ready_slots_def)
  have ok: "node_ok (set fr) k n" using n k0 by (simp add: node_ok_def fr(2) is_user_def)
  note set = sc_core_set [OF core len k0 rq_inv_bag(1) [OF core nr] _ fr(1) _ ok s'(1,2,3)]
  have c: "sc_core s'" and r: "ready_slots s' = insert k (ready_slots s)"
    using set n(1) nr by (simp_all add: rq_inv_bag [OF core nr] fr(2))
  show kc: "k \<noteq> sc_current s" using inv k by (auto simp: sc_inv_def)
  have ref: "node_ref s' j = (if j = k then Some n else node_ref s j)" for j
    using len by (simp add: node_ref_def s'(1))
  show "sc_inv s'" using inv c kc n(1) by (auto simp: sc_inv_def ref s'(3,4) fr(2) split: if_splits)
  show "kind_at s' = (kind_at s)(k := Some (User p))" by (intro ext) (simp add: kind_at_def ref n(2))
  show "ready_slots s' = insert k (ready_slots s)" by (rule r)
qed

text \<open>A fresh slot at the end of the table behaves like a free one.\<close>

lemma grow_inv:
  assumes inv: "sc_inv s" and m: "tn_state m = Exited" "tn_kind m = Empty"
  defines "s0 \<equiv> s\<lparr>sc_nodes := sc_nodes s @ [Some m], sc_free := sc_free s @ [length (sc_nodes s)]\<rparr>"
  shows "sc_inv s0" and "ready_slots s0 = ready_slots s"
    and "kind_at s0 = (kind_at s)(length (sc_nodes s) := Some Empty)"
proof -
  let ?k = "length (sc_nodes s)"
  have core: "sc_core s" using inv by (simp add: sc_inv_def)
  have ref: "node_ref s0 j = (if j = ?k then Some m else node_ref s j)" for j
    by (auto simp: node_ref_def s0_def nth_append)
  have len: "0 < ?k" using core by (auto simp: sc_core_def node_ref_def split: if_splits)
  have free: "?k \<notin> set (sc_free s)" using core by (auto simp: sc_core_def)
  have none: "node_ref s ?k = None" by (simp add: node_ref_def)
  show r: "ready_slots s0 = ready_slots s" using m none by (auto simp: ready_slots_def ref)
  have fs: "set (sc_free s0) = insert ?k (set (sc_free s))" by (simp add: s0_def)
  have "\<exists>n. node_ref s0 j = Some n \<and> node_ok (set (sc_free s0)) j n" if "j < length (sc_nodes s0)" for j
  proof (cases "j = ?k")
    case True
    then show ?thesis using m len by (simp add: ref node_ok_def fs)
  next
    case False
    with that have "j < ?k" by (simp add: s0_def)
    with core obtain n where "node_ref s j = Some n" "node_ok (set (sc_free s)) j n" by (auto simp: sc_core_def)
    with False show ?thesis by (simp add: ref node_ok_def fs)
  qed
  moreover have fld: "sc_ready s0 = sc_ready s" "distinct (sc_free s0)" "length (sc_nodes s0) = Suc ?k"
    "sc_current s0 = sc_current s" using free sc_coreD(3) [OF core] by (simp_all add: s0_def)
  moreover have "node_ref s0 0 = node_ref s 0" using len by (simp add: ref)
  ultimately have "sc_core s0" using core r by (auto simp: sc_core_def fs)
  moreover have "sc_current s \<noteq> ?k" using inv none by (auto simp: sc_inv_def)
  ultimately show "sc_inv s0" using inv m by (auto simp: sc_inv_def ref fld fs split: if_splits)
  show "kind_at s0 = (kind_at s)(?k := Some Empty)" by (intro ext) (simp add: kind_at_def ref m)
qed

lemma map_ok_claim:
  assumes "map_ok w" and "\<And>p. kind_at (sw_sched w) k \<noteq> Some (User p)"
    and "kind_at (sw_sched w') = (kind_at (sw_sched w))(k := Some (User q))"
    and "\<And>p. proc_slot_get w' p = (if p = q then k else proc_slot_get w p)"
  shows "map_ok w'"
  unfolding map_ok_def
proof (intro allI impI)
  fix p
  assume nz: "proc_slot_get w' p \<noteq> NO_SLOT"
  show "kind_at (sw_sched w') (proc_slot_get w' p) = Some (User p)"
  proof (cases "p = q")
    case False
    with nz assms(1,4) have h: "kind_at (sw_sched w) (proc_slot_get w p) = Some (User p)"
      by (simp add: map_ok_def)
    with assms(2) have "proc_slot_get w p \<noteq> k" by auto
    with h False show ?thesis by (simp add: assms(3,4))
  qed (simp add: assms(3,4))
qed

lemma allocate_spec:
  assumes inv: "sched_inv w"
  shows "\<exists>slot w'. allocate_user_slot p kst sp w = (Inr slot, w') \<and> sched_inv w' \<and>
    slot \<noteq> sc_current (sw_sched w) \<and> slot \<notin> ready_slots (sw_sched w) \<and>
    ready_slots (sw_sched w') = insert slot (ready_slots (sw_sched w)) \<and>
    (sc_free (sw_sched w) \<noteq> [] \<longrightarrow> slot = last (sc_free (sw_sched w)))"
proof -
  let ?s = "sw_sched w" and ?n = "(new_user p Normal sp)\<lparr>tn_kstack := of_nat kst\<rparr>"
  have n: "tn_state ?n = Ready" "tn_kind ?n = User p" "tn_class ?n = Normal" by (simp_all add: new_user_def)
  note si = sched_invD(1) [OF inv] note core = sched_invD(2) [OF inv]
  show ?thesis
  proof (cases "sc_free ?s = []")
    case True
    let ?k = "length (sc_nodes ?s)" and ?m = "?n\<lparr>tn_state := Exited, tn_kind := Empty\<rparr>"
    let ?sg = "?s\<lparr>sc_nodes := sc_nodes ?s @ [Some ?m], sc_free := sc_free ?s @ [?k]\<rparr>"
    note g = grow_inv [OF si, of ?m, simplified]
    define s' where "s' = ?s\<lparr>sc_nodes := sc_nodes ?s @ [Some ?n],
      sc_high_water := (if sc_high_water ?s \<le> ?k then ?k + 1 else sc_high_water ?s),
      sc_ready := rq_push (sc_ready ?s) ?k (class_priority Normal)\<rparr>"
    have eq: "allocate_user_slot p kst sp w = (Inr ?k, proc_slot_set p ?k (w\<lparr>sw_sched := s'\<rparr>))"
      using True by (simp add: allocate_user_slot_def Let_def node_ref_def node_upd_def s'_def n(3) cong: if_cong)
    note c = claim_slot_inv [OF g(1), of ?k "sc_free ?s" ?n p s' "class_priority Normal"]
    have c': "sc_inv s'" "kind_at s' = (kind_at ?sg)(?k := Some (User p))" "?k \<noteq> sc_current ?s"
      "ready_slots s' = insert ?k (ready_slots ?s)" "?k \<notin> ready_slots ?s"
      using c n True sc_coreD(3) [OF core] g(2) by (simp_all add: s'_def)
    have "map_ok (proc_slot_set p ?k (w\<lparr>sw_sched := s'\<rparr>))"
      using c'(2) g(3) by (intro map_ok_claim [OF sched_invD(4) [OF inv], of ?k _ p])
        (auto simp: kind_at_def [of ?s] node_ref_def)
    then have "sched_inv (proc_slot_set p ?k (w\<lparr>sw_sched := s'\<rparr>))"
      using c'(1) sched_invD(3) [OF inv] by (simp add: sched_inv_def s'_def)
    with eq c' True show ?thesis by simp
  next
    case False
    let ?k = "last (sc_free ?s)"
    have kf: "?k \<in> set (sc_free ?s)" using False by simp
    then have len: "?k < length (sc_nodes ?s)" using core by (auto simp: sc_core_def)
    then obtain m where m: "node_ref ?s ?k = Some m" using core by (auto simp: sc_core_def)
    define s' where "s' = ?s\<lparr>sc_free := butlast (sc_free ?s), sc_nodes := (sc_nodes ?s)[?k := Some ?n],
      sc_high_water := (if sc_high_water ?s \<le> ?k then ?k + 1 else sc_high_water ?s),
      sc_ready := rq_push (sc_ready ?s) ?k (class_priority Normal)\<rparr>"
    have eq: "allocate_user_slot p kst sp w = (Inr ?k, proc_slot_set p ?k (w\<lparr>sw_sched := s'\<rparr>))"
      using False m by (simp add: allocate_user_slot_def Let_def node_upd_def s'_def n(3) cong: if_cong)
    have app: "sc_free ?s = butlast (sc_free ?s) @ [?k]" using False by simp
    have fr: "distinct (butlast (sc_free ?s))" "set (butlast (sc_free ?s)) = set (sc_free ?s) - {?k}"
      using sc_coreD(3) [OF core] by (subst (asm) app, simp)
        (subst (2) app, use sc_coreD(3) [OF core] in \<open>subst (asm) app, auto\<close>)
    note c = claim_slot_inv [OF si kf fr n(1,2), of s' "class_priority Normal"]
    have c': "sc_inv s'" "kind_at s' = (kind_at ?s)(?k := Some (User p))" "?k \<noteq> sc_current ?s"
      "ready_slots s' = insert ?k (ready_slots ?s)" "?k \<notin> ready_slots ?s"
      using c by (simp_all add: s'_def)
    have em: "kind_at ?s ?k = Some Empty" using sc_coreD(4) [OF core m] kf m by (simp add: node_ok_def kind_at_def)
    have "map_ok (proc_slot_set p ?k (w\<lparr>sw_sched := s'\<rparr>))"
      using c'(2) em by (intro map_ok_claim [OF sched_invD(4) [OF inv], of ?k _ p]) auto
    then have "sched_inv (proc_slot_set p ?k (w\<lparr>sw_sched := s'\<rparr>))"
      using c'(1) sched_invD(3) [OF inv] by (simp add: sched_inv_def s'_def)
    with eq c' show ?thesis by simp
  qed
qed

section \<open>Runs of the scheduler\<close>

definition boot_world :: sched_world where
  "boot_world = sched_init
     \<lparr>sw_sched = scheduler_new, sw_proc_to_slot = [], sw_sleepq = [], sw_current_running = IDLE_SLOT,
      sw_last_scheduled = IDLE_SLOT, sw_pending_rsp0 = 0, sw_pending_fs_base = 0, sw_fs_msr = 0,
      sw_kernel_rsp0 = 0, sw_current_index = 0, sw_current_root = 0, sw_proc_root = (\<lambda>_. 0)\<rparr>"

text \<open>
  The calls the kernel makes, in any order. \<open>schedule_exit\<close> and \<open>mark_current_exited\<close> come from
  system calls of a user task, and \<open>start_first_task\<close> from the end of the boot, in the idle task.
  \<open>set_slot_process\<close> has no caller. The label of a step tells whether it is a process that
  removes its own task, which \<open>sys_kill\<close> does not prevent.
\<close>

inductive sched_step :: "bool \<Rightarrow> sched_world \<Rightarrow> sched_world \<Rightarrow> bool" where
  spawn: "allocate_user_slot p kst sp w = (r, w') \<Longrightarrow> sched_step False w w'"
| clone: "spawn_clone_task p kst sp tls w = (r, w') \<Longrightarrow> sched_step False w w'"
| start: "sc_current (sw_sched w) = IDLE_SLOT \<Longrightarrow> start_first_task w = Some w' \<Longrightarrow> sched_step False w w'"
| timer: "sched_step False w (schedule w)"
| block: "sched_step False w (schedule_block w)"
| exit: "sc_current (sw_sched w) \<noteq> IDLE_SLOT \<Longrightarrow> sched_step False w (schedule_exit w)"
| mark_exit: "sc_current (sw_sched w) \<noteq> IDLE_SLOT \<Longrightarrow> sched_step False w (mark_current_exited w)"
| kill: "sched_step (proc_slot_get w p = sc_current (sw_sched w)) w (remove_task p w)"
| wake: "sched_step False w (snd (wake_task p w))"
| sleep: "sched_step False w (sleep_until now t w)"
| sleep_tick: "sched_step False w (tick_sleep_queue q_free sched_free now w)"
| set_class: "sched_step False w (snd (set_task_class p c w))"
| set_fs: "sched_step False w (set_task_fs_base k v w)"
| set_sp: "sched_step False w (set_task_sp k a w)"

text \<open>The states of a run in which no process has removed its own task.\<close>

inductive sched_reachable :: "sched_world \<Rightarrow> bool" where
  boot: "sched_reachable boot_world"
| step: "sched_reachable w \<Longrightarrow> sched_step False w w' \<Longrightarrow> sched_reachable w'"

lemma boot_world_inv: "sched_inv boot_world"
proof -
  let ?s = "sw_sched boot_world"
  have nodes: "sc_nodes ?s = [Some new_idle]" "sc_ready ?s = rq_new" "sc_free ?s = []" "sc_current ?s = 0"
    by (simp_all add: boot_world_def sched_init_def scheduler_new_def IDLE_SLOT_def)
  have ref: "node_ref ?s k = (if k = 0 then Some new_idle else None)" for k
    by (simp add: node_ref_def nodes)
  have e: "ready_slots ?s = {}" by (auto simp: ready_slots_def ref new_idle_def)
  have c: "sc_core ?s"
    by (simp add: sc_core_def nodes ref e rq_new_inv node_ok_def) (simp add: new_idle_def)
  have i: "sc_inv ?s" using c by (simp add: sc_inv_def nodes ref) (simp add: new_idle_def)
  have "proc_slot_get boot_world p = NO_SLOT" for p
    by (simp add: proc_slot_get_def boot_world_def sched_init_def)
  then have "map_ok boot_world" by (simp add: map_ok_def)
  moreover have "sw_current_running boot_world = 0"
    by (simp add: boot_world_def sched_init_def IDLE_SLOT_def)
  ultimately show ?thesis using i by (simp add: sched_inv_def nodes(4))
qed

lemma sched_inv_fields:
  assumes "sched_inv w" and "\<And>n. tn_state (f n) = tn_state n" and "\<And>n. tn_kind (f n) = tn_kind n"
  shows "sched_inv (w\<lparr>sw_sched := node_upd k f (sw_sched w)\<rparr>)"
  using assms by (simp add: sched_inv_def sc_inv_harmless map_ok_def kind_at_harmless)

lemma start_first_task_inv:
  assumes inv: "sched_inv w" and idle: "sc_current (sw_sched w) = IDLE_SLOT" and start: "start_first_task w = Some w'"
  shows "sched_inv w'"
proof -
  note core = sched_invD(2) [OF inv]
  have "no_user_running (sw_sched w)"
    using sched_invD(1) [OF inv] idle by (auto simp: no_user_running_def sc_inv_def IDLE_SLOT_def)
  moreover obtain nxt s where p: "find_next_ready_user (sw_sched w) = (Some nxt, s)"
    using start by (auto simp: start_first_task_def split: prod.splits option.splits)
  ultimately have d: "sc_inv ((node_upd nxt (\<lambda>n. n\<lparr>tn_state := Running\<rparr>) s)\<lparr>sc_current := nxt\<rparr>)"
    "kind_at ((node_upd nxt (\<lambda>n. n\<lparr>tn_state := Running\<rparr>) s)\<lparr>sc_current := nxt\<rparr>) = kind_at (sw_sched w)"
    using dispatch_inv(1,2) [OF core _ p] by (simp_all add: chosen_def)
  have "s = (sw_sched w)\<lparr>sc_ready := sc_ready s\<rparr>" using p by (auto simp: find_next_ready_user_def split: prod.splits)
  then have "node_ref s = node_ref (sw_sched w)" by (metis node_ref_cong(2))
  then have "node_upd IDLE_SLOT (\<lambda>n. n\<lparr>tn_state := Running\<rparr>) s = s"
    using core idle_runs [of s] by (auto simp: sc_core_def IDLE_SLOT_def)
  then have "w' = switch_to IDLE_SLOT nxt (run_next IDLE_SLOT nxt s w)"
    using start p by (simp add: start_first_task_def Let_def)
  then show ?thesis
    using d sched_invD(4) [OF inv] by (auto intro!: switch_inv simp: map_ok_def)
qed

lemma spawn_clone_task_inv:
  assumes "sched_inv w" and "spawn_clone_task p kst sp tls w = (r, w')"
  shows "sched_inv w'"
proof -
  obtain slot w1 where a: "allocate_user_slot p kst sp w = (Inr slot, w1)" "sched_inv w1"
    using allocate_spec [OF assms(1), of p kst sp] by blast
  have "w' = (set_task_fs_base slot (of_nat tls) w1)\<lparr>sw_pending_rsp0 := of_nat kst\<rparr>"
    using assms(2) a(1) by (simp add: spawn_clone_task_def)
  moreover have "sched_inv (set_task_fs_base slot (of_nat tls) w1)"
    unfolding set_task_fs_base_def by (intro sched_inv_fields a(2)) simp_all
  moreover have "proc_slot_get (x\<lparr>sw_pending_rsp0 := v\<rparr>) = proc_slot_get x" for x v
    by (simp add: proc_slot_get_def fun_eq_iff)
  ultimately show ?thesis by (simp add: sched_inv_def map_ok_def)
qed

lemma sched_step_inv: "sched_step self w w' \<Longrightarrow> \<not> self \<Longrightarrow> sched_inv w \<Longrightarrow> sched_inv w'"
proof (induction rule: sched_step.induct)
  case (spawn p kst sp w r w')
  then show ?case using allocate_spec [OF spawn.prems(2), of p kst sp] by auto
next
  case (clone p kst sp tls w r w')
  show ?case by (rule spawn_clone_task_inv [OF clone.prems(2) clone.hyps])
next
  case (start w w')
  show ?case by (rule start_first_task_inv [OF start.prems(2) start.hyps])
next
  case (exit w)
  then show ?case by (intro schedule_exit_inv) (simp_all add: IDLE_SLOT_def)
next
  case (mark_exit w)
  then show ?case by (intro mark_current_exited_inv) (simp_all add: IDLE_SLOT_def)
qed (simp_all add: schedule_inv schedule_block_inv remove_task_def mark_task_exited_inv wake_task_inv sleep_until_inv tick_sleep_queue_inv set_task_class_inv set_task_fs_base_def set_task_sp_def sched_inv_fields)

lemma core_facts:
  assumes "sc_core s"
  shows "count (rq_bag (sc_ready s)) k = (if map_option tn_state (node_ref s k) = Some Ready then 1 else 0)"
    and "distinct (sc_free s)"
    and "node_ref s k = Some n \<Longrightarrow> tn_kind n = Empty \<longleftrightarrow> k \<in> set (sc_free s)"
proof -
  have "k \<in> ready_slots s \<longleftrightarrow> map_option tn_state (node_ref s k) = Some Ready" by (auto simp: ready_slots_def)
  then show "count (rq_bag (sc_ready s)) k = (if map_option tn_state (node_ref s k) = Some Ready then 1 else 0)"
    unfolding sc_coreD(2) [OF assms] by simp
qed (use sc_coreD(3,4) [OF assms] in \<open>auto simp: node_ok_def\<close>)

text \<open>What a process does to the scheduler that removes its own task: only the current slot goes wrong.\<close>

lemma self_kill_effect:
  assumes inv: "sched_inv w" and own: "proc_slot_get w p = sc_current (sw_sched w)" and "sc_current (sw_sched w) \<noteq> NO_SLOT"
  defines "s' \<equiv> sw_sched (remove_task p w)"
  shows "sc_core s'" and "sc_current s' = sc_current (sw_sched w)" and "sc_current s' \<in> set (sc_free s')"
    and "fst (allocate_user_slot q kst sp (remove_task p w)) = Inr (sc_current (sw_sched w))"
proof -
  let ?s = "sw_sched w" and ?c = "sc_current (sw_sched w)"
  have s': "s' = retire_slot ?c ?s"
    using own assms(3) by (simp add: s'_def remove_task_def mark_task_exited_by_proc_def Let_def)
  have "kind_at ?s ?c = Some (User p)" using sched_invD(4) [OF inv] own assms(3) by (metis map_ok_def)
  then obtain n where n: "node_ref ?s ?c = Some n" "tn_kind n = User p" by (auto simp: kind_at_def)
  have c: "?c \<noteq> 0" "?c \<notin> set (sc_free ?s)"
    using sc_coreD(4) [OF sched_invD(2) [OF inv] n(1)] n(2) by (auto simp: node_ok_def)
  note ret = retire_slot_inv [OF sched_invD(2) [OF inv] n(1) c]
  show "sc_core s'" "sc_current s' = ?c" "sc_current s' \<in> set (sc_free s')" using ret(1,5,6) by (simp_all add: s')
  show "fst (allocate_user_slot q kst sp (remove_task p w)) = Inr ?c"
    using ret(4,6) by (auto simp: allocate_user_slot_def Let_def s'_def [symmetric] s')
qed

lemma sched_reachable_inv: "sched_reachable w \<Longrightarrow> sched_inv w"
  by (induction rule: sched_reachable.induct) (auto intro: boot_world_inv sched_step_inv)

lemma schedule_block_effect:
  assumes inv: "sched_inv w" and cu: "sc_current (sw_sched w) \<noteq> IDLE_SLOT"
  defines "s \<equiv> sw_sched w" and "s' \<equiv> sw_sched (schedule_block w)"
  shows "map_option tn_state (node_ref s' (sc_current s)) = Some Blocked \<and>
    (if ready_slots s = {} then sc_current s' = IDLE_SLOT \<and> ready_slots s' = {}
     else sc_current s' \<in> ready_slots s \<and> ready_slots s' = ready_slots s - {sc_current s'})"
proof -
  note si = sched_invD(1) [OF inv, folded s_def]
  let ?c = "sc_current s"
  obtain n where n: "node_ref s ?c = Some n" "is_user n"
    using current_node [OF si] cu by (auto simp: s_def IDLE_SLOT_def)
  let ?s1 = "(node_upd ?c (\<lambda>n. n\<lparr>tn_state := Blocked\<rparr>) s)\<lparr>sc_ready := snd (rq_remove (sc_ready s) ?c)\<rparr>"
  note b = block_inv [OF si n]
  obtain pick s2 where p: "find_next_ready_user ?s1 = (pick, s2)" by fastforce
  note d = dispatch_inv [OF b(1,2) p]
  let ?s3 = "(node_upd (chosen pick) (\<lambda>n. n\<lparr>tn_state := Running\<rparr>) s2)\<lparr>sc_current := chosen pick\<rparr>"
  have s': "s' = node_upd ?c (\<lambda>n. n\<lparr>tn_fs_base := sw_fs_msr (run_next ?c (chosen pick) s2 w)\<rparr>) ?s3"
    using n p by (simp add: s'_def schedule_block_def s_def [symmetric] Let_def chosen_def)
  have r': "ready_slots s' = ready_slots ?s3" unfolding s' by (rule ready_slots_harmless) simp
  have c': "sc_current s' = chosen pick" by (simp add: s')
  have cr: "?c \<notin> ready_slots s" using sc_inv_current [OF si] .
  have nc: "chosen pick \<noteq> ?c"
  proof (cases pick)
    case None
    then show ?thesis using cu by (simp add: chosen_def s_def)
  next
    case (Some t)
    then have "t \<in> ready_slots s" using d(3) b(4) by simp
    with cr Some show ?thesis by (auto simp: chosen_def)
  qed
  have "s2 = ?s1\<lparr>sc_ready := sc_ready s2\<rparr>" using p by (auto simp: find_next_ready_user_def split: prod.splits)
  then have "node_ref s2 = node_ref ?s1" by (metis node_ref_cong(2))
  then have "map_option tn_state (node_ref s' ?c) = Some Blocked" using nc n(1) by (simp add: s')
  moreover have "if ready_slots s = {} then sc_current s' = IDLE_SLOT \<and> ready_slots s' = {}
     else sc_current s' \<in> ready_slots s \<and> ready_slots s' = ready_slots s - {sc_current s'}"
    using d(3,4) b(4) r' c' by (cases pick) (auto simp: chosen_def)
  ultimately show ?thesis by blast
qed

section \<open>Properties\<close>

text \<open>
  C2: The scheduler's invariant in every state that the kernel's calls reach as long as no process removes its
  own task: a task is in the ready queue exactly once when its state is Ready and not at all
  otherwise; the empty task nodes are exactly the slots of the free list, each listed once; no
  task but the idle task and the current one is Running, the current one is neither free nor
  queued, and it is the one recorded as running on the cpu; and the process map leads every
  process to a task of that process. A process that removes its own task leaves the queue and the
  free list exact, but the slot it still runs on is then in the free list.
\<close>

theorem scheduler_invariant:
  assumes "sched_reachable w"
  defines "s \<equiv> sw_sched w"
  shows "(\<forall>k. count (rq_bag (sc_ready s)) k = (if map_option tn_state (node_ref s k) = Some Ready then 1 else 0)) \<and>
    distinct (sc_free s) \<and> (\<forall>k n. node_ref s k = Some n \<longrightarrow> (tn_kind n = Empty \<longleftrightarrow> k \<in> set (sc_free s))) \<and>
    (\<forall>k n. node_ref s k = Some n \<and> tn_state n = Running \<longrightarrow> k = IDLE_SLOT \<or> k = sc_current s) \<and>
    sc_current s \<notin> set (sc_free s) \<and> sc_current s \<notin># rq_bag (sc_ready s) \<and> sw_current_running w = sc_current s \<and>
    (\<forall>p. proc_slot_get w p \<noteq> NO_SLOT \<longrightarrow> slot_to_process w (proc_slot_get w p) = p) \<and>
    (\<forall>p. proc_slot_get w p = sc_current s \<and> sc_current s \<noteq> NO_SLOT \<longrightarrow>
      (let s' = sw_sched (remove_task p w) in
        (\<forall>k. count (rq_bag (sc_ready s')) k = (if map_option tn_state (node_ref s' k) = Some Ready then 1 else 0)) \<and>
        distinct (sc_free s') \<and> (\<forall>k n. node_ref s' k = Some n \<longrightarrow> (tn_kind n = Empty \<longleftrightarrow> k \<in> set (sc_free s'))) \<and>
        sc_current s' = sc_current s \<and> sc_current s' \<in> set (sc_free s')))"
proof -
  have inv: "sched_inv w" using assms(1) by (rule sched_reachable_inv)
  note core = sched_invD(2) [OF inv, folded s_def]
  have p: "slot_to_process w (proc_slot_get w p) = p" if "proc_slot_get w p \<noteq> NO_SLOT" for p
    using sched_invD(4) [OF inv] that by (auto simp: map_ok_def kind_at_def slot_to_process_def)
  have q: "sc_current s \<notin># rq_bag (sc_ready s)"
    using sc_inv_current [OF sched_invD(1) [OF inv]] sc_coreD(5) [OF core] by (simp add: s_def)
  have i: "\<forall>k n. node_ref s k = Some n \<and> tn_state n = Running \<longrightarrow> k = IDLE_SLOT \<or> k = sc_current s"
    "sc_current s \<notin> set (sc_free s)" "sw_current_running w = sc_current s"
    using sched_invD(1,3) [OF inv, folded s_def] by (auto simp: sc_inv_def IDLE_SLOT_def)
  have k: "let s' = sw_sched (remove_task p w) in
      (\<forall>k. count (rq_bag (sc_ready s')) k = (if map_option tn_state (node_ref s' k) = Some Ready then 1 else 0)) \<and>
      distinct (sc_free s') \<and> (\<forall>k n. node_ref s' k = Some n \<longrightarrow> (tn_kind n = Empty \<longleftrightarrow> k \<in> set (sc_free s'))) \<and>
      sc_current s' = sc_current s \<and> sc_current s' \<in> set (sc_free s')"
    if "proc_slot_get w p = sc_current s \<and> sc_current s \<noteq> NO_SLOT" for p
    using self_kill_effect(1-3) [OF inv conjunct1 [OF that, unfolded s_def] conjunct2 [OF that, unfolded s_def]] core_facts
    unfolding Let_def s_def by blast
  show ?thesis by (intro conjI allI impI core_facts [OF core] i(2,3) p q k) (use i(1) in blast)+
qed

text \<open>
  C30: Blocking is work conserving: when a user task blocks in a reachable state (of a run in which no
  process has removed its own task), it is Blocked and
  another task runs at once if any is Ready, and the idle task only if none is; exactly the
  chosen task leaves the ready set.
\<close>

theorem schedule_block_work_conserving:
  assumes "sched_reachable w" and "sc_current (sw_sched w) \<noteq> IDLE_SLOT"
  defines "s \<equiv> sw_sched w" and "s' \<equiv> sw_sched (schedule_block w)"
  shows "map_option tn_state (node_ref s' (sc_current s)) = Some Blocked \<and>
    (if ready_slots s = {} then sc_current s' = IDLE_SLOT \<and> ready_slots s' = {}
     else sc_current s' \<in> ready_slots s \<and> ready_slots s' = ready_slots s - {sc_current s'})"
  unfolding s_def s'_def using schedule_block_effect [OF sched_reachable_inv [OF assms(1)] assms(2)] .

text \<open>
  C31: A new user task always gets a slot: in a state reached without a process removing its own task the
  allocation succeeds, never hands out the slot of the running task or of a queued one, prefers
  the most recently freed slot, and makes exactly this slot ready. Removing a task first changes
  this only for the process that runs: the next task to be spawned is given the slot that the
  cpu still runs on exactly if the removed task is the running one.
\<close>

theorem spawn_gets_fresh_slot:
  assumes "sched_reachable w"
  shows "(\<exists>slot w'. allocate_user_slot p kst sp w = (Inr slot, w') \<and> slot \<noteq> sc_current (sw_sched w) \<and>
    slot \<notin> ready_slots (sw_sched w) \<and> ready_slots (sw_sched w') = insert slot (ready_slots (sw_sched w)) \<and>
    (sc_free (sw_sched w) \<noteq> [] \<longrightarrow> slot = last (sc_free (sw_sched w)))) \<and>
    (\<forall>q. proc_slot_get w q \<noteq> NO_SLOT \<longrightarrow>
      sw_current_running (remove_task q w) = sc_current (sw_sched w) \<and>
      (fst (allocate_user_slot p kst sp (remove_task q w)) = Inr (sc_current (sw_sched w)) \<longleftrightarrow>
        proc_slot_get w q = sc_current (sw_sched w)))"
proof (intro conjI allI impI)
  note inv = sched_reachable_inv [OF assms]
  show "\<exists>slot w'. allocate_user_slot p kst sp w = (Inr slot, w') \<and> slot \<noteq> sc_current (sw_sched w) \<and>
    slot \<notin> ready_slots (sw_sched w) \<and> ready_slots (sw_sched w') = insert slot (ready_slots (sw_sched w)) \<and>
    (sc_free (sw_sched w) \<noteq> [] \<longrightarrow> slot = last (sc_free (sw_sched w)))"
    using allocate_spec [OF inv, of p kst sp] by blast
  fix q assume q: "proc_slot_get w q \<noteq> NO_SLOT"
  have run: "sw_current_running (remove_task q w) = sc_current (sw_sched w)"
    using sched_invD(3) [OF inv] by (simp add: remove_task_def mark_task_exited_by_proc_def Let_def)
  then show "sw_current_running (remove_task q w) = sc_current (sw_sched w)" .
  show "fst (allocate_user_slot p kst sp (remove_task q w)) = Inr (sc_current (sw_sched w)) \<longleftrightarrow>
      proc_slot_get w q = sc_current (sw_sched w)"
  proof (cases "proc_slot_get w q = sc_current (sw_sched w)")
    case True
    then show ?thesis using self_kill_effect(4) [OF inv True] q by simp
  next
    case False
    then have inv': "sched_inv (remove_task q w)" using mark_task_exited_inv [OF inv False] by (simp add: remove_task_def)
    then show ?thesis
      using allocate_spec [OF inv', of p kst sp] False sched_invD(3) [OF inv'] run by auto
  qed
qed

text \<open>
  A tick that finds the scheduler lock taken loses wake-ups: a blocked task whose sleep is due is
  dropped from the sleep queue but stays Blocked, and no later tick wakes it.
\<close>

theorem contended_tick_loses_wakeup:
  assumes "sched_reachable w" and due: "\<forall>e \<in> set (sw_sleepq w). fst e = k \<longrightarrow> snd e \<le> now"
    and blocked: "map_option tn_state (node_ref (sw_sched w) k) = Some Blocked"
  defines "w' \<equiv> tick_sleep_queue True False now w"
  shows "k \<notin> fst ` set (sw_sleepq w') \<and>
    map_option tn_state (node_ref (sw_sched (tick_sleep_queue q_free sched_free later w')) k) = Some Blocked"
proof -
  have inv: "sched_inv w'" using sched_reachable_inv [OF assms(1)] by (simp add: w'_def tick_sleep_queue_inv)
  have q: "k \<notin> fst ` set (sw_sleepq w')" and s: "sw_sched w' = sw_sched w"
    using due by (auto simp: w'_def tick_sleep_queue_def Let_def)
  have keep: "k \<notin> set ks \<Longrightarrow> node_ref (wake_slots ks s) k = node_ref s k" for ks s
    by (induction ks arbitrary: s) (auto simp: ready_blocked_def split: option.splits)
  have "sw_sched (tick_sleep_queue q_free sched_free later w') = sw_sched w' \<or>
    sw_sched (tick_sleep_queue q_free sched_free later w') =
      wake_slots (map fst (filter (\<lambda>e. snd e \<le> later) (sw_sleepq w'))) (sw_sched w')"
    by (simp add: tick_sleep_queue_def Let_def)
  moreover have "k \<notin> set (map fst (filter (\<lambda>e. snd e \<le> later) (sw_sleepq w')))" using q by auto
  ultimately show ?thesis using keep q s blocked by metis
qed

text \<open>One task of process 5, spawned and running; then asleep until time 100.\<close>

definition one_ready :: sched_world where
  "one_ready = snd (allocate_user_slot 5 0x8000 0x7000 boot_world)"

definition one_running :: sched_world where
  "one_running = schedule one_ready"

definition one_asleep :: sched_world where
  "one_asleep = sleep_until 0 100 one_running"

lemma one_task_reachable:
  "sched_reachable one_ready" "sched_reachable one_running" "sched_reachable one_asleep"
proof -
  show "sched_reachable one_ready"
    unfolding one_ready_def by (rule step [OF boot]) (metis spawn prod.collapse)
  then show "sched_reachable one_running" unfolding one_running_def by (rule step) (rule timer)
  then show "sched_reachable one_asleep" unfolding one_asleep_def by (rule step) (rule sleep)
qed

lemma one_ready_fields:
  "sc_nodes (sw_sched one_ready) = [Some new_idle, Some ((new_user 5 Normal 0x7000)\<lparr>tn_kstack := 0x8000\<rparr>)]"
  "sc_ready (sw_sched one_ready) = rq_push rq_new 1 (class_priority Normal)"
  "sc_current (sw_sched one_ready) = 0" "proc_slot_get one_ready 5 = 1" "sw_sleepq one_ready = []"
  by (simp_all add: one_ready_def allocate_user_slot_def boot_world_def sched_init_def scheduler_new_def
      Let_def node_ref_def node_upd_def new_user_def IDLE_SLOT_def)

lemma one_ready_pick: "\<exists>rq. pop_next (sc_ready (sw_sched one_ready)) = (Some 1, rq)"
proof -
  have "rq_inv (rq_push rq_new 1 (class_priority Normal)) \<and> rq_bag (rq_push rq_new 1 (class_priority Normal)) = {#1#}"
    using rq_push_bag [OF rq_new_inv(1), of 1] rq_new_inv(2) by simp
  with pop_next_cases [of "rq_push rq_new 1 (class_priority Normal)"] show ?thesis
    by (auto simp: one_ready_fields)
qed

lemma one_running_fields:
  "sc_current (sw_sched one_running) = 1" "proc_slot_get one_running 5 = 1" "sw_sleepq one_running = []"
  "ready_slots (sw_sched one_running) = {}" "sw_current_running one_running = 1"
  "map_option tn_kind (node_ref (sw_sched one_running) 1) = Some (User 5)"
proof -
  let ?s = "sw_sched one_ready"
  have "\<not> slice_left ?s" "requeue_current ?s = ?s"
    by (simp_all add: slice_left_def requeue_current_def node_ref_def one_ready_fields new_idle_def is_user_def)
  moreover obtain rq where rq: "pop_next (sc_ready ?s) = (Some 1, rq)" using one_ready_pick by blast
  ultimately have eq: "one_running = switch_to 0 1 (run_next 0 1 (?s\<lparr>sc_ready := rq\<rparr>) one_ready)"
    by (simp add: one_running_def schedule_def Let_def find_next_ready_user_def one_ready_fields(3))
  show "sc_current (sw_sched one_running) = 1" "proc_slot_get one_running 5 = 1" "sw_sleepq one_running = []"
    "sw_current_running one_running = 1"
    by (simp_all add: eq one_ready_fields)
  have ref: "map_option tn_state (node_ref (sw_sched one_running) k) =
    (if k = 0 then Some Running else if k = 1 then Some Running else None)" for k
    by (simp add: eq node_ref_def [of ?s] one_ready_fields new_user_def new_idle_def)
  then show "ready_slots (sw_sched one_running) = {}"
    by (auto simp: ready_slots_def) (metis option.map(2) option.inject option.distinct(1) task_state.distinct(1))
  show "map_option tn_kind (node_ref (sw_sched one_running) 1) = Some (User 5)"
    by (simp add: eq node_ref_def [of ?s] one_ready_fields new_user_def)
qed

lemma one_asleep_fields:
  "sw_sleepq one_asleep = [(1, 100)]" "map_option tn_state (node_ref (sw_sched one_asleep) 1) = Some Blocked"
proof -
  have act: "is_slot_active one_running 1" using one_running_fields(6) by (auto simp: is_slot_active_def)
  let ?w = "queue_sleep 1 100 one_running"
  have eq: "one_asleep = schedule_block ?w"
    using act by (simp add: one_asleep_def sleep_until_def one_running_fields Let_def)
  have w: "sw_sched ?w = sw_sched one_running" "sw_sleepq ?w = [(1, 100)]"
    by (simp_all add: queue_sleep_def one_running_fields)
  have inv: "sched_inv ?w" using sched_reachable_inv [OF one_task_reachable(2)] by (rule queue_sleep_inv)
  have sq: "sw_sleepq (schedule_block x) = sw_sleepq x" for x
    by (simp add: schedule_block_def Let_def split: option.split prod.split)
  show "sw_sleepq one_asleep = [(1, 100)]" unfolding eq sq by (rule w)
  show "map_option tn_state (node_ref (sw_sched one_asleep) 1) = Some Blocked"
    using schedule_block_effect [OF inv] w one_running_fields(1) by (simp add: eq IDLE_SLOT_def)
qed

theorem scheduler_invariant_witness:
  "sched_reachable one_running \<and> slot_to_process one_running 1 = 5 \<and> 1 \<notin># rq_bag (sc_ready (sw_sched one_running))"
proof -
  have "proc_slot_get one_running 5 \<noteq> NO_SLOT" by (simp add: one_running_fields NO_SLOT_def)
  with scheduler_invariant [OF one_task_reachable(2)]
  have "slot_to_process one_running (proc_slot_get one_running 5) = 5"
    "sc_current (sw_sched one_running) \<notin># rq_bag (sc_ready (sw_sched one_running))" by blast+
  with one_task_reachable(2) show ?thesis by (simp add: one_running_fields)
qed

theorem schedule_block_work_conserving_witness:
  "sc_current (sw_sched one_running) = 1 \<and> sc_current (sw_sched (schedule_block one_running)) = IDLE_SLOT"
  using schedule_block_work_conserving [OF one_task_reachable(2)] one_running_fields(1,4)
  by (simp add: IDLE_SLOT_def)

theorem spawn_gets_fresh_slot_witness:
  "(\<exists>slot w'. allocate_user_slot 6 0 0 one_running = (Inr slot, w') \<and> slot \<noteq> 1 \<and> ready_slots (sw_sched w') = {slot}) \<and>
   fst (allocate_user_slot 6 0 0 (remove_task 5 one_running)) = Inr 1"
  using spawn_gets_fresh_slot [OF one_task_reachable(2), of 6 0 0] one_running_fields(1,2,4) by (auto simp: NO_SLOT_def)

theorem contended_tick_loses_wakeup_witness:
  "map_option tn_state (node_ref (sw_sched (tick_sleep_queue True True 999 (tick_sleep_queue True False 100 one_asleep))) 1)
     = Some Blocked"
  using contended_tick_loses_wakeup [OF one_task_reachable(3), of 1 100 True True 999] one_asleep_fields by simp

end
