(* ===== verification/Pipe.thy ===== *)
theory Pipe
  imports Ring Scheduler
begin

text \<open>
  Anonymous pipes, \<open>kernel/src/driver/pipe.rs\<close>, and their blocking use in \<open>pipe_read\<close> and
  \<open>pipe_write\<close> of \<open>kernel/src/syscall/mod.rs\<close>. A pipe is a 4096-byte ring with a reader's and a
  writer's waiting place; the table counts the descriptors of each end.

  User memory is the environment: the bytes that \<open>user_read_u8\<close> returns are the argument \<open>mem\<close>, and
  the calls of \<open>user_write_u8\<close> are collected as a list of stores. Waking a task goes through the
  scheduler's \<open>wake_task\<close>.
\<close>

section \<open>Pipes\<close>

definition MAX_PIPES :: usize where "MAX_PIPES = 16"
definition PIPE_BUF_SIZE :: usize where "PIPE_BUF_SIZE = 4096"
definition EPIPE :: int where "EPIPE = - 32"

type_synonym stores = "(usize \<times> u8) list"

record pipe =
  pi_buffer :: "u8 list"
  pi_read_pos :: usize
  pi_write_pos :: usize
  pi_data_len :: usize
  pi_read_closed :: bool
  pi_write_closed :: bool
  pi_reader_blocked :: usize
  pi_writer_blocked :: usize

definition pi_new :: pipe where
  "pi_new = \<lparr>pi_buffer = replicate PIPE_BUF_SIZE 0, pi_read_pos = 0, pi_write_pos = 0, pi_data_len = 0,
     pi_read_closed = False, pi_write_closed = False,
     pi_reader_blocked = USIZE_MAX, pi_writer_blocked = USIZE_MAX\<rparr>"

text \<open>The task taken out of a waiting place is woken, if there was one.\<close>

definition wake_waiter :: "usize \<Rightarrow> sched_world \<Rightarrow> sched_world" where
  "wake_waiter who w = (if who \<noteq> USIZE_MAX then snd (wake_task who w) else w)"

definition out_byte :: "usize \<Rightarrow> usize \<Rightarrow> stores \<times> pipe \<Rightarrow> stores \<times> pipe" where
  "out_byte buf i sp =
    (let p = snd sp; byte = pi_buffer p ! pi_read_pos p in
     (fst sp @ [(wadd buf i, byte)], p\<lparr>pi_read_pos := (pi_read_pos p + 1) mod PIPE_BUF_SIZE\<rparr>))"

definition pi_read :: "usize \<Rightarrow> usize \<Rightarrow> pipe \<Rightarrow> sched_world \<Rightarrow> (int \<times> stores) \<times> pipe \<times> sched_world" where
  "pi_read buf len p w =
    (if len = 0 \<or> buf = 0 then ((0, []), p, w)
     else if pi_data_len p = 0 then ((if pi_write_closed p then 0 else - 1, []), p, w)
     else
       let to_read = min len (pi_data_len p);
           (st, p1) = fold (out_byte buf) [0..<to_read] ([], p);
           p2 = p1\<lparr>pi_data_len := pi_data_len p1 - to_read\<rparr>
       in if to_read > 0
          then ((int to_read, st), p2\<lparr>pi_writer_blocked := USIZE_MAX\<rparr>, wake_waiter (pi_writer_blocked p2) w)
          else ((int to_read, st), p2, w))"

definition in_byte :: "(usize \<Rightarrow> u8) \<Rightarrow> usize \<Rightarrow> usize \<Rightarrow> pipe \<Rightarrow> pipe" where
  "in_byte mem buf i p =
    p\<lparr>pi_buffer := (pi_buffer p)[pi_write_pos p := mem (wadd buf i)],
      pi_write_pos := (pi_write_pos p + 1) mod PIPE_BUF_SIZE\<rparr>"

definition pi_write ::
  "(usize \<Rightarrow> u8) \<Rightarrow> usize \<Rightarrow> usize \<Rightarrow> pipe \<Rightarrow> sched_world \<Rightarrow> int \<times> pipe \<times> sched_world" where
  "pi_write mem buf len p w =
    (if len = 0 \<or> buf = 0 then (0, p, w)
     else if pi_read_closed p then (EPIPE, p, w)
     else let available = wsub PIPE_BUF_SIZE (pi_data_len p) in
       if available = 0 then (- 1, p, w)
       else
         let to_write = min len available;
             p1 = fold (in_byte mem buf) [0..<to_write] p;
             p2 = p1\<lparr>pi_data_len := pi_data_len p1 + to_write\<rparr>
         in if to_write > 0
            then (int to_write, p2\<lparr>pi_reader_blocked := USIZE_MAX\<rparr>, wake_waiter (pi_reader_blocked p2) w)
            else (int to_write, p2, w))"

definition has_data :: "pipe \<Rightarrow> bool" where
  "has_data p \<longleftrightarrow> pi_data_len p > 0"

definition has_space :: "pipe \<Rightarrow> bool" where
  "has_space p \<longleftrightarrow> pi_data_len p < PIPE_BUF_SIZE"

definition pi_close_read :: "pipe \<Rightarrow> sched_world \<Rightarrow> pipe \<times> sched_world" where
  "pi_close_read p w =
    (p\<lparr>pi_read_closed := True, pi_writer_blocked := USIZE_MAX\<rparr>, wake_waiter (pi_writer_blocked p) w)"

definition pi_close_write :: "pipe \<Rightarrow> sched_world \<Rightarrow> pipe \<times> sched_world" where
  "pi_close_write p w =
    (p\<lparr>pi_write_closed := True, pi_reader_blocked := USIZE_MAX\<rparr>, wake_waiter (pi_reader_blocked p) w)"

definition set_reader_blocked :: "usize \<Rightarrow> pipe \<Rightarrow> pipe" where
  "set_reader_blocked proc p = p\<lparr>pi_reader_blocked := proc\<rparr>"

definition set_writer_blocked :: "usize \<Rightarrow> pipe \<Rightarrow> pipe" where
  "set_writer_blocked proc p = p\<lparr>pi_writer_blocked := proc\<rparr>"

definition is_fully_closed :: "pipe \<Rightarrow> bool" where
  "is_fully_closed p \<longleftrightarrow> pi_read_closed p \<and> pi_write_closed p"

section \<open>The pipe table\<close>

text \<open>The counts of open descriptors are far below \<open>2 ^ 64\<close> and do not wrap.\<close>

record pipe_world =
  pw_table :: "pipe option list"
  pw_refs :: "(usize \<times> usize) list"
  pw_sched :: sched_world

definition alloc_pipe :: "pipe_world \<Rightarrow> usize option \<times> pipe_world" where
  "alloc_pipe pw =
    (case find (\<lambda>i. pw_table pw ! i = None) [0..<length (pw_table pw)] of
       None \<Rightarrow> (None, pw)
     | Some i \<Rightarrow> (Some i, pw\<lparr>pw_table := (pw_table pw)[i := Some pi_new], pw_refs := (pw_refs pw)[i := (1, 1)]\<rparr>))"

text \<open>An index past the table panics; an unused slot gives \<open>None\<close>.\<close>

definition with_pipe ::
  "usize \<Rightarrow> (pipe \<Rightarrow> sched_world \<Rightarrow> 'r \<times> pipe \<times> sched_world) \<Rightarrow> pipe_world \<Rightarrow> ('r option \<times> pipe_world) panicking" where
  "with_pipe pid f pw =
    (if pid < length (pw_table pw) then
       (case pw_table pw ! pid of
          None \<Rightarrow> Some (None, pw)
        | Some p \<Rightarrow> (case f p (pw_sched pw) of
            (r, p', w) \<Rightarrow> Some (Some r, pw\<lparr>pw_table := (pw_table pw)[pid := Some p'], pw_sched := w\<rparr>)))
     else None)"

definition pipe_available :: "usize \<Rightarrow> pipe_world \<Rightarrow> usize panicking" where
  "pipe_available pid pw =
    (if pid < length (pw_table pw) then
       Some (case pw_table pw ! pid of Some p \<Rightarrow> pi_data_len p | None \<Rightarrow> 0)
     else None)"

definition inc_read :: "usize \<Rightarrow> pipe_world \<Rightarrow> pipe_world panicking" where
  "inc_read pid pw =
    (if pid < length (pw_refs pw) then
       Some (pw\<lparr>pw_refs := (pw_refs pw)[pid := (fst (pw_refs pw ! pid) + 1, snd (pw_refs pw ! pid))]\<rparr>)
     else None)"

definition inc_write :: "usize \<Rightarrow> pipe_world \<Rightarrow> pipe_world panicking" where
  "inc_write pid pw =
    (if pid < length (pw_refs pw) then
       Some (pw\<lparr>pw_refs := (pw_refs pw)[pid := (fst (pw_refs pw ! pid), snd (pw_refs pw ! pid) + 1)]\<rparr>)
     else None)"

definition try_free :: "usize \<Rightarrow> pipe_world \<Rightarrow> pipe_world" where
  "try_free pid pw = (if pw_refs pw ! pid = (0, 0) then pw\<lparr>pw_table := (pw_table pw)[pid := None]\<rparr> else pw)"

definition close_read :: "usize \<Rightarrow> pipe_world \<Rightarrow> pipe_world panicking" where
  "close_read pid pw =
    (if pid < length (pw_refs pw) then
       let (r, wr) = pw_refs pw ! pid;
           r' = (if r > 0 then r - 1 else r);
           pw1 = pw\<lparr>pw_refs := (pw_refs pw)[pid := (r', wr)]\<rparr>
       in if r' = 0
          then do { (_, pw2) \<leftarrow> with_pipe pid (\<lambda>p w. ((), pi_close_read p w)) pw1; Some (try_free pid pw2) }
          else Some pw1
     else None)"

definition close_write :: "usize \<Rightarrow> pipe_world \<Rightarrow> pipe_world panicking" where
  "close_write pid pw =
    (if pid < length (pw_refs pw) then
       let (r, wr) = pw_refs pw ! pid;
           wr' = (if wr > 0 then wr - 1 else wr);
           pw1 = pw\<lparr>pw_refs := (pw_refs pw)[pid := (r, wr')]\<rparr>
       in if wr' = 0
          then do { (_, pw2) \<leftarrow> with_pipe pid (\<lambda>p w. ((), pi_close_write p w)) pw1; Some (try_free pid pw2) }
          else Some pw1
     else None)"

section \<open>Blocking reads and writes\<close>

definition ERR_INVAL :: int where "ERR_INVAL = - 22"

text \<open>
  One turn of the loop of \<open>pipe_read\<close> and \<open>pipe_write\<close>: it returns a value, or the calling process
  is entered in the waiting place and blocks; after it is woken the next turn begins.
\<close>

datatype turn = Return int stores | Blocks

definition pipe_read :: "usize \<Rightarrow> usize \<Rightarrow> usize \<Rightarrow> pipe_world \<Rightarrow> (turn \<times> pipe_world) panicking" where
  "pipe_read pid buf len pw = do {
     (res, pw1) \<leftarrow> with_pipe pid (pi_read buf len) pw;
     (case res of
        Some (n, st) \<Rightarrow>
          if n = - 1 then do {
            let proc = sw_current_index (pw_sched pw1);
            (_, pw2) \<leftarrow> with_pipe pid (\<lambda>p w. ((), set_reader_blocked proc p, w)) pw1;
            Some (Blocks, pw2\<lparr>pw_sched := schedule_block (pw_sched pw2)\<rparr>) }
          else Some (Return n st, pw1)
      | None \<Rightarrow> Some (Return ERR_INVAL [], pw1)) }"

definition pipe_write ::
  "(usize \<Rightarrow> u8) \<Rightarrow> usize \<Rightarrow> usize \<Rightarrow> usize \<Rightarrow> pipe_world \<Rightarrow> (turn \<times> pipe_world) panicking" where
  "pipe_write mem pid buf len pw = do {
     (res, pw1) \<leftarrow> with_pipe pid (pi_write mem buf len) pw;
     (case res of
        Some n \<Rightarrow>
          if n = EPIPE then Some (Return n [], pw1)
          else if n = - 1 then do {
            let proc = sw_current_index (pw_sched pw1);
            (_, pw2) \<leftarrow> with_pipe pid (\<lambda>p w. ((), set_writer_blocked proc p, w)) pw1;
            Some (Blocks, pw2\<lparr>pw_sched := schedule_block (pw_sched pw2)\<rparr>) }
          else Some (Return n [], pw1)
      | None \<Rightarrow> Some (Return ERR_INVAL [], pw1)) }"

section \<open>The ring of a pipe\<close>

definition pi_ok :: "pipe \<Rightarrow> bool" where
  "pi_ok p \<longleftrightarrow> length (pi_buffer p) = PIPE_BUF_SIZE \<and> pi_read_pos p < PIPE_BUF_SIZE \<and>
    pi_data_len p \<le> PIPE_BUF_SIZE \<and> pi_write_pos p = (pi_read_pos p + pi_data_len p) mod PIPE_BUF_SIZE"

definition pi_contents :: "pipe \<Rightarrow> u8 list" where
  "pi_contents p = ring_window (pi_buffer p) (pi_read_pos p) (pi_data_len p)"

lemma PIPE_BUF_SIZE_pos: "0 < PIPE_BUF_SIZE" "PIPE_BUF_SIZE < 2 ^ 64"
  by (simp_all add: PIPE_BUF_SIZE_def)

lemma pi_new_ok: "pi_ok pi_new" "pi_contents pi_new = []"
  using PIPE_BUF_SIZE_pos by (simp_all add: pi_ok_def pi_new_def pi_contents_def)

lemma length_pi_contents [simp]: "length (pi_contents p) = pi_data_len p"
  by (simp add: pi_contents_def)

lemma pi_contents_cong [simp]:
  "pi_contents (p\<lparr>pi_reader_blocked := a\<rparr>) = pi_contents p" "pi_contents (p\<lparr>pi_writer_blocked := a\<rparr>) = pi_contents p"
  "pi_contents (p\<lparr>pi_read_closed := b\<rparr>) = pi_contents p" "pi_contents (p\<lparr>pi_write_closed := b\<rparr>) = pi_contents p"
  "pi_ok (p\<lparr>pi_reader_blocked := a\<rparr>) = pi_ok p" "pi_ok (p\<lparr>pi_writer_blocked := a\<rparr>) = pi_ok p"
  "pi_ok (p\<lparr>pi_read_closed := b\<rparr>) = pi_ok p" "pi_ok (p\<lparr>pi_write_closed := b\<rparr>) = pi_ok p"
  by (simp_all add: pi_contents_def pi_ok_def)

lemma out_bytes:
  assumes "pi_ok p"
  shows "fold (out_byte buf) [0..<n] ([], p) =
    (map (\<lambda>i. (wadd buf i, pi_buffer p ! ((pi_read_pos p + i) mod PIPE_BUF_SIZE))) [0..<n],
     p\<lparr>pi_read_pos := (pi_read_pos p + n) mod PIPE_BUF_SIZE\<rparr>)"
proof (induction n)
  case 0
  then show ?case using assms by (simp add: pi_ok_def)
next
  case (Suc n)
  then show ?case by (simp add: out_byte_def mod_simps)
qed

text \<open>The stores of \<open>n\<close> bytes from address \<open>buf\<close> on.\<close>

definition stores_at :: "usize \<Rightarrow> u8 list \<Rightarrow> stores" where
  "stores_at buf bytes = zip (map (wadd buf) [0..<length bytes]) bytes"

lemma map_snd_stores_at [simp]: "map snd (stores_at buf bytes) = bytes"
  by (simp add: stores_at_def)

lemma out_bytes_window:
  assumes "pi_ok p"
  shows "fold (out_byte buf) [0..<n] ([], p) =
    (stores_at buf (ring_window (pi_buffer p) (pi_read_pos p) n),
     p\<lparr>pi_read_pos := (pi_read_pos p + n) mod PIPE_BUF_SIZE\<rparr>)"
  using assms by (auto simp: out_bytes stores_at_def pi_ok_def intro!: nth_equalityI)

text \<open>What a read does when it returns data: the oldest bytes go to the buffer and leave the pipe.\<close>

lemma pi_read_data:
  assumes "pi_ok p" and "len \<noteq> 0" and "buf \<noteq> 0" and "pi_data_len p \<noteq> 0"
  defines "n \<equiv> min len (pi_data_len p)"
  shows "\<exists>p'. pi_read buf len p w =
      ((int n, stores_at buf (take n (pi_contents p))), p', wake_waiter (pi_writer_blocked p) w) \<and>
    pi_ok p' \<and> pi_contents p' = drop n (pi_contents p) \<and>
    pi_reader_blocked p' = pi_reader_blocked p \<and> pi_writer_blocked p' = USIZE_MAX \<and>
    pi_read_closed p' = pi_read_closed p \<and> pi_write_closed p' = pi_write_closed p"
proof -
  have n: "n \<le> pi_data_len p" "0 < n" using assms by (auto simp: n_def)
  let ?p' = "p\<lparr>pi_read_pos := (pi_read_pos p + n) mod PIPE_BUF_SIZE, pi_data_len := pi_data_len p - n,
    pi_writer_blocked := USIZE_MAX\<rparr>"
  have t: "take n (pi_contents p) = ring_window (pi_buffer p) (pi_read_pos p) n"
    using n by (simp add: pi_contents_def take_ring_window)
  have "pi_read buf len p w =
      ((int n, stores_at buf (take n (pi_contents p))), ?p', wake_waiter (pi_writer_blocked p) w)"
    using assms n by (simp add: pi_read_def out_bytes_window Let_def t flip: n_def)
  moreover have "((pi_read_pos p + n) mod PIPE_BUF_SIZE + (pi_data_len p - n)) mod PIPE_BUF_SIZE =
      (pi_read_pos p + pi_data_len p) mod PIPE_BUF_SIZE"
    unfolding mod_add_left_eq using n by simp
  then have "pi_ok ?p'"
    using assms(1) n PIPE_BUF_SIZE_pos(1) by (auto simp: pi_ok_def)
  moreover have "pi_contents ?p' = drop n (pi_contents p)"
    using assms(1) by (simp add: pi_contents_def drop_ring_window pi_ok_def)
  ultimately show ?thesis by (intro exI [of _ ?p']) simp
qed

lemma in_bytes:
  assumes "pi_ok p" and "pi_data_len p + n \<le> PIPE_BUF_SIZE"
  shows "\<exists>buf'. fold (in_byte mem buf) [0..<n] p =
      p\<lparr>pi_buffer := buf', pi_write_pos := (pi_write_pos p + n) mod PIPE_BUF_SIZE\<rparr> \<and>
    length buf' = PIPE_BUF_SIZE \<and>
    ring_window buf' (pi_read_pos p) (pi_data_len p + n) = pi_contents p @ map (\<lambda>i. mem (wadd buf i)) [0..<n]"
  using assms(2)
proof (induction n)
  case 0
  then show ?case using assms(1) PIPE_BUF_SIZE_pos(1)
    by (intro exI [of _ "pi_buffer p"]) (simp add: pi_ok_def pi_contents_def)
next
  case (Suc n)
  then obtain buf' where b: "fold (in_byte mem buf) [0..<n] p =
      p\<lparr>pi_buffer := buf', pi_write_pos := (pi_write_pos p + n) mod PIPE_BUF_SIZE\<rparr>"
    "length buf' = PIPE_BUF_SIZE"
    "ring_window buf' (pi_read_pos p) (pi_data_len p + n) = pi_contents p @ map (\<lambda>i. mem (wadd buf i)) [0..<n]"
    by auto
  let ?j = "(pi_write_pos p + n) mod PIPE_BUF_SIZE"
  have j: "?j = (pi_read_pos p + (pi_data_len p + n)) mod length buf'"
    using assms(1) by (simp add: pi_ok_def b(2) mod_simps ac_simps)
  have "ring_window (buf'[?j := mem (wadd buf n)]) (pi_read_pos p) (Suc (pi_data_len p + n)) =
    ring_window buf' (pi_read_pos p) (pi_data_len p + n) @ [mem (wadd buf n)]"
    unfolding j using Suc.prems b(2) by (intro ring_window_put) simp
  moreover have "in_byte mem buf n (p\<lparr>pi_buffer := buf', pi_write_pos := ?j\<rparr>) =
      p\<lparr>pi_buffer := buf'[?j := mem (wadd buf n)], pi_write_pos := (pi_write_pos p + Suc n) mod PIPE_BUF_SIZE\<rparr>"
    by (simp add: in_byte_def mod_simps)
  ultimately show ?case using b
    by (intro exI [of _ "buf'[?j := mem (wadd buf n)]"]) simp
qed

lemma pi_write_data:
  assumes "pi_ok p" and "len \<noteq> 0" and "buf \<noteq> 0" and "\<not> pi_read_closed p" and "pi_data_len p < PIPE_BUF_SIZE"
  defines "n \<equiv> min len (PIPE_BUF_SIZE - pi_data_len p)"
  shows "\<exists>p'. pi_write mem buf len p w = (int n, p', wake_waiter (pi_reader_blocked p) w) \<and>
    pi_ok p' \<and> pi_contents p' = pi_contents p @ map (\<lambda>i. mem (wadd buf i)) [0..<n] \<and>
    pi_reader_blocked p' = USIZE_MAX \<and> pi_writer_blocked p' = pi_writer_blocked p \<and>
    pi_read_closed p' = pi_read_closed p \<and> pi_write_closed p' = pi_write_closed p"
proof -
  have n: "0 < n" "pi_data_len p + n \<le> PIPE_BUF_SIZE" using assms by (auto simp: n_def)
  have av: "wsub PIPE_BUF_SIZE (pi_data_len p) = PIPE_BUF_SIZE - pi_data_len p"
    using assms PIPE_BUF_SIZE_pos by (intro wsub_eq) auto
  obtain buf' where b: "fold (in_byte mem buf) [0..<n] p =
      p\<lparr>pi_buffer := buf', pi_write_pos := (pi_write_pos p + n) mod PIPE_BUF_SIZE\<rparr>"
    "length buf' = PIPE_BUF_SIZE"
    "ring_window buf' (pi_read_pos p) (pi_data_len p + n) = pi_contents p @ map (\<lambda>i. mem (wadd buf i)) [0..<n]"
    using in_bytes [OF assms(1) n(2)] by blast
  let ?p' = "p\<lparr>pi_buffer := buf', pi_write_pos := (pi_write_pos p + n) mod PIPE_BUF_SIZE,
    pi_data_len := pi_data_len p + n, pi_reader_blocked := USIZE_MAX\<rparr>"
  have "pi_write mem buf len p w = (int n, ?p', wake_waiter (pi_reader_blocked p) w)"
    using assms n b(1) by (simp add: pi_write_def Let_def av flip: n_def)
  moreover have "pi_ok ?p'"
    using assms(1) n b(2) by (simp add: pi_ok_def mod_add_left_eq add.assoc)
  moreover have "pi_contents ?p' = pi_contents p @ map (\<lambda>i. mem (wadd buf i)) [0..<n]"
    using b(3) by (simp add: pi_contents_def)
  ultimately show ?thesis by (intro exI [of _ ?p']) simp
qed

lemma pi_write_full:
  assumes "pi_ok p" and "len \<noteq> 0" and "buf \<noteq> 0" and "\<not> pi_read_closed p" and "\<not> pi_data_len p < PIPE_BUF_SIZE"
  shows "pi_write mem buf len p w = (- 1, p, w)"
proof -
  have "pi_data_len p = PIPE_BUF_SIZE" using assms by (simp add: pi_ok_def)
  then have "wsub PIPE_BUF_SIZE (pi_data_len p) = 0" using PIPE_BUF_SIZE_pos by (simp add: wsub_eq)
  with assms show ?thesis by (simp add: pi_write_def Let_def)
qed

section \<open>A pipe as a stream\<close>

text \<open>The calls on a pipe, and the bytes each of them takes in and hands out.\<close>

datatype pipe_call =
  Read_Call usize usize
| Write_Call "usize \<Rightarrow> u8" usize usize
| Close_Read
| Close_Write

fun pipe_step :: "pipe_call \<Rightarrow> pipe \<times> sched_world \<Rightarrow> pipe \<times> sched_world" where
  "pipe_step (Read_Call buf len) (p, w) = snd (pi_read buf len p w)"
| "pipe_step (Write_Call mem buf len) (p, w) = snd (pi_write mem buf len p w)"
| "pipe_step Close_Read (p, w) = pi_close_read p w"
| "pipe_step Close_Write (p, w) = pi_close_write p w"

fun bytes_in :: "pipe_call \<Rightarrow> pipe \<times> sched_world \<Rightarrow> u8 list" where
  "bytes_in (Write_Call mem buf len) (p, w) =
     map (\<lambda>i. mem (wadd buf i)) [0..<nat (fst (pi_write mem buf len p w))]"
| "bytes_in _ _ = []"

fun bytes_out :: "pipe_call \<Rightarrow> pipe \<times> sched_world \<Rightarrow> u8 list" where
  "bytes_out (Read_Call buf len) (p, w) = map snd (snd (fst (pi_read buf len p w)))"
| "bytes_out _ _ = []"

lemma pi_read_flow:
  assumes "pi_ok p"
  shows "pi_ok (fst (pipe_step (Read_Call buf len) (p, w))) \<and>
    pi_contents p = bytes_out (Read_Call buf len) (p, w) @ pi_contents (fst (pipe_step (Read_Call buf len) (p, w)))"
proof (cases "len = 0 \<or> buf = 0 \<or> pi_data_len p = 0")
  case True
  then show ?thesis using assms by (auto simp: pi_read_def)
next
  case False
  then show ?thesis using pi_read_data [OF assms, of len buf w] by auto
qed

lemma pi_write_flow:
  assumes "pi_ok p"
  shows "pi_ok (fst (pipe_step (Write_Call mem buf len) (p, w))) \<and>
    pi_contents p @ bytes_in (Write_Call mem buf len) (p, w) =
      pi_contents (fst (pipe_step (Write_Call mem buf len) (p, w)))"
proof -
  consider "len = 0 \<or> buf = 0 \<or> pi_read_closed p" | "len \<noteq> 0" "buf \<noteq> 0" "\<not> pi_read_closed p" "\<not> pi_data_len p < PIPE_BUF_SIZE"
    | "len \<noteq> 0" "buf \<noteq> 0" "\<not> pi_read_closed p" "pi_data_len p < PIPE_BUF_SIZE" by blast
  then show ?thesis
  proof cases
    case 1
    then show ?thesis using assms by (auto simp: pi_write_def EPIPE_def)
  next
    case 2
    then show ?thesis using assms by (simp add: pi_write_full)
  next
    case 3
    then show ?thesis using pi_write_data [OF assms 3, of mem w] by auto
  qed
qed

interpretation pipes: stream "\<lambda>s. pi_ok (fst s)" "\<lambda>s. pi_contents (fst s)" pipe_step bytes_in bytes_out
proof
  fix s :: "pipe \<times> sched_world" and x :: pipe_call
  assume ok: "pi_ok (fst s)"
  obtain p w where s: "s = (p, w)" by fastforce
  show "pi_ok (fst (pipe_step x s))"
    using ok s pi_read_flow [of p] pi_write_flow [of p]
    by (cases x) (auto simp: pi_close_read_def pi_close_write_def simp del: pipe_step.simps(1,2))
  show "pi_contents (fst s) @ bytes_in x s = bytes_out x s @ pi_contents (fst (pipe_step x s))"
    using ok s pi_read_flow [of p _ _ w] pi_write_flow [of p _ _ _ w]
    by (cases x) (auto simp: pi_close_read_def pi_close_write_def simp del: pipe_step.simps(1,2))
qed

text \<open>
  C3: A pipe passes on a byte stream: for every sequence of reads, writes and closes on a new pipe,
  with any buffers, lengths and scheduler states, the bytes read are in order a prefix of the
  bytes that the writes reported as written, and the rest of these, never more than 4096, is what
  is still in the ring.
\<close>

theorem pipe_passes_stream:
  fixes calls :: "pipe_call list" and w :: sched_world
  defines "s' \<equiv> run_ops pipe_step calls (pi_new, w)"
  shows "flow pipe_step bytes_in calls (pi_new, w) =
      flow pipe_step bytes_out calls (pi_new, w) @ pi_contents (fst s') \<and>
    length (pi_contents (fst s')) \<le> 4096"
proof -
  have "pi_ok (fst s')" and "pi_contents pi_new @ flow pipe_step bytes_in calls (pi_new, w) =
      flow pipe_step bytes_out calls (pi_new, w) @ pi_contents (fst s')"
    using pipes.conserves [of "(pi_new, w)" calls] by (simp_all add: pi_new_ok s'_def)
  then show ?thesis by (simp add: pi_new_ok pi_ok_def PIPE_BUF_SIZE_def)
qed

text \<open>
  C25: The results of a pipe call. A read of an empty pipe reports end of file when the write end is
  closed and asks to block otherwise; a read of data returns what there is, up to the length,
  stores exactly these bytes at consecutive addresses, and frees the waiting place of the writer.
  A write to a pipe without readers gives \<open>EPIPE\<close>, to a full pipe it asks to block, and otherwise
  it accepts what fits and frees the waiting place of the reader. Nothing else changes a pipe.
\<close>

theorem pipe_call_results:
  assumes "pi_ok p" and "len \<noteq> 0" and "buf \<noteq> 0"
  shows "(let ((r, st), p', w') = pi_read buf len p w in
      if pi_contents p = [] then r = (if pi_write_closed p then 0 else - 1) \<and> st = [] \<and> p' = p \<and> w' = w
      else r = int (min len (length (pi_contents p))) \<and> st = stores_at buf (take len (pi_contents p)) \<and>
        pi_contents p' = drop len (pi_contents p) \<and> pi_writer_blocked p' = USIZE_MAX \<and>
        w' = wake_waiter (pi_writer_blocked p) w) \<and>
    (let (r, p', w') = pi_write mem buf len p w in
      if pi_read_closed p then r = EPIPE \<and> p' = p \<and> w' = w
      else if length (pi_contents p) = 4096 then r = - 1 \<and> p' = p \<and> w' = w
      else r = int (min len (4096 - length (pi_contents p))) \<and>
        pi_contents p' = pi_contents p @ map (\<lambda>i. mem (wadd buf i)) [0..<nat r] \<and>
        pi_reader_blocked p' = USIZE_MAX \<and> w' = wake_waiter (pi_reader_blocked p) w)"
proof -
  have e: "(pi_contents p = []) = (pi_data_len p = 0)" by (metis length_0_conv length_pi_contents)
  have size: "PIPE_BUF_SIZE = 4096" by (simp add: PIPE_BUF_SIZE_def)
  have le: "pi_data_len p \<le> 4096" using assms(1) by (simp add: pi_ok_def size)
  have tk: "take (min len (pi_data_len p)) (pi_contents p) = take len (pi_contents p)"
    "drop (min len (pi_data_len p)) (pi_contents p) = drop len (pi_contents p)"
    by (simp_all add: min_def)
  have rd: "let ((r, st), p', w') = pi_read buf len p w in
      if pi_contents p = [] then r = (if pi_write_closed p then 0 else - 1) \<and> st = [] \<and> p' = p \<and> w' = w
      else r = int (min len (length (pi_contents p))) \<and> st = stores_at buf (take len (pi_contents p)) \<and>
        pi_contents p' = drop len (pi_contents p) \<and> pi_writer_blocked p' = USIZE_MAX \<and>
        w' = wake_waiter (pi_writer_blocked p) w"
  proof (cases "pi_data_len p = 0")
    case True
    then show ?thesis using assms e by (simp add: pi_read_def)
  next
    case False
    then show ?thesis using pi_read_data [OF assms False, of w] e by (auto simp: tk)
  qed
  have wr: "let (r, p', w') = pi_write mem buf len p w in
      if pi_read_closed p then r = EPIPE \<and> p' = p \<and> w' = w
      else if length (pi_contents p) = 4096 then r = - 1 \<and> p' = p \<and> w' = w
      else r = int (min len (4096 - length (pi_contents p))) \<and>
        pi_contents p' = pi_contents p @ map (\<lambda>i. mem (wadd buf i)) [0..<nat r] \<and>
        pi_reader_blocked p' = USIZE_MAX \<and> w' = wake_waiter (pi_reader_blocked p) w"
  proof -
    consider "pi_read_closed p" | "\<not> pi_read_closed p" "pi_data_len p = 4096"
      | "\<not> pi_read_closed p" "pi_data_len p < PIPE_BUF_SIZE" using le size by linarith
    then show ?thesis
    proof cases
      case 1
      then show ?thesis using assms by (simp add: pi_write_def)
    next
      case 2
      then show ?thesis using pi_write_full [OF assms, of mem w] by (simp add: size)
    next
      case 3
      then show ?thesis using pi_write_data [OF assms 3, of mem w] by (auto simp: size)
    qed
  qed
  from rd wr show ?thesis ..
qed

section \<open>Waiting and waking\<close>

lemma wake_task_effect:
  assumes "sched_inv w"
  shows "proc_slot_get (snd (wake_task a w)) = proc_slot_get w"
    and "k \<noteq> proc_slot_get w a \<Longrightarrow> node_ref (sw_sched (snd (wake_task a w))) k = node_ref (sw_sched w) k"
    and "proc_slot_get w a \<noteq> NO_SLOT \<Longrightarrow> k = proc_slot_get w a \<Longrightarrow>
      map_option tn_state (node_ref (sw_sched w) k) = Some Blocked \<Longrightarrow>
      k \<in> ready_slots (sw_sched (snd (wake_task a w)))"
proof -
  let ?s = "sw_sched w" and ?k = "proc_slot_get w a"
  have eq: "snd (wake_task a w) = (if ?k = NO_SLOT then w
      else (remove_sleep ?k w)\<lparr>sw_sched := snd (ready_blocked ?k ?s)\<rparr>)"
    by (simp add: wake_task_def Let_def split: prod.splits)
  show "proc_slot_get (snd (wake_task a w)) = proc_slot_get w"
    by (simp add: eq)
  show "node_ref (sw_sched (snd (wake_task a w))) k = node_ref ?s k" if "k \<noteq> ?k"
    using that by (auto simp: eq ready_blocked_def split: option.splits)
  show "k \<in> ready_slots (sw_sched (snd (wake_task a w)))"
    if "?k \<noteq> NO_SLOT" "k = ?k" "map_option tn_state (node_ref ?s k) = Some Blocked"
    using that by (auto simp: eq ready_blocked_def ready_slots_def)
qed

lemma wake_waiter_inv: "sched_inv w \<Longrightarrow> sched_inv (wake_waiter a w)"
  by (simp add: wake_waiter_def wake_task_inv)

lemma wake_waiter_slots [simp]: "sched_inv w \<Longrightarrow> proc_slot_get (wake_waiter a w) = proc_slot_get w"
  by (simp add: wake_waiter_def wake_task_effect(1))

lemma slots_apart:
  assumes "sched_inv w" and "proc_slot_get w a \<noteq> NO_SLOT" and "b \<noteq> a"
  shows "proc_slot_get w a \<noteq> proc_slot_get w b"
proof
  assume "proc_slot_get w a = proc_slot_get w b"
  then have "Some (User a) = Some (User b)"
    using sched_invD(4) [OF assms(1)] assms(2) unfolding map_ok_def by metis
  then show False using assms(3) by simp
qed

lemma wake_waiter_other:
  assumes "sched_inv w" and "proc_slot_get w a \<noteq> NO_SLOT" and "b \<noteq> a"
  shows "node_ref (sw_sched (wake_waiter b w)) (proc_slot_get w a) = node_ref (sw_sched w) (proc_slot_get w a)"
  using wake_task_effect(2) [OF assms(1) slots_apart [OF assms]] by (simp add: wake_waiter_def)

lemma wake_waiter_ready:
  assumes "sched_inv w" and "proc_slot_get w a \<noteq> NO_SLOT" and "a \<noteq> USIZE_MAX"
    and "map_option tn_state (node_ref (sw_sched w) (proc_slot_get w a)) = Some Blocked"
  shows "proc_slot_get w a \<in> ready_slots (sw_sched (wake_waiter a w))"
  using wake_task_effect(3) [OF assms(1,2) refl assms(4)] assms(3) by (simp add: wake_waiter_def)

text \<open>A process that is in neither waiting place is not touched by any call on the pipe.\<close>

definition waits_elsewhere :: "usize \<Rightarrow> task_node option \<Rightarrow> pipe \<times> sched_world \<Rightarrow> bool" where
  "waits_elsewhere a n s \<longleftrightarrow> sched_inv (snd s) \<and> proc_slot_get (snd s) a \<noteq> NO_SLOT \<and> a \<noteq> USIZE_MAX \<and>
     node_ref (sw_sched (snd s)) (proc_slot_get (snd s) a) = n \<and>
     pi_reader_blocked (fst s) \<noteq> a \<and> pi_writer_blocked (fst s) \<noteq> a"

lemma pi_read_waiters:
  obtains "snd (pi_read buf len p w) = (p, w)"
  | p' where "snd (pi_read buf len p w) = (p', wake_waiter (pi_writer_blocked p) w)"
    "pi_writer_blocked p' = USIZE_MAX" "pi_reader_blocked p' = pi_reader_blocked p"
proof -
  have keep: "pi_writer_blocked (snd (fold (out_byte buf) is sp)) = pi_writer_blocked (snd sp) \<and>
    pi_reader_blocked (snd (fold (out_byte buf) is sp)) = pi_reader_blocked (snd sp)" for "is" sp
    by (induction "is" arbitrary: sp) (simp_all add: out_byte_def Let_def)
  show ?thesis
  proof (cases "len = 0 \<or> buf = 0 \<or> pi_data_len p = 0")
    case True
    then show ?thesis by (intro that(1)) (auto simp: pi_read_def)
  next
    case False
    then show ?thesis using keep [of "[0..<min len (pi_data_len p)]" "([], p)"]
      by (intro that(2) [of "fst (snd (pi_read buf len p w))"]) (auto simp: pi_read_def Let_def split: prod.splits)
  qed
qed

lemma pi_write_waiters:
  obtains "snd (pi_write mem buf len p w) = (p, w)"
  | p' where "snd (pi_write mem buf len p w) = (p', wake_waiter (pi_reader_blocked p) w)"
    "pi_reader_blocked p' = USIZE_MAX" "pi_writer_blocked p' = pi_writer_blocked p"
proof -
  have keep: "pi_writer_blocked (fold (in_byte mem buf) is q) = pi_writer_blocked q \<and>
    pi_reader_blocked (fold (in_byte mem buf) is q) = pi_reader_blocked q" for "is" q
    by (induction "is" arbitrary: q) (simp_all add: in_byte_def)
  let ?av = "wsub PIPE_BUF_SIZE (pi_data_len p)"
  show ?thesis
  proof (cases "len = 0 \<or> buf = 0 \<or> pi_read_closed p \<or> ?av = 0")
    case True
    then show ?thesis by (intro that(1)) (auto simp: pi_write_def)
  next
    case False
    then show ?thesis using keep [of "[0..<min len ?av]" p]
      by (intro that(2) [of "fst (snd (pi_write mem buf len p w))"]) (auto simp: pi_write_def Let_def)
  qed
qed

lemma waits_elsewhere_step:
  assumes "waits_elsewhere a n s"
  shows "waits_elsewhere a n (pipe_step x s)"
proof -
  obtain p w where s: "s = (p, w)" by fastforce
  have h: "sched_inv w" "proc_slot_get w a \<noteq> NO_SLOT" "a \<noteq> USIZE_MAX"
    "node_ref (sw_sched w) (proc_slot_get w a) = n" "pi_reader_blocked p \<noteq> a" "pi_writer_blocked p \<noteq> a"
    using assms by (simp_all add: waits_elsewhere_def s)
  have woken: "waits_elsewhere a n (p', wake_waiter b w)"
    if "b \<noteq> a" "pi_reader_blocked p' \<noteq> a" "pi_writer_blocked p' \<noteq> a" for b p'
    using that h wake_waiter_other [OF h(1,2) that(1)] by (simp add: waits_elsewhere_def wake_waiter_inv)
  show ?thesis
  proof (cases x)
    case (Read_Call buf len)
    show ?thesis
    proof (rule pi_read_waiters [of buf len p w])
      assume "snd (pi_read buf len p w) = (p, w)"
      then show ?thesis using assms by (simp add: s Read_Call)
    next
      fix p' assume "snd (pi_read buf len p w) = (p', wake_waiter (pi_writer_blocked p) w)"
        "pi_writer_blocked p' = USIZE_MAX" "pi_reader_blocked p' = pi_reader_blocked p"
      then show ?thesis using h woken [of "pi_writer_blocked p" p'] by (simp add: s Read_Call)
    qed
  next
    case (Write_Call mem buf len)
    show ?thesis
    proof (rule pi_write_waiters [of mem buf len p w])
      assume "snd (pi_write mem buf len p w) = (p, w)"
      then show ?thesis using assms by (simp add: s Write_Call)
    next
      fix p' assume "snd (pi_write mem buf len p w) = (p', wake_waiter (pi_reader_blocked p) w)"
        "pi_reader_blocked p' = USIZE_MAX" "pi_writer_blocked p' = pi_writer_blocked p"
      then show ?thesis using h woken [of "pi_reader_blocked p" p'] by (simp add: s Write_Call)
    qed
  qed (use h in \<open>simp_all add: s pi_close_read_def pi_close_write_def woken\<close>)
qed

lemma waits_elsewhere_run:
  "waits_elsewhere a n s \<Longrightarrow> waits_elsewhere a n (run_ops pipe_step calls s)"
  by (induction calls arbitrary: s) (simp_all add: waits_elsewhere_step)

text \<open>
  There is one waiting place per end, and entering it forgets who was there. When process \<open>a\<close>
  is blocked on a read and process \<open>b\<close> blocks on a read of the same pipe, no sequence of writes,
  reads and closes on the pipe ever makes \<open>a\<close> ready again, not even the close of the write end
  that should give it end of file.
\<close>

theorem second_reader_strands_first:
  fixes calls :: "pipe_call list"
  assumes "sched_reachable w" and "proc_slot_get w a \<noteq> NO_SLOT" and "a \<noteq> USIZE_MAX"
    and "map_option tn_state (node_ref (sw_sched w) (proc_slot_get w a)) = Some Blocked"
    and "b \<noteq> a" and "pi_reader_blocked p = a" and "pi_writer_blocked p \<noteq> a"
  defines "w' \<equiv> snd (run_ops pipe_step calls (set_reader_blocked b p, w))"
  shows "map_option tn_state (node_ref (sw_sched w') (proc_slot_get w' a)) = Some Blocked"
proof -
  have "waits_elsewhere a (node_ref (sw_sched w) (proc_slot_get w a)) (set_reader_blocked b p, w)"
    using assms sched_reachable_inv [OF assms(1)] by (simp add: waits_elsewhere_def set_reader_blocked_def)
  from waits_elsewhere_run [OF this, of calls] assms(4) show ?thesis
    by (simp add: waits_elsewhere_def w'_def)
qed

lemma pipe_read_blocks:
  assumes "pipe_read pid buf len pw = Some (Blocks, pw')"
  shows "\<exists>p. pid < length (pw_table pw) \<and> pw_table pw ! pid = Some p \<and> pi_data_len p = 0 \<and>
    \<not> pi_write_closed p \<and>
    pw' = pw\<lparr>pw_table := (pw_table pw)[pid := Some (set_reader_blocked (sw_current_index (pw_sched pw)) p)],
             pw_sched := schedule_block (pw_sched pw)\<rparr>"
proof -
  obtain p where p: "pid < length (pw_table pw)" "pw_table pw ! pid = Some p"
    using assms by (auto simp: pipe_read_def with_pipe_def split: if_splits option.splits)
  let ?r = "pi_read buf len p (pw_sched pw)"
  have n: "fst (fst ?r) = - 1"
    using assms p by (auto simp: pipe_read_def with_pipe_def split: prod.splits if_splits)
  have "\<not> (len = 0 \<or> buf = 0)"
  proof
    assume "len = 0 \<or> buf = 0"
    then have "?r = ((0, []), p, pw_sched pw)" by (simp add: pi_read_def)
    with n show False by simp
  qed
  moreover have "pi_data_len p = 0 \<and> \<not> pi_write_closed p"
    using n by (auto simp: pi_read_def Let_def split: if_splits prod.splits)
  ultimately have "?r = ((- 1, []), p, pw_sched pw)" "pi_data_len p = 0" "\<not> pi_write_closed p"
    by (simp_all add: pi_read_def)
  with assms p show ?thesis
    by (intro exI [of _ p]) (auto simp: pipe_read_def with_pipe_def list_update_same_conv)
qed

text \<open>
  C14: A process that waits on a pipe is woken, as long as no other reader takes its place. When a process
  blocks in a read, it is recorded as the pipe's waiting reader and its task is Blocked. In any
  later reachable state in which it still is the waiting reader, its task is Blocked, the read
  end is open and the pipe is not full, the next write that has something to write returns a
  positive count and makes the task ready, and closing the last write descriptor makes it ready too.
\<close>

theorem blocked_reader_is_woken:
  assumes "sched_reachable (pw_sched pw)" and "sc_current (sw_sched (pw_sched pw)) \<noteq> IDLE_SLOT"
    and "a = sw_current_index (pw_sched pw)" and "k = sc_current (sw_sched (pw_sched pw))"
    and "pipe_read pid buf len pw = Some (Blocks, pw1)"
    and "sched_reachable (pw_sched pw2)" and "pid < length (pw_table pw2)" and "pw_table pw2 ! pid = Some p2"
    and "pi_reader_blocked p2 = a" and "pi_ok p2" and "\<not> pi_read_closed p2" and "pi_data_len p2 < PIPE_BUF_SIZE"
    and "proc_slot_get (pw_sched pw2) a = k" and "k \<noteq> NO_SLOT" and "a \<noteq> USIZE_MAX"
    and "map_option tn_state (node_ref (sw_sched (pw_sched pw2)) k) = Some Blocked" and "len' \<noteq> 0" and "buf' \<noteq> 0"
  shows "(\<exists>p1. pw_table pw1 ! pid = Some p1 \<and> pi_reader_blocked p1 = a) \<and>
    map_option tn_state (node_ref (sw_sched (pw_sched pw1)) k) = Some Blocked \<and>
    (\<exists>n pw3. pipe_write mem pid buf' len' pw2 = Some (Return n [], pw3) \<and> 0 < n \<and>
      k \<in> ready_slots (sw_sched (pw_sched pw3))) \<and>
    (pid < length (pw_refs pw2) \<and> snd (pw_refs pw2 ! pid) = 1 \<longrightarrow>
      (\<exists>pw3. close_write pid pw2 = Some pw3 \<and> k \<in> ready_slots (sw_sched (pw_sched pw3))))"
proof -
  obtain p where p: "pid < length (pw_table pw)"
    "pw1 = pw\<lparr>pw_table := (pw_table pw)[pid := Some (set_reader_blocked a p)],
              pw_sched := schedule_block (pw_sched pw)\<rparr>"
    using pipe_read_blocks [OF assms(5)] assms(3) by blast
  then have recorded: "\<exists>p1. pw_table pw1 ! pid = Some p1 \<and> pi_reader_blocked p1 = a" by (simp add: set_reader_blocked_def)
  have blk: "map_option tn_state (node_ref (sw_sched (pw_sched pw1)) k) = Some Blocked"
    using schedule_block_effect [OF sched_reachable_inv [OF assms(1)] assms(2)] p(2) by (simp add: assms(4))
  let ?w = "pw_sched pw2" and ?n = "min len' (PIPE_BUF_SIZE - pi_data_len p2)"
  have rdy: "k \<in> ready_slots (sw_sched (wake_waiter a ?w))"
    using wake_waiter_ready [OF sched_reachable_inv [OF assms(6)], of a] assms(13-16) by simp
  obtain p' where p': "pi_write mem buf' len' p2 ?w = (int ?n, p', wake_waiter a ?w)"
    using pi_write_data [OF assms(10,17,18,11,12), of mem ?w] assms(9) by auto
  have n: "0 < ?n" using assms(12,17) by simp
  have ret: "int ?n \<noteq> EPIPE" "int ?n \<noteq> - 1" unfolding EPIPE_def by linarith+
  have "\<exists>n pw3. pipe_write mem pid buf' len' pw2 = Some (Return n [], pw3) \<and> 0 < n \<and>
      k \<in> ready_slots (sw_sched (pw_sched pw3))"
    using assms(7,8) p' rdy n ret by (simp add: pipe_write_def with_pipe_def)
  moreover have "\<exists>pw3. close_write pid pw2 = Some pw3 \<and> k \<in> ready_slots (sw_sched (pw_sched pw3))"
    if "pid < length (pw_refs pw2)" "snd (pw_refs pw2 ! pid) = 1"
    using that assms(7-9) rdy
    by (cases "pw_refs pw2 ! pid") (simp add: close_write_def with_pipe_def pi_close_write_def try_free_def Let_def)
  ultimately show ?thesis using blk recorded by blast
qed

section \<open>The table and its counts\<close>

text \<open>
  A slot is in use exactly while descriptors refer to it, and an end is closed exactly when no
  descriptor of that end is left.
\<close>

definition slot_ok :: "pipe option \<Rightarrow> usize \<times> usize \<Rightarrow> bool" where
  "slot_ok s rf \<longleftrightarrow> (case s of
     None \<Rightarrow> rf = (0, 0)
   | Some p \<Rightarrow> rf \<noteq> (0, 0) \<and> pi_ok p \<and> (pi_read_closed p \<longleftrightarrow> fst rf = 0) \<and> (pi_write_closed p \<longleftrightarrow> snd rf = 0))"

definition pw_ok :: "pipe_world \<Rightarrow> bool" where
  "pw_ok pw \<longleftrightarrow> length (pw_table pw) = MAX_PIPES \<and> length (pw_refs pw) = MAX_PIPES \<and>
     (\<forall>i < MAX_PIPES. slot_ok (pw_table pw ! i) (pw_refs pw ! i))"

lemma pw_ok_update:
  assumes "pw_ok pw" and "i < MAX_PIPES" and "slot_ok s rf"
    and "pw_table pw' = (pw_table pw)[i := s]" and "pw_refs pw' = (pw_refs pw)[i := rf]"
  shows "pw_ok pw'"
  using assms by (auto simp: pw_ok_def nth_list_update)

lemma alloc_pipe_cases:
  assumes "pw_ok pw"
  obtains (full) "alloc_pipe pw = (None, pw)"
  | (fresh) i pw' where "alloc_pipe pw = (Some i, pw')" "i < MAX_PIPES" "pw_ok pw'" "pw_table pw ! i = None"
      "pw_refs pw ! i = (0, 0)" "pw_refs pw' = (pw_refs pw)[i := (1, 1)]" "pw_table pw' = (pw_table pw)[i := Some pi_new]"
      "pw_sched pw' = pw_sched pw"
proof (cases "find (\<lambda>i. pw_table pw ! i = None) [0..<length (pw_table pw)]")
  case None
  then show ?thesis by (intro full) (simp add: alloc_pipe_def)
next
  case (Some i)
  let ?pw = "pw\<lparr>pw_table := (pw_table pw)[i := Some pi_new], pw_refs := (pw_refs pw)[i := (1, 1)]\<rparr>"
  from Some have i: "i < MAX_PIPES" "pw_table pw ! i = None"
    using assms by (simp_all add: find_upt_Some_iff pw_ok_def)
  have "slot_ok (Some pi_new) (1, 1)"
    using pi_new_ok(1) by (simp add: slot_ok_def) (simp add: pi_new_def)
  then have "pw_ok ?pw" using pw_ok_update [OF assms i(1)] by simp
  moreover have "pw_refs pw ! i = (0, 0)" using assms i by (auto simp: pw_ok_def slot_ok_def)
  ultimately show ?thesis using Some i by (intro fresh [of i ?pw]) (simp_all add: alloc_pipe_def)
qed

lemma slot_ok_used: "slot_ok s rf \<Longrightarrow> rf \<noteq> (0, 0) \<Longrightarrow> \<exists>p. s = Some p \<and> pi_ok p \<and>
    (pi_read_closed p \<longleftrightarrow> fst rf = 0) \<and> (pi_write_closed p \<longleftrightarrow> snd rf = 0)"
  by (auto simp: slot_ok_def split: option.splits)

lemma pw_slot: "pw_ok pw \<Longrightarrow> pid < MAX_PIPES \<Longrightarrow> slot_ok (pw_table pw ! pid) (pw_refs pw ! pid)"
  by (simp add: pw_ok_def)

lemma inc_read_ok:
  assumes "pw_ok pw" and "pid < MAX_PIPES" and "pw_refs pw ! pid = (r, wr)" and "0 < r"
  shows "\<exists>pw'. inc_read pid pw = Some pw' \<and> pw_ok pw' \<and> pw_refs pw' = (pw_refs pw)[pid := (r + 1, wr)] \<and>
    pw_sched pw' = pw_sched pw"
proof -
  have "slot_ok (pw_table pw ! pid) (r + 1, wr)"
    using pw_slot [OF assms(1,2)] assms(3,4) by (auto simp: slot_ok_def split: option.splits)
  from pw_ok_update [OF assms(1,2) this, of "pw\<lparr>pw_refs := (pw_refs pw)[pid := (r + 1, wr)]\<rparr>"] assms
  show ?thesis by (simp add: inc_read_def pw_ok_def)
qed

lemma inc_write_ok:
  assumes "pw_ok pw" and "pid < MAX_PIPES" and "pw_refs pw ! pid = (r, wr)" and "0 < wr"
  shows "\<exists>pw'. inc_write pid pw = Some pw' \<and> pw_ok pw' \<and> pw_refs pw' = (pw_refs pw)[pid := (r, wr + 1)] \<and>
    pw_sched pw' = pw_sched pw"
proof -
  have "slot_ok (pw_table pw ! pid) (r, wr + 1)"
    using pw_slot [OF assms(1,2)] assms(3,4) by (auto simp: slot_ok_def split: option.splits)
  from pw_ok_update [OF assms(1,2) this, of "pw\<lparr>pw_refs := (pw_refs pw)[pid := (r, wr + 1)]\<rparr>"] assms
  show ?thesis by (simp add: inc_write_def pw_ok_def)
qed

lemma close_read_ok:
  assumes "pw_ok pw" and "pid < MAX_PIPES" and "pw_refs pw ! pid = (Suc r, wr)"
  shows "\<exists>pw'. close_read pid pw = Some pw' \<and> pw_ok pw' \<and> pw_refs pw' = (pw_refs pw)[pid := (r, wr)]"
proof -
  have len: "pid < length (pw_refs pw)" "pid < length (pw_table pw)" using assms by (simp_all add: pw_ok_def)
  obtain p where p: "pw_table pw ! pid = Some p" "pi_ok p" "\<not> pi_read_closed p" "pi_write_closed p \<longleftrightarrow> wr = 0"
    using slot_ok_used [OF pw_slot [OF assms(1,2)]] assms(3) by auto
  show ?thesis
  proof (cases "r = 0")
    case False
    then have "slot_ok (pw_table pw ! pid) (r, wr)" using p by (simp add: slot_ok_def)
    from pw_ok_update [OF assms(1,2) this, of "pw\<lparr>pw_refs := (pw_refs pw)[pid := (r, wr)]\<rparr>"] False len assms(3)
    show ?thesis by (simp add: close_read_def Let_def)
  next
    case True
    let ?p = "fst (pi_close_read p (pw_sched pw))" and ?w = "snd (pi_close_read p (pw_sched pw))"
    let ?s = "if wr = 0 then None else Some ?p"
    let ?pw = "pw\<lparr>pw_refs := (pw_refs pw)[pid := (0, wr)], pw_table := (pw_table pw)[pid := ?s], pw_sched := ?w\<rparr>"
    have "close_read pid pw = Some ?pw"
      using True len assms(3) p(1) by (simp add: close_read_def with_pipe_def try_free_def Let_def split: prod.splits)
    moreover have "slot_ok ?s (0, wr)" using p by (simp add: slot_ok_def pi_close_read_def)
    then have "pw_ok ?pw" using pw_ok_update [OF assms(1,2), of ?s "(0, wr)" ?pw] by simp
    ultimately show ?thesis using True by simp
  qed
qed

lemma close_write_ok:
  assumes "pw_ok pw" and "pid < MAX_PIPES" and "pw_refs pw ! pid = (r, Suc wr)"
  shows "\<exists>pw'. close_write pid pw = Some pw' \<and> pw_ok pw' \<and> pw_refs pw' = (pw_refs pw)[pid := (r, wr)]"
proof -
  have len: "pid < length (pw_refs pw)" "pid < length (pw_table pw)" using assms by (simp_all add: pw_ok_def)
  obtain p where p: "pw_table pw ! pid = Some p" "pi_ok p" "\<not> pi_write_closed p" "pi_read_closed p \<longleftrightarrow> r = 0"
    using slot_ok_used [OF pw_slot [OF assms(1,2)]] assms(3) by auto
  show ?thesis
  proof (cases "wr = 0")
    case False
    then have "slot_ok (pw_table pw ! pid) (r, wr)" using p by (simp add: slot_ok_def)
    from pw_ok_update [OF assms(1,2) this, of "pw\<lparr>pw_refs := (pw_refs pw)[pid := (r, wr)]\<rparr>"] False len assms(3)
    show ?thesis by (simp add: close_write_def Let_def)
  next
    case True
    let ?p = "fst (pi_close_write p (pw_sched pw))" and ?w = "snd (pi_close_write p (pw_sched pw))"
    let ?s = "if r = 0 then None else Some ?p"
    let ?pw = "pw\<lparr>pw_refs := (pw_refs pw)[pid := (r, 0)], pw_table := (pw_table pw)[pid := ?s], pw_sched := ?w\<rparr>"
    have "close_write pid pw = Some ?pw"
      using True len assms(3) p(1) by (simp add: close_write_def with_pipe_def try_free_def Let_def split: prod.splits)
    moreover have "slot_ok ?s (r, 0)" using p by (simp add: slot_ok_def pi_close_write_def)
    then have "pw_ok ?pw" using pw_ok_update [OF assms(1,2), of ?s "(r, 0)" ?pw] by simp
    ultimately show ?thesis using True by simp
  qed
qed

text \<open>Reads and writes leave the counts and the table's invariant alone.\<close>

definition pipe_kept :: "pipe \<Rightarrow> pipe \<Rightarrow> bool" where
  "pipe_kept p p' \<longleftrightarrow> pi_ok p' \<and> pi_read_closed p' = pi_read_closed p \<and> pi_write_closed p' = pi_write_closed p"

lemma with_pipe_kept:
  assumes "pw_ok pw" and "with_pipe pid f pw = Some (r, pw')"
    and "\<And>p w. pi_ok p \<Longrightarrow> pipe_kept p (fst (snd (f p w)))"
  shows "pw_ok pw' \<and> pw_refs pw' = pw_refs pw"
proof (cases "pw_table pw ! pid")
  case None
  then show ?thesis using assms by (auto simp: with_pipe_def split: if_splits)
next
  case (Some p)
  obtain r' p' w where f: "f p (pw_sched pw) = (r', p', w)" by (metis prod.collapse)
  have pid: "pid < MAX_PIPES" "pid < length (pw_refs pw)"
    using assms(1,2) by (auto simp: with_pipe_def pw_ok_def split: if_splits)
  have pw': "pw' = pw\<lparr>pw_table := (pw_table pw)[pid := Some p'], pw_sched := w\<rparr>"
    using assms(2) Some f by (auto simp: with_pipe_def split: if_splits)
  have "pi_ok p" using pw_slot [OF assms(1) pid(1)] Some by (simp add: slot_ok_def)
  with assms(3) [of p "pw_sched pw"] f have "pipe_kept p p'" by simp
  then have "slot_ok (Some p') (pw_refs pw ! pid)"
    using pw_slot [OF assms(1) pid(1)] Some by (simp add: slot_ok_def pipe_kept_def)
  from pw_ok_update [OF assms(1) pid(1) this, of pw'] show ?thesis by (simp add: pw')
qed

lemma pi_read_kept: "pi_ok p \<Longrightarrow> pipe_kept p (fst (snd (pi_read buf len p w)))"
  using pi_read_data [of p len buf w]
  by (cases "len = 0 \<or> buf = 0 \<or> pi_data_len p = 0") (auto simp: pi_read_def pipe_kept_def)

lemma pi_write_kept:
  assumes "pi_ok p"
  shows "pipe_kept p (fst (snd (pi_write mem buf len p w)))"
proof -
  consider "len = 0 \<or> buf = 0 \<or> pi_read_closed p" | "len \<noteq> 0" "buf \<noteq> 0" "\<not> pi_read_closed p" "\<not> pi_data_len p < PIPE_BUF_SIZE"
    | "len \<noteq> 0" "buf \<noteq> 0" "\<not> pi_read_closed p" "pi_data_len p < PIPE_BUF_SIZE" by blast
  then show ?thesis
  proof cases
    case 1
    then show ?thesis using assms by (auto simp: pi_write_def pipe_kept_def)
  next
    case 2
    then show ?thesis using assms by (simp add: pi_write_full pipe_kept_def)
  next
    case 3
    then show ?thesis using pi_write_data [OF assms 3, of mem w] by (auto simp: pipe_kept_def)
  qed
qed

lemma blocked_kept:
  "pi_ok p \<Longrightarrow> pipe_kept p (set_reader_blocked a p)" "pi_ok p \<Longrightarrow> pipe_kept p (set_writer_blocked a p)"
  by (simp_all add: pipe_kept_def set_reader_blocked_def set_writer_blocked_def)

lemma pw_ok_sched [simp]: "pw_ok (pw\<lparr>pw_sched := w\<rparr>) = pw_ok pw"
  by (simp add: pw_ok_def)

lemma pipe_read_kept:
  assumes "pw_ok pw" and "pipe_read pid buf len pw = Some (t, pw')"
  shows "pw_ok pw' \<and> pw_refs pw' = pw_refs pw"
proof -
  obtain r pw1 where 1: "with_pipe pid (pi_read buf len) pw = Some (r, pw1)"
    using assms(2) by (auto simp: pipe_read_def split: Option.bind_splits)
  have ok1: "pw_ok pw1" "pw_refs pw1 = pw_refs pw" using with_pipe_kept [OF assms(1) 1] pi_read_kept by auto
  let ?f = "\<lambda>p w. ((), set_reader_blocked (sw_current_index (pw_sched pw1)) p, w)"
  have k: "pw_ok pw2 \<and> pw_refs pw2 = pw_refs pw1" if "with_pipe pid ?f pw1 = Some (u, pw2)" for u pw2
    using with_pipe_kept [OF ok1(1) that] blocked_kept(1) by auto
  show ?thesis using assms(2) 1 ok1 k
    by (auto simp: pipe_read_def split: option.splits if_splits Option.bind_splits)
qed

lemma pipe_write_kept:
  assumes "pw_ok pw" and "pipe_write mem pid buf len pw = Some (t, pw')"
  shows "pw_ok pw' \<and> pw_refs pw' = pw_refs pw"
proof -
  obtain r pw1 where 1: "with_pipe pid (pi_write mem buf len) pw = Some (r, pw1)"
    using assms(2) by (auto simp: pipe_write_def split: Option.bind_splits)
  have ok1: "pw_ok pw1" "pw_refs pw1 = pw_refs pw" using with_pipe_kept [OF assms(1) 1] pi_write_kept by auto
  let ?f = "\<lambda>p w. ((), set_writer_blocked (sw_current_index (pw_sched pw1)) p, w)"
  have k: "pw_ok pw2 \<and> pw_refs pw2 = pw_refs pw1" if "with_pipe pid ?f pw1 = Some (u, pw2)" for u pw2
    using with_pipe_kept [OF ok1(1) that] blocked_kept(2) by auto
  show ?thesis using assms(2) 1 ok1 k
    by (auto simp: pipe_write_def split: option.splits if_splits Option.bind_splits)
qed

section \<open>Witnesses\<close>

text \<open>Process 5 runs and blocks on the one pipe there is.\<close>

definition one_pipe :: pipe_world where
  "one_pipe = \<lparr>pw_table = [Some pi_new], pw_refs = [(1, 1)], pw_sched = one_running\<rparr>"

definition blocked_world :: sched_world where
  "blocked_world = schedule_block one_running"

definition one_pipe_blocked :: pipe_world where
  "one_pipe_blocked = one_pipe\<lparr>pw_table := [Some (set_reader_blocked 5 pi_new)], pw_sched := blocked_world\<rparr>"

lemma one_running_index: "sw_current_index one_running = 5"
proof -
  let ?s = "sw_sched one_ready"
  have "\<not> slice_left ?s" "requeue_current ?s = ?s"
    by (simp_all add: slice_left_def requeue_current_def node_ref_def one_ready_fields new_idle_def is_user_def)
  moreover obtain rq where "pop_next (sc_ready ?s) = (Some 1, rq)" using one_ready_pick by blast
  ultimately have eq: "one_running = switch_to 0 1 (run_next 0 1 (?s\<lparr>sc_ready := rq\<rparr>) one_ready)"
    by (simp add: one_running_def schedule_def Let_def find_next_ready_user_def one_ready_fields(3))
  show ?thesis
    by (simp add: eq switch_to_def run_next_def set_current_process_for_slot_def save_fs_base_def Let_def
      restore_task_arch_state_def node_upd_def node_ref_def one_ready_fields new_user_def new_idle_def
      split: option.split)
qed

lemma blocked_world_facts:
  "sched_reachable blocked_world" "proc_slot_get blocked_world 5 = 1"
  "map_option tn_state (node_ref (sw_sched blocked_world) 1) = Some Blocked"
proof -
  show "sched_reachable blocked_world"
    unfolding blocked_world_def by (rule step [OF one_task_reachable(2)]) (rule block)
  have "proc_slot_get (schedule_block w) = proc_slot_get w" for w
    by (auto simp: schedule_block_def Let_def split: option.split prod.split)
  then show "proc_slot_get blocked_world 5 = 1" by (simp add: blocked_world_def one_running_fields)
  show "map_option tn_state (node_ref (sw_sched blocked_world) 1) = Some Blocked"
    using schedule_block_effect [OF sched_reachable_inv [OF one_task_reachable(2)]] one_running_fields(1)
    by (simp add: blocked_world_def IDLE_SLOT_def)
qed

lemma one_pipe_read: "pipe_read 0 1 1 one_pipe = Some (Blocks, one_pipe_blocked)"
  by (simp add: pipe_read_def with_pipe_def pi_read_def one_pipe_def one_pipe_blocked_def pi_new_def
      one_running_index blocked_world_def)

theorem pipe_call_results_witness:
  "fst (fst (pi_read 1 5 pi_new boot_world)) = - 1 \<and> fst (pi_write (\<lambda>_. 7) 1 5 pi_new boot_world) = 5 \<and>
   pi_contents (fst (snd (pi_write (\<lambda>_. 7) 1 5 pi_new boot_world))) = [7, 7, 7, 7, 7]"
proof -
  have up: "map (\<lambda>i. 7 :: u8) [0..<5] = [7, 7, 7, 7, 7]" by (simp add: upt_rec)
  show ?thesis
    using pipe_call_results [OF pi_new_ok(1), of 5 1 boot_world "\<lambda>_. 7"] pi_new_ok(2)
    by (simp add: Let_def split: prod.splits) (auto simp: pi_new_def up)
qed

theorem second_reader_strands_first_witness:
  "map_option tn_state (node_ref (sw_sched blocked_world) 1) = Some Blocked \<and>
   (let w' = snd (run_ops pipe_step [Write_Call (\<lambda>_. 7) 1 1, Close_Write]
        (set_reader_blocked 6 (set_reader_blocked 5 pi_new), blocked_world))
    in map_option tn_state (node_ref (sw_sched w') (proc_slot_get w' 5)) = Some Blocked)"
  using second_reader_strands_first [OF blocked_world_facts(1), of 5 6 "set_reader_blocked 5 pi_new"
      "[Write_Call (\<lambda>_. 7) 1 1, Close_Write]"] blocked_world_facts(2,3)
  by (simp add: NO_SLOT_def set_reader_blocked_def pi_new_def)

theorem blocked_reader_is_woken_witness:
  "pipe_read 0 1 1 one_pipe = Some (Blocks, one_pipe_blocked) \<and>
   (\<exists>n pw3. pipe_write (\<lambda>_. 7) 0 1 1 one_pipe_blocked = Some (Return n [], pw3) \<and> 0 < n \<and>
      1 \<in> ready_slots (sw_sched (pw_sched pw3)))"
  using blocked_reader_is_woken [of one_pipe 5 1 0 1 1 one_pipe_blocked one_pipe_blocked "set_reader_blocked 5 pi_new" 1 1 "\<lambda>_. 7"]
    one_task_reachable(2) one_running_fields(1) one_running_index one_pipe_read blocked_world_facts pi_new_ok(1)
  by (simp add: one_pipe_def one_pipe_blocked_def IDLE_SLOT_def NO_SLOT_def set_reader_blocked_def)
    (simp add: pi_new_def PIPE_BUF_SIZE_pos)

end
