(* ===== verification/Kernel_Log.thy ===== *)
theory Kernel_Log
  imports Ring
begin

text \<open>
  The kernel log, \<open>kernel/src/kernel_log.rs\<close>: the byte ring that every console character goes
  through, its reader, and the log levels. The read is split where the code loads the two indices
  and where it stores the tail, so that writes may come in between.
\<close>

section \<open>The log buffer\<close>

definition KLOG_BUF_SIZE :: usize where "KLOG_BUF_SIZE = 32768"

record log_buffer =
  lb_data :: "u8 list"
  lb_head :: usize
  lb_tail :: usize

definition lb_new :: log_buffer where
  "lb_new = \<lparr>lb_data = replicate KLOG_BUF_SIZE 0, lb_head = 0, lb_tail = 0\<rparr>"

definition write_byte :: "u8 \<Rightarrow> log_buffer \<Rightarrow> log_buffer" where
  "write_byte byte lb =
    (let head = lb_head lb; next_head = (head + 1) mod KLOG_BUF_SIZE; tail = lb_tail lb in
     lb\<lparr>lb_tail := (if next_head = tail then (tail + 1) mod KLOG_BUF_SIZE else tail),
        lb_data := (lb_data lb)[head := byte],
        lb_head := next_head\<rparr>)"

definition lb_available :: "log_buffer \<Rightarrow> usize" where
  "lb_available lb =
    (if lb_head lb \<ge> lb_tail lb then lb_head lb - lb_tail lb
     else KLOG_BUF_SIZE - lb_tail lb + lb_head lb)"

text \<open>\<open>while read < to_read { buf[read] = data[pos]; pos = (pos + 1) % SIZE; read += 1 }\<close>\<close>

fun log_copy :: "nat \<Rightarrow> usize \<Rightarrow> usize \<Rightarrow> u8 list \<Rightarrow> u8 list \<Rightarrow> u8 list" where
  "log_copy 0 pos rd data buf = buf"
| "log_copy (Suc left) pos rd data buf =
     log_copy left ((pos + 1) mod KLOG_BUF_SIZE) (rd + 1) data (buf[rd := data ! pos])"

text \<open>The copy and the store of the tail, with the indices as they were loaded.\<close>

definition lb_read_loaded :: "usize \<Rightarrow> usize \<Rightarrow> u8 list \<Rightarrow> log_buffer \<Rightarrow> usize \<times> u8 list \<times> log_buffer" where
  "lb_read_loaded head tail buf lb =
    (let available = (if head \<ge> tail then head - tail else KLOG_BUF_SIZE - tail + head);
         to_read = min available (length buf)
     in (to_read, log_copy to_read tail 0 (lb_data lb) buf,
         lb\<lparr>lb_tail := (tail + to_read) mod KLOG_BUF_SIZE\<rparr>))"

definition lb_read :: "u8 list \<Rightarrow> log_buffer \<Rightarrow> usize \<times> u8 list \<times> log_buffer" where
  "lb_read buf lb = lb_read_loaded (lb_head lb) (lb_tail lb) buf lb"

definition lb_peek :: "u8 list \<Rightarrow> usize \<Rightarrow> log_buffer \<Rightarrow> usize \<times> u8 list" where
  "lb_peek buf offset lb =
    (let available = lb_available lb in
     if offset \<ge> available then (0, buf)
     else let to_read = min (available - offset) (length buf) in
       (to_read, log_copy to_read ((lb_tail lb + offset) mod KLOG_BUF_SIZE) 0 (lb_data lb) buf))"

definition lb_clear :: "log_buffer \<Rightarrow> log_buffer" where
  "lb_clear lb = lb\<lparr>lb_tail := lb_head lb\<rparr>"

definition log_read :: "u8 list \<Rightarrow> log_buffer \<Rightarrow> (usize \<times> usize) \<times> u8 list \<times> log_buffer" where
  "log_read buf lb =
    (let available = lb_available lb; (n, buf', lb') = lb_read buf lb in ((n, available), buf', lb'))"

text \<open>
  \<open>log_flush_to_file\<close>: drain the buffer into \<open>/var/log/kernel\<close>; the file writer is the argument.
\<close>

definition log_flush_to_file :: "(string \<Rightarrow> u8 list \<Rightarrow> 'fs \<Rightarrow> 'fs) \<Rightarrow> log_buffer \<Rightarrow> 'fs \<Rightarrow> log_buffer \<times> 'fs" where
  "log_flush_to_file write_file_owned lb fs =
    (let available = lb_available lb in
     if available = 0 then (lb, fs)
     else let ((n, _), tmp, lb') = log_read (replicate available 0) lb in
       if n = 0 then (lb', fs)
       else (lb', write_file_owned ''/var/log/kernel'' (take n tmp) fs))"

section \<open>Log levels\<close>

definition LEVEL_ERROR :: u32 where "LEVEL_ERROR = 0"
definition LEVEL_WARN :: u32 where "LEVEL_WARN = 1"
definition LEVEL_INFO :: u32 where "LEVEL_INFO = 2"
definition LEVEL_DEBUG :: u32 where "LEVEL_DEBUG = 3"
definition LEVEL_TRACE :: u32 where "LEVEL_TRACE = 4"

definition klog_set_level :: "u32 \<Rightarrow> u32" where
  "klog_set_level level = min level 4"

definition klog_enabled :: "u32 \<Rightarrow> u32 \<Rightarrow> bool" where
  "klog_enabled current level \<longleftrightarrow> level \<le> current"

section \<open>The log keeps the newest bytes\<close>

definition lb_ok :: "log_buffer \<Rightarrow> bool" where
  "lb_ok lb \<longleftrightarrow> length (lb_data lb) = KLOG_BUF_SIZE \<and>
    lb_head lb < KLOG_BUF_SIZE \<and> lb_tail lb < KLOG_BUF_SIZE"

definition lb_contents :: "log_buffer \<Rightarrow> u8 list" where
  "lb_contents lb = ring_window (lb_data lb) (lb_tail lb) (lb_available lb)"

lemma KLOG_BUF_SIZE_big: "1 < KLOG_BUF_SIZE"
  by (simp add: KLOG_BUF_SIZE_def)

lemma lb_available_occupied: "lb_available lb = occupied KLOG_BUF_SIZE (lb_head lb) (lb_tail lb)"
  by (simp add: lb_available_def occupied_def)

lemma lb_new_ok: "lb_ok lb_new \<and> lb_contents lb_new = []"
  using KLOG_BUF_SIZE_big by (simp add: lb_ok_def lb_new_def lb_contents_def lb_available_def)

lemma length_log_copy [simp]: "length (log_copy k pos rd data buf) = length buf"
  by (induction k arbitrary: pos rd buf) simp_all

lemma log_copy_window:
  assumes "length data = KLOG_BUF_SIZE" and "pos < KLOG_BUF_SIZE" and "rd + k \<le> length buf"
  shows "log_copy k pos rd data buf = take rd buf @ ring_window data pos k @ drop (rd + k) buf"
  using assms(2,3)
proof (induction k arbitrary: pos rd buf)
  case 0
  then show ?case by simp
next
  case (Suc k)
  have "log_copy (Suc k) pos rd data buf =
    take (rd + 1) (buf[rd := data ! pos]) @ ring_window data ((pos + 1) mod KLOG_BUF_SIZE) k
      @ drop (rd + 1 + k) (buf[rd := data ! pos])"
    using Suc.prems KLOG_BUF_SIZE_big by (simp add: Suc.IH)
  also have "take (rd + 1) (buf[rd := data ! pos]) = take rd buf @ [data ! pos]"
    using Suc.prems by (simp add: take_Suc_conv_app_nth)
  finally show ?case using Suc.prems assms(1) by (simp add: ring_window_Suc)
qed

lemma write_byte_ok: "lb_ok lb \<Longrightarrow> lb_ok (write_byte b lb)"
  using KLOG_BUF_SIZE_big by (simp add: lb_ok_def write_byte_def Let_def)

lemma write_byte_contents:
  assumes "lb_ok lb"
  shows "lb_contents (write_byte b lb) =
    (if length (lb_contents lb) < KLOG_BUF_SIZE - 1 then lb_contents lb else tl (lb_contents lb)) @ [b]"
proof -
  let ?N = KLOG_BUF_SIZE and ?h = "lb_head lb" and ?t = "lb_tail lb" and ?d = "lb_data lb"
  let ?n = "lb_available lb"
  have ok: "length ?d = ?N" "?h < ?N" "?t < ?N" using assms by (simp_all add: lb_ok_def)
  have n: "?n < ?N" using ok by (simp add: lb_available_occupied occupied_less)
  have h: "(?t + ?n) mod ?N = ?h" using ok by (simp add: lb_available_occupied head_from_tail)
  have full: "((?h + 1) mod ?N = ?t) = (Suc ?n = ?N)"
    unfolding lb_available_occupied by (rule occupied_full [OF ok(2,3)])
  show ?thesis
  proof (cases "(?h + 1) mod ?N = ?t")
    case False
    have "Suc (occupied ?N ?h ?t) < ?N" using False full n by (simp add: lb_available_occupied)
    then have "lb_available (write_byte b lb) = Suc ?n"
      using False occupied_push [OF ok(2,3)] by (simp add: write_byte_def Let_def lb_available_occupied)
    moreover have "ring_window (?d[?h := b]) ?t (Suc ?n) = ring_window ?d ?t ?n @ [b]"
      using ring_window_put [of ?n ?d ?t b] n h ok by simp
    moreover have "?n < ?N - 1" using False full n by linarith
    ultimately show ?thesis using False
      by (simp add: lb_contents_def) (simp add: write_byte_def Let_def)
  next
    case True
    let ?t' = "(?t + 1) mod ?N"
    from True full have nN: "Suc ?n = ?N" by simp
    then have n1: "?n = Suc (?n - 1)" using KLOG_BUF_SIZE_big by simp
    have t': "?t' < ?N" using KLOG_BUF_SIZE_big by simp
    have "(?t' + (?n - 1)) mod ?N = ?h" using h n1 by (metis Suc_eq_plus1 add_Suc_right add_Suc_shift mod_add_left_eq)
    then have put: "ring_window (?d[?h := b]) ?t' (Suc (?n - 1)) = ring_window ?d ?t' (?n - 1) @ [b]"
      using ring_window_put [of "?n - 1" ?d ?t' b] n ok by simp
    have "(?h + 1) mod ?N = (?t' + (Suc (?n - 1))) mod ?N"
      using h n1 by (metis Suc_eq_plus1 add_Suc_right add_Suc_shift mod_Suc_eq mod_add_left_eq)
    then have "occupied ?N ((?h + 1) mod ?N) ?t' = Suc (?n - 1)"
      using occupied_at [OF t', of "Suc (?n - 1)"] n n1 by simp
    then have av: "lb_available (write_byte b lb) = Suc (?n - 1)"
      using True by (simp add: write_byte_def Let_def lb_available_occupied)
    have "tl (ring_window ?d ?t ?n) = ring_window ?d ?t' (?n - 1)"
      using ok by (subst n1) (simp add: ring_window_Suc)
    moreover have "\<not> ?n < ?N - 1" using nN by linarith
    ultimately show ?thesis using True put av
      by (simp add: lb_contents_def) (simp add: write_byte_def Let_def)
  qed
qed

lemma lb_read_eq:
  assumes "lb_ok lb"
  shows "lb_read buf lb =
    (let k = min (length (lb_contents lb)) (length buf) in
     (k, take k (lb_contents lb) @ drop k buf, lb\<lparr>lb_tail := (lb_tail lb + k) mod KLOG_BUF_SIZE\<rparr>))"
proof -
  let ?k = "min (lb_available lb) (length buf)"
  have "log_copy ?k (lb_tail lb) 0 (lb_data lb) buf = ring_window (lb_data lb) (lb_tail lb) ?k @ drop ?k buf"
    using assms log_copy_window [of "lb_data lb" "lb_tail lb" 0 ?k buf] by (simp add: lb_ok_def)
  moreover have "ring_window (lb_data lb) (lb_tail lb) ?k = take ?k (lb_contents lb)"
    by (simp add: lb_contents_def take_ring_window)
  moreover have "lb_read buf lb = (?k, log_copy ?k (lb_tail lb) 0 (lb_data lb) buf,
      lb\<lparr>lb_tail := (lb_tail lb + ?k) mod KLOG_BUF_SIZE\<rparr>)"
    by (simp add: lb_read_def lb_read_loaded_def lb_available_def Let_def)
  ultimately show ?thesis by (simp add: Let_def lb_contents_def)
qed

lemma lb_drop_contents:
  assumes "lb_ok lb" and "k \<le> lb_available lb"
  shows "lb_contents (lb\<lparr>lb_tail := (lb_tail lb + k) mod KLOG_BUF_SIZE\<rparr>) = drop k (lb_contents lb)"
  using assms by (simp add: lb_ok_def lb_contents_def drop_ring_window lb_available_occupied occupied_pop)

text \<open>What a reader with an \<open>n\<close>-byte buffer gets.\<close>

definition log_get :: "nat \<Rightarrow> log_buffer \<Rightarrow> u8 list \<times> log_buffer" where
  "log_get n lb = (let (k, buf, lb') = lb_read (replicate n 0) lb in (take k buf, lb'))"

interpretation klog: overwriting_fifo lb_ok lb_contents "KLOG_BUF_SIZE - 1" log_get write_byte "\<lambda>b. b"
proof
  fix lb :: log_buffer and n :: nat and b :: u8
  assume ok: "lb_ok lb"
  let ?k = "min (length (lb_contents lb)) n"
  have len: "length (lb_contents lb) = lb_available lb" by (simp add: lb_contents_def)
  have get: "log_get n lb = (take ?k (lb_contents lb), lb\<lparr>lb_tail := (lb_tail lb + ?k) mod KLOG_BUF_SIZE\<rparr>)"
    using lb_read_eq [OF ok, of "replicate n 0"] by (simp add: log_get_def Let_def)
  show "length (lb_contents lb) \<le> KLOG_BUF_SIZE - 1"
    using ok occupied_less [of "lb_head lb" KLOG_BUF_SIZE "lb_tail lb"]
    by (simp add: len lb_available_occupied lb_ok_def)
  show "lb_ok (snd (log_get n lb))" using ok KLOG_BUF_SIZE_big by (simp add: get lb_ok_def)
  show "fst (log_get n lb) = take n (lb_contents lb)" by (simp add: get min_def)
  show "lb_contents (snd (log_get n lb)) = drop n (lb_contents lb)"
    using lb_drop_contents [OF ok, of ?k] by (simp add: get len min_def)
  show "lb_ok (write_byte b lb)" using ok by (rule write_byte_ok)
  show "lb_contents (write_byte b lb) =
    (if length (lb_contents lb) < KLOG_BUF_SIZE - 1 then lb_contents lb else tl (lb_contents lb)) @ [b]"
    using ok by (rule write_byte_contents)
qed (use KLOG_BUF_SIZE_big in simp)

lemma lb_clear_contents: "lb_ok lb \<Longrightarrow> lb_ok (lb_clear lb) \<and> lb_contents (lb_clear lb) = []"
  by (simp add: lb_ok_def lb_clear_def lb_contents_def lb_available_def)

lemma lb_peek_eq:
  assumes "lb_ok lb"
  shows "lb_peek buf off lb =
    (let k = min (length (lb_contents lb) - off) (length buf) in
     (k, take k (drop off (lb_contents lb)) @ drop k buf))"
proof (cases "off \<ge> lb_available lb")
  case True
  then show ?thesis by (simp add: lb_peek_def lb_contents_def Let_def)
next
  case False
  let ?k = "min (lb_available lb - off) (length buf)" and ?p = "(lb_tail lb + off) mod KLOG_BUF_SIZE"
  have "?p < KLOG_BUF_SIZE" using KLOG_BUF_SIZE_big by simp
  then have "log_copy ?k ?p 0 (lb_data lb) buf = ring_window (lb_data lb) ?p ?k @ drop ?k buf"
    using assms log_copy_window [of "lb_data lb" ?p 0 ?k buf] by (simp add: lb_ok_def)
  moreover have "take ?k (drop off (lb_contents lb)) = ring_window (lb_data lb) ?p ?k"
    using assms by (simp add: lb_contents_def drop_ring_window take_ring_window lb_ok_def min_def)
  ultimately show ?thesis using False by (simp add: lb_peek_def Let_def lb_contents_def)
qed

lemma log_flush_eq:
  assumes "lb_ok lb"
  shows "log_flush_to_file wr lb fs =
    (if lb_contents lb = [] then (lb, fs)
     else (lb\<lparr>lb_tail := (lb_tail lb + lb_available lb) mod KLOG_BUF_SIZE\<rparr>,
           wr ''/var/log/kernel'' (lb_contents lb) fs))"
proof -
  have len: "length (lb_contents lb) = lb_available lb" by (simp add: lb_contents_def)
  then have "(lb_contents lb = []) = (lb_available lb = 0)" by (metis length_0_conv)
  then show ?thesis using lb_read_eq [OF assms, of "replicate (lb_available lb) 0"] len
    by (simp add: log_flush_to_file_def log_read_def Let_def)
qed

text \<open>
  C33: Whatever was logged before, after any sequence of bytes the log holds exactly the newest
  32767 of them, in order. Peeking at an offset and reading return a prefix of those bytes
  and leave the rest of the caller's buffer alone, a read also removes what it returned, and a
  flush writes everything that is left to the log file and empties the buffer.
\<close>

theorem log_keeps_newest:
  assumes "lb_ok lb" and "lb' = fold write_byte bytes lb" and "rest = newest 32767 (lb_contents lb @ bytes)"
  shows "lb_ok lb' \<and> lb_contents lb' = rest \<and>
    lb_peek buf off lb' =
      (let k = min (length rest - off) (length buf) in (k, take k (drop off rest) @ drop k buf)) \<and>
    (let k = min (length rest) (length buf); (n, out, lb'') = lb_read buf lb' in
      n = k \<and> out = take k rest @ drop k buf \<and> lb_ok lb'' \<and> lb_contents lb'' = drop k rest) \<and>
    (rest \<noteq> [] \<longrightarrow> (let (lb'', fs') = log_flush_to_file wr lb' fs in
      fs' = wr ''/var/log/kernel'' rest fs \<and> lb_contents lb'' = []))"
proof -
  have size: "KLOG_BUF_SIZE - Suc 0 = 32767" by (simp add: KLOG_BUF_SIZE_def)
  have c: "lb_contents lb' = rest" and ok: "lb_ok lb'"
    using klog.put_each_newest [OF assms(1), of bytes] by (simp_all add: assms(2,3) size)
  have len: "lb_available lb' = length rest" using c by (simp add: lb_contents_def [symmetric] flip: c) (simp add: lb_contents_def)
  have drp: "lb_ok (lb'\<lparr>lb_tail := (lb_tail lb' + k) mod KLOG_BUF_SIZE\<rparr>)" for k
    using ok KLOG_BUF_SIZE_big by (simp add: lb_ok_def)
  show ?thesis
    using ok c len drp lb_drop_contents [OF ok]
    by (simp add: lb_peek_eq [OF ok] lb_read_eq [OF ok] log_flush_eq [OF ok] Let_def)
qed

section \<open>A write during a read\<close>

lemma write_bytes_head:
  assumes "lb_ok lb"
  shows "lb_head (fold write_byte bytes lb) = (lb_head lb + length bytes) mod KLOG_BUF_SIZE"
  using assms
proof (induction bytes arbitrary: lb)
  case Nil
  then show ?case by (simp add: lb_ok_def)
next
  case (Cons b bytes)
  then have "lb_head (fold write_byte (b # bytes) lb) =
    (lb_head (write_byte b lb) + length bytes) mod KLOG_BUF_SIZE" by (simp add: write_byte_ok)
  also have "lb_head (write_byte b lb) = (lb_head lb + 1) mod KLOG_BUF_SIZE"
    by (simp add: write_byte_def Let_def)
  finally show ?case by (simp add: mod_simps)
qed

text \<open>
  The buffer is described as single producer and single consumer, yet a write into a full
  buffer moves the consumer's index. When the log is full and \<open>n + 1\<close> bytes are logged after a
  reader with an \<open>n\<close>-byte buffer has loaded the indices, the reader's store of the tail undoes
  the writer's, and the whole log becomes unreadable.
\<close>

theorem log_race_loses_log:
  assumes "lb_ok lb" and "length (lb_contents lb) = 32767"
    and "length buf < 32767" and "length bytes = length buf + 1"
    and "lb' = fold write_byte bytes lb"
  shows "length (lb_contents lb') = 32767 \<and>
    (let (n, out, lb'') = lb_read_loaded (lb_head lb) (lb_tail lb) buf lb' in
      n = length buf \<and> lb_contents lb'' = [])"
proof -
  let ?N = KLOG_BUF_SIZE
  have N: "?N = 32768" by (simp add: KLOG_BUF_SIZE_def)
  have lens: "length (lb_contents lb') = 32767"
    using klog.put_each_newest [OF assms(1), of bytes] assms by (simp add: N newest_def)
  have av: "lb_available lb = 32767" using assms(2) by (simp add: lb_contents_def)
  have ok: "lb_head lb < ?N" "lb_tail lb < ?N" using assms(1) by (simp_all add: lb_ok_def)
  have "(lb_head lb + 1) mod ?N = lb_tail lb"
    using occupied_full [OF ok] av by (simp add: lb_available_occupied N)
  then have "(lb_head lb + (length buf + 1)) mod ?N = (lb_tail lb + length buf) mod ?N"
    by (metis add.assoc add.commute mod_add_left_eq)
  then have head: "lb_head lb' = (lb_tail lb + length buf) mod ?N"
    using write_bytes_head [OF assms(1), of bytes] assms(4,5) by simp
  have "min 32767 (length buf) = length buf" using assms(3) by simp
  then show ?thesis using lens av head
    by (simp add: lb_read_loaded_def lb_available_def [symmetric] Let_def lb_contents_def)
      (simp add: lb_available_def)
qed

section \<open>Witnesses\<close>

definition full_log :: log_buffer where
  "full_log = lb_new\<lparr>lb_head := 32767\<rparr>"

lemma full_log_ok: "lb_ok full_log \<and> length (lb_contents full_log) = 32767"
  by (simp add: full_log_def lb_ok_def lb_new_def lb_contents_def lb_available_def KLOG_BUF_SIZE_def)

theorem log_keeps_newest_witness:
  "lb_ok lb_new \<and> lb_contents (fold write_byte [72, 105] lb_new) = [72, 105] \<and>
   (let (n, out, lb'') = lb_read [9, 9, 9] (fold write_byte [72, 105] lb_new) in
     n = 2 \<and> out = [72, 105, 9] \<and> lb_contents lb'' = [])"
  using log_keeps_newest [OF conjunct1 [OF lb_new_ok] refl refl, where buf = "[9, 9, 9]" and off = 0
    and bytes = "[72, 105]" and wr = "\<lambda>_ _. id" and fs = "()"] lb_new_ok
  by (simp add: newest_def Let_def split: prod.splits)

theorem log_race_loses_log_witness:
  "lb_ok full_log \<and> length (lb_contents (fold write_byte [1, 2] full_log)) = 32767 \<and>
   (let (n, out, lb'') = lb_read_loaded (lb_head full_log) (lb_tail full_log) [0] (fold write_byte [1, 2] full_log) in
     n = 1 \<and> lb_contents lb'' = [])"
  using log_race_loses_log [OF conjunct1 [OF full_log_ok] conjunct2 [OF full_log_ok], where buf = "[0]" and bytes = "[1, 2]"] full_log_ok
  by (simp split: prod.splits)

end
