(* ===== verification/Token_Pipe.thy ===== *)
theory Token_Pipe
  imports Ring
begin

text \<open>
  The token pipe, \<open>kernel/src/tokpipe.rs\<close>: a ring of fixed-size token slots read in place through
  two slices. Its cursors run over twice the number of slots, so that a full ring and an empty one
  have different cursors.
\<close>

section \<open>Model\<close>

definition TOKEN_SLOTS :: usize where "TOKEN_SLOTS = 256"
definition TOKEN_MAX :: usize where "TOKEN_MAX = 64"

record token_slot =
  ts_len :: u16
  ts_data :: "u8 list"

record token_pipe =
  tp_ring :: "token_slot list"
  tp_head :: usize
  tp_tail :: usize
  tp_dropped :: u64

definition tp_new :: token_pipe where
  "tp_new = \<lparr>tp_ring = replicate TOKEN_SLOTS \<lparr>ts_len = 0, ts_data = replicate TOKEN_MAX 0\<rparr>,
     tp_head = 0, tp_tail = 0, tp_dropped = 0\<rparr>"

definition tp_len :: "token_pipe \<Rightarrow> usize" where
  "tp_len p = wsub (tp_head p) (tp_tail p) mod (TOKEN_SLOTS * 2)"

definition tp_is_empty :: "token_pipe \<Rightarrow> bool" where
  "tp_is_empty p \<longleftrightarrow> tp_head p = tp_tail p"

definition fill_slot :: "u8 list \<Rightarrow> token_slot \<Rightarrow> token_slot" where
  "fill_slot data slot =
    (let n = min (length data) TOKEN_MAX in
     slot\<lparr>ts_len := of_nat n, ts_data := take n data @ drop n (ts_data slot)\<rparr>)"

definition tp_push :: "u8 list \<Rightarrow> token_pipe \<Rightarrow> token_pipe" where
  "tp_push data p =
    (let p1 = (if tp_len p = TOKEN_SLOTS
               then p\<lparr>tp_tail := wadd (tp_tail p) 1 mod (TOKEN_SLOTS * 2), tp_dropped := tp_dropped p + 1\<rparr>
               else p);
         i = tp_head p1 mod TOKEN_SLOTS
     in p1\<lparr>tp_ring := (tp_ring p1)[i := fill_slot data (tp_ring p1 ! i)],
           tp_head := wadd (tp_head p1) 1 mod (TOKEN_SLOTS * 2)\<rparr>)"

text \<open>The two borrowed slices; a slice bound past the end of the ring panics.\<close>

definition tp_view :: "usize \<Rightarrow> token_pipe \<Rightarrow> ((token_slot list \<times> token_slot list) \<times> usize) panicking" where
  "tp_view n p =
    (let avail = min (tp_len p) n in
     if avail = 0 then Some (([], []), 0)
     else let t = tp_tail p mod TOKEN_SLOTS; first = min (TOKEN_SLOTS - t) avail in
       if first = avail then
         (if t + first \<le> length (tp_ring p) then Some ((take first (drop t (tp_ring p)), []), avail) else None)
       else
         (if t \<le> length (tp_ring p) \<and> avail - first \<le> length (tp_ring p)
          then Some ((drop t (tp_ring p), take (avail - first) (tp_ring p)), avail) else None))"

definition tp_consume :: "usize \<Rightarrow> token_pipe \<Rightarrow> token_pipe" where
  "tp_consume n p = p\<lparr>tp_tail := wadd (tp_tail p) n mod (TOKEN_SLOTS * 2)\<rparr>"

section \<open>The pipe as a queue of payloads\<close>

definition token_ok :: "token_slot \<Rightarrow> bool" where
  "token_ok s \<longleftrightarrow> length (ts_data s) = TOKEN_MAX \<and> unat (ts_len s) \<le> TOKEN_MAX"

definition payload :: "token_slot \<Rightarrow> u8 list" where
  "payload s = take (unat (ts_len s)) (ts_data s)"

definition tp_ok :: "token_pipe \<Rightarrow> bool" where
  "tp_ok p \<longleftrightarrow> length (tp_ring p) = TOKEN_SLOTS \<and> (\<forall>s \<in> set (tp_ring p). token_ok s) \<and>
    tp_tail p < TOKEN_SLOTS * 2 \<and> tp_len p \<le> TOKEN_SLOTS \<and>
    tp_head p = (tp_tail p + tp_len p) mod (TOKEN_SLOTS * 2)"

definition tp_slots :: "token_pipe \<Rightarrow> token_slot list" where
  "tp_slots p = ring_window (tp_ring p) (tp_tail p) (tp_len p)"

definition tp_contents :: "token_pipe \<Rightarrow> u8 list list" where
  "tp_contents p = map payload (tp_slots p)"

lemma TOKEN_SLOTS_facts: "0 < TOKEN_SLOTS" "TOKEN_SLOTS < TOKEN_SLOTS * 2" "TOKEN_SLOTS * 2 < 2 ^ 64"
  by (simp_all add: TOKEN_SLOTS_def)

lemma wadd_mod_cursor: "wadd x y mod (TOKEN_SLOTS * 2) = (x + y) mod (TOKEN_SLOTS * 2)"
proof -
  have "TOKEN_SLOTS * 2 dvd 2 ^ 64" by (simp add: TOKEN_SLOTS_def)
  then show ?thesis by (simp only: wadd_def mod_mod_cancel)
qed

lemma tp_len_cursors:
  assumes "tp_tail p < TOKEN_SLOTS * 2" and "n < TOKEN_SLOTS * 2"
    and "tp_head p = (tp_tail p + n) mod (TOKEN_SLOTS * 2)"
  shows "tp_len p = n"
proof -
  let ?M = "TOKEN_SLOTS * 2" and ?t = "tp_tail p"
  have dvd: "?M dvd 2 ^ 64" by (simp add: TOKEN_SLOTS_def)
  have "tp_len p = (tp_head p + (2 ^ 64 - ?t)) mod ?M"
    unfolding tp_len_def wsub_def by (rule mod_mod_cancel [OF dvd])
  also have "\<dots> = (?t + n + (2 ^ 64 - ?t)) mod ?M" by (simp only: assms(3) mod_add_left_eq)
  also have "?t + n + (2 ^ 64 - ?t) = n + 2 ^ 64" using assms(1) by (simp add: TOKEN_SLOTS_def)
  also have "(n + 2 ^ 64) mod ?M = n mod ?M" using dvd by (metis add.right_neutral dvd_imp_mod_0 mod_add_right_eq)
  finally show ?thesis using assms(2) by simp
qed

lemma tp_okI:
  assumes "length (tp_ring p) = TOKEN_SLOTS" and "\<forall>s \<in> set (tp_ring p). token_ok s"
    and "tp_tail p < TOKEN_SLOTS * 2" and "n \<le> TOKEN_SLOTS"
    and "tp_head p = (tp_tail p + n) mod (TOKEN_SLOTS * 2)"
  shows "tp_ok p \<and> tp_len p = n"
proof -
  have "tp_len p = n" using assms TOKEN_SLOTS_facts by (intro tp_len_cursors) auto
  with assms show ?thesis by (simp add: tp_ok_def)
qed

lemma tp_new_ok: "tp_ok tp_new \<and> tp_contents tp_new = []"
proof -
  have "tp_ok tp_new \<and> tp_len tp_new = 0"
    by (rule tp_okI) (auto simp: tp_new_def token_ok_def TOKEN_SLOTS_def)
  then show ?thesis by (simp add: tp_contents_def tp_slots_def)
qed

lemma fill_token_ok: "token_ok s \<Longrightarrow> token_ok (fill_slot data s)"
  by (simp add: token_ok_def fill_slot_def Let_def TOKEN_MAX_def unat_of_nat min_def)

lemma payload_fill_slot: "payload (fill_slot data s) = take TOKEN_MAX data"
  by (simp add: payload_def fill_slot_def Let_def TOKEN_MAX_def unat_of_nat min_def)

lemma tp_drop:
  assumes "tp_ok p" and "k \<le> tp_len p"
  shows "tp_ok (tp_consume k p) \<and> tp_contents (tp_consume k p) = drop k (tp_contents p)"
proof -
  let ?M = "TOKEN_SLOTS * 2" and ?q = "tp_consume k p"
  have t: "tp_tail ?q = (tp_tail p + k) mod ?M" by (simp add: tp_consume_def wadd_mod_cursor)
  have fld: "tp_ring ?q = tp_ring p" "tp_head ?q = tp_head p" by (simp_all add: tp_consume_def)
  have "tp_ok ?q \<and> tp_len ?q = tp_len p - k"
  proof (rule tp_okI)
    show "tp_head ?q = (tp_tail ?q + (tp_len p - k)) mod ?M"
      using assms unfolding t fld mod_add_left_eq by (simp add: tp_ok_def)
    show "tp_len p - k \<le> TOKEN_SLOTS" using assms by (auto simp: tp_ok_def)
  qed (use assms TOKEN_SLOTS_facts(1) in \<open>simp_all add: fld t tp_ok_def\<close>)
  moreover have "tp_tail ?q mod TOKEN_SLOTS = (tp_tail p + k) mod TOKEN_SLOTS"
    unfolding t by (rule mod_mod_cancel) simp
  then have "ring_window (tp_ring p) (tp_tail ?q) n = ring_window (tp_ring p) ((tp_tail p + k) mod TOKEN_SLOTS) n" for n
    using assms ring_window_mod [of "tp_ring p" "tp_tail ?q" n] by (simp add: tp_ok_def)
  ultimately show ?thesis using assms
    by (simp add: tp_contents_def tp_slots_def fld drop_map drop_ring_window tp_ok_def del: ring_window_mod)
qed

text \<open>Pushing into a ring that is not full.\<close>

definition append_slot :: "u8 list \<Rightarrow> token_pipe \<Rightarrow> token_pipe" where
  "append_slot data p =
    (let i = tp_head p mod TOKEN_SLOTS in
     p\<lparr>tp_ring := (tp_ring p)[i := fill_slot data (tp_ring p ! i)],
       tp_head := wadd (tp_head p) 1 mod (TOKEN_SLOTS * 2)\<rparr>)"

lemma tp_append:
  assumes "tp_ok p" and "tp_len p < TOKEN_SLOTS"
  shows "tp_ok (append_slot data p) \<and>
    tp_contents (append_slot data p) = tp_contents p @ [take TOKEN_MAX data]"
proof -
  let ?M = "TOKEN_SLOTS * 2" and ?q = "append_slot data p" and ?n = "tp_len p"
  let ?i = "tp_head p mod TOKEN_SLOTS"
  have len: "length (tp_ring p) = TOKEN_SLOTS" and h: "tp_head p = (tp_tail p + ?n) mod ?M"
    using assms by (simp_all add: tp_ok_def)
  have i: "?i = (tp_tail p + ?n) mod length (tp_ring p)" unfolding h len by (rule mod_mod_cancel) simp
  have fld: "tp_ring ?q = (tp_ring p)[?i := fill_slot data (tp_ring p ! ?i)]" "tp_tail ?q = tp_tail p"
    "tp_head ?q = (tp_head p + 1) mod ?M"
    by (simp_all add: append_slot_def Let_def wadd_mod_cursor)
  have "?i < length (tp_ring p)" using len TOKEN_SLOTS_facts by simp
  then have sl: "token_ok (fill_slot data (tp_ring p ! ?i))"
    using assms by (intro fill_token_ok) (simp add: tp_ok_def)
  have q: "tp_ok ?q \<and> tp_len ?q = Suc ?n"
  proof (rule tp_okI)
    show "\<forall>s \<in> set (tp_ring ?q). token_ok s"
      unfolding fld using assms sl by (intro set_update_all) (auto simp: tp_ok_def)
    show "tp_head ?q = (tp_tail ?q + Suc ?n) mod ?M" unfolding fld by (subst h) (simp add: mod_simps)
  qed (use assms in \<open>simp_all add: fld tp_ok_def\<close>)
  have "tp_slots ?q = tp_slots p @ [fill_slot data (tp_ring p ! ?i)]"
    using q assms len ring_window_put [of ?n "tp_ring p" "tp_tail p"]
    unfolding tp_slots_def fld i by simp
  with q show ?thesis by (simp add: tp_contents_def payload_fill_slot)
qed

lemma tp_push_eq:
  "tp_push data p =
    (if tp_len p = TOKEN_SLOTS then append_slot data ((tp_consume 1 p)\<lparr>tp_dropped := tp_dropped p + 1\<rparr>)
     else append_slot data p)"
  by (simp add: tp_push_def append_slot_def tp_consume_def Let_def)

lemma tp_dropped_irrelevant [simp]:
  "tp_ok (p\<lparr>tp_dropped := d\<rparr>) = tp_ok p" "tp_contents (p\<lparr>tp_dropped := d\<rparr>) = tp_contents p"
  "tp_len (p\<lparr>tp_dropped := d\<rparr>) = tp_len p"
  by (simp_all add: tp_ok_def tp_contents_def tp_slots_def tp_len_def)

lemma length_tp_contents [simp]: "length (tp_contents p) = tp_len p"
  by (simp add: tp_contents_def tp_slots_def)

lemma tp_push_contents:
  assumes "tp_ok p"
  shows "tp_ok (tp_push data p) \<and> tp_contents (tp_push data p) =
    (if length (tp_contents p) < TOKEN_SLOTS then tp_contents p else tl (tp_contents p)) @ [take TOKEN_MAX data]"
proof (cases "tp_len p = TOKEN_SLOTS")
  case True
  let ?q = "(tp_consume 1 p)\<lparr>tp_dropped := tp_dropped p + 1\<rparr>"
  have d: "tp_ok ?q" "tp_contents ?q = tl (tp_contents p)"
    using tp_drop [OF assms, of 1] True TOKEN_SLOTS_facts by (simp_all add: drop_Suc)
  then have "tp_len ?q = TOKEN_SLOTS - 1" using True by (metis length_tl length_tp_contents)
  then have "tp_len ?q < TOKEN_SLOTS" using TOKEN_SLOTS_facts by simp
  from tp_append [OF d(1) this] d True show ?thesis by (simp add: tp_push_eq)
next
  case False
  then have "tp_len p < TOKEN_SLOTS" using assms by (simp add: tp_ok_def)
  from tp_append [OF assms this] this show ?thesis by (simp add: tp_push_eq)
qed

lemma tp_view_slots:
  assumes "tp_ok p"
  shows "\<exists>s0 s1. tp_view n p = Some ((s0, s1), min (tp_len p) n) \<and> s0 @ s1 = take n (tp_slots p)"
proof -
  define a where "a = min (tp_len p) n"
  define t where "t = tp_tail p mod TOKEN_SLOTS"
  have len: "length (tp_ring p) = TOKEN_SLOTS" and a: "a \<le> TOKEN_SLOTS"
    using assms by (auto simp: tp_ok_def a_def)
  have t: "t < TOKEN_SLOTS" using TOKEN_SLOTS_facts by (simp add: t_def)
  have win: "take n (tp_slots p) = ring_window (tp_ring p) t a"
    using ring_window_mod [of "tp_ring p" "tp_tail p" a] len
    by (simp add: tp_slots_def take_ring_window min.commute a_def t_def)
  consider (none) "a = 0" | (one) "a \<noteq> 0" "a \<le> TOKEN_SLOTS - t" | (two) "a \<noteq> 0" "TOKEN_SLOTS - t < a"
    by linarith
  then show ?thesis
  proof cases
    case none
    then have "tp_view n p = Some (([], []), a)" by (simp add: tp_view_def Let_def flip: a_def)
    with none win show ?thesis by (simp add: a_def)
  next
    case one
    then have m: "min (TOKEN_SLOTS - t) a = a" by simp
    have "ring_window (tp_ring p) t a = take a (drop t (tp_ring p))"
      using one t len by (intro ring_window_straight) simp
    moreover have "tp_view n p = Some ((take a (drop t (tp_ring p)), []), a)"
      using one t len by (simp add: tp_view_def Let_def m flip: a_def t_def)
    ultimately show ?thesis using win by (simp add: a_def)
  next
    case two
    then have m: "min (TOKEN_SLOTS - t) a = TOKEN_SLOTS - t" by simp
    have "ring_window (tp_ring p) t a = drop t (tp_ring p) @ take (t + a - length (tp_ring p)) (tp_ring p)"
      using two t len a by (intro ring_window_folded) auto
    moreover have "t + a - length (tp_ring p) = a - (TOKEN_SLOTS - t)" using t len two by simp
    moreover have "tp_view n p = Some ((drop t (tp_ring p), take (a - (TOKEN_SLOTS - t)) (tp_ring p)), a)"
      using two t len a by (simp add: tp_view_def Let_def m flip: a_def t_def)
    ultimately show ?thesis using win by (simp add: a_def)
  qed
qed

text \<open>A reader that views up to \<open>n\<close> tokens and consumes what it saw.\<close>

definition tp_get :: "nat \<Rightarrow> token_pipe \<Rightarrow> u8 list list \<times> token_pipe" where
  "tp_get n p = (case tp_view n p of
     None \<Rightarrow> ([], p)
   | Some ((s0, s1), k) \<Rightarrow> (map payload (s0 @ s1), tp_consume k p))"

interpretation tokens: overwriting_fifo tp_ok tp_contents TOKEN_SLOTS tp_get tp_push "take TOKEN_MAX"
proof
  fix p :: token_pipe and n :: nat and d :: "u8 list"
  assume ok: "tp_ok p"
  have get: "tp_get n p = (take n (tp_contents p), tp_consume (min (tp_len p) n) p)"
    using tp_view_slots [OF ok, of n]
    by (auto simp: tp_get_def tp_contents_def take_map simp flip: map_append)
  show "length (tp_contents p) \<le> TOKEN_SLOTS" using ok by (simp add: tp_ok_def)
  show "tp_ok (snd (tp_get n p))" "tp_contents (snd (tp_get n p)) = drop n (tp_contents p)"
    using tp_drop [OF ok, of "min (tp_len p) n"] by (simp_all add: get min_def)
  show "fst (tp_get n p) = take n (tp_contents p)" by (simp add: get)
  show "tp_ok (tp_push d p)" "tp_contents (tp_push d p) =
    (if length (tp_contents p) < TOKEN_SLOTS then tp_contents p else tl (tp_contents p)) @ [take TOKEN_MAX d]"
    using tp_push_contents [OF ok, of d] by simp_all
qed (rule TOKEN_SLOTS_facts)

lemma tp_dropped_push:
  "tp_dropped (tp_push d p) = tp_dropped p + (if tp_len p = TOKEN_SLOTS then 1 else 0)"
  by (simp add: tp_push_eq append_slot_def tp_consume_def Let_def)

lemma tp_dropped_pushes:
  assumes "tp_ok p"
  shows "tp_dropped (fold tp_push ds p) = tp_dropped p + of_nat (tp_len p + length ds - TOKEN_SLOTS)"
  using assms
proof (induction ds arbitrary: p)
  case Nil
  then show ?case by (simp add: tp_ok_def)
next
  case (Cons d ds)
  have q: "tp_ok (tp_push d p)" using tp_push_contents [OF Cons.prems, of d] by simp
  have "length (tp_contents (tp_push d p)) = (if tp_len p < TOKEN_SLOTS then Suc (tp_len p) else TOKEN_SLOTS)"
    using tp_push_contents [OF Cons.prems, of d] Cons.prems TOKEN_SLOTS_facts by (auto simp: tp_ok_def)
  with Cons.IH [OF q] Cons.prems show ?case by (auto simp: tp_dropped_push tp_ok_def)
qed

text \<open>
  C37: From any well-formed state, after pushing any tokens the pipe holds exactly the newest 256,
  each cut to its first 64 bytes, and \<open>dropped\<close> has grown by the number of tokens lost. A view of
  up to \<open>n\<close> tokens never panics; its two borrowed slices together are the oldest \<open>n\<close> tokens in
  order, and consuming what was viewed leaves exactly the others.
\<close>

theorem token_pipe_keeps_newest:
  assumes "tp_ok p" and "q = fold tp_push ds p" and "kept = newest 256 (tp_contents p @ map (take 64) ds)"
  shows "tp_ok q \<and> tp_contents q = kept \<and>
    tp_dropped q = tp_dropped p + of_nat (length (tp_contents p) + length ds - 256) \<and>
    (\<exists>s0 s1. tp_view n q = Some ((s0, s1), min (length kept) n) \<and>
      map payload (s0 @ s1) = take n kept \<and>
      tp_ok (tp_consume (min (length kept) n) q) \<and>
      tp_contents (tp_consume (min (length kept) n) q) = drop n kept)"
proof -
  have size: "TOKEN_SLOTS = 256" "TOKEN_MAX = 64" by (simp_all add: TOKEN_SLOTS_def TOKEN_MAX_def)
  have c: "tp_contents q = kept" and ok: "tp_ok q"
    using tokens.put_each_newest [OF assms(1), of ds] by (simp_all add: assms(2,3) size)
  have len: "length kept = tp_len q" using c by (metis length_tp_contents)
  obtain s0 s1 where v: "tp_view n q = Some ((s0, s1), min (tp_len q) n)" "s0 @ s1 = take n (tp_slots q)"
    using tp_view_slots [OF ok, of n] by blast
  have "map payload (s0 @ s1) = take n kept" by (simp only: v(2) c [symmetric] tp_contents_def take_map)
  moreover have "tp_ok (tp_consume (min (length kept) n) q) \<and>
      tp_contents (tp_consume (min (length kept) n) q) = drop n kept"
    using tp_drop [OF ok, of "min (tp_len q) n"] by (simp add: len c) (simp add: len min_def)
  ultimately show ?thesis
    using ok c v(1) len tp_dropped_pushes [OF assms(1), of ds] by (simp add: assms(2) size)
qed

theorem token_pipe_keeps_newest_witness:
  "tp_ok tp_new \<and> tp_contents (fold tp_push [[1, 2], [3]] tp_new) = [[1, 2], [3]] \<and>
   (\<exists>s0 s1. tp_view 1 (fold tp_push [[1, 2], [3]] tp_new) = Some ((s0, s1), 1) \<and>
     map payload (s0 @ s1) = [[1, 2]])"
  using token_pipe_keeps_newest [OF conjunct1 [OF tp_new_ok] refl refl, where n = 1 and ds = "[[1, 2], [3]]"]
    tp_new_ok by (auto simp: newest_def)

end
