(* ===== verification/Fd_Table.thy ===== *)
theory Fd_Table
  imports Karte_Prelude
begin

text \<open>
  The per-process descriptor table of \<open>kernel/src/driver/fs.rs\<close>: descriptor types, the allocation of
  descriptors, duplication and removal, and the in-memory files that live inside a descriptor.
  A descriptor number is the value after the cast to \<open>usize\<close>, where a negative one is out of range.
\<close>

section \<open>Model\<close>

definition MAX_FDS :: usize where "MAX_FDS = 32"
definition O_RDONLY :: u32 where "O_RDONLY = 0"
definition O_WRONLY :: u32 where "O_WRONLY = 1"

datatype fd_type =
  Stdio
| File
| PipeRead
| PipeWrite
| FakeFile "u8 list"
| VirtualFile
| Urandom
| Eventfd
| Epoll
| Timerfd
| Ext4File u32 bool
| VfsFile usize

record file_descriptor =
  fd_name :: string
  fd_pos :: usize
  fd_flags :: u32
  fd_valid :: bool
  fd_ty :: fd_type
  fd_pipe_id :: "usize option"
  fd_num :: usize

type_synonym fd_table = "file_descriptor option list"

text \<open>What the sources of readiness answer: terminal input, pipe fill, eventfd and timerfd counters.\<close>

definition is_readable ::
  "bool \<Rightarrow> (usize \<Rightarrow> usize) \<Rightarrow> (usize \<Rightarrow> nat) \<Rightarrow> (usize \<Rightarrow> bool) \<Rightarrow> file_descriptor \<Rightarrow> bool" where
  "is_readable tty_has_input pipe_avail eventfd_peek timerfd_peek d =
    (case fd_ty d of
       Stdio \<Rightarrow> (if fd_name d = ''stdin'' then tty_has_input else False)
     | PipeRead \<Rightarrow> (case fd_pipe_id d of Some pid \<Rightarrow> pipe_avail pid > 0 | None \<Rightarrow> False)
     | Eventfd \<Rightarrow> eventfd_peek (fd_num d) > 0
     | Timerfd \<Rightarrow> timerfd_peek (fd_num d)
     | _ \<Rightarrow> False)"

definition is_writable :: "file_descriptor \<Rightarrow> bool" where
  "is_writable d =
    (case fd_ty d of
       Stdio \<Rightarrow> fd_name d \<noteq> ''stdin''
     | PipeWrite \<Rightarrow> True
     | PipeRead \<Rightarrow> False | Eventfd \<Rightarrow> False | Epoll \<Rightarrow> False | Timerfd \<Rightarrow> False
     | Ext4File _ writable \<Rightarrow> writable
     | _ \<Rightarrow> True)"

definition new_fd :: "string \<Rightarrow> u32 \<Rightarrow> fd_type \<Rightarrow> usize option \<Rightarrow> usize \<Rightarrow> file_descriptor" where
  "new_fd name flags ty pid num = \<lparr>fd_name = name, fd_pos = 0, fd_flags = flags, fd_valid = True,
     fd_ty = ty, fd_pipe_id = pid, fd_num = num\<rparr>"

definition ft_new :: fd_table where
  "ft_new = (replicate MAX_FDS None)
     [0 := Some (new_fd ''stdin'' O_RDONLY Stdio None 0),
      1 := Some (new_fd ''stdout'' O_WRONLY Stdio None 0),
      2 := Some (new_fd ''stderr'' O_WRONLY Stdio None 0)]"

definition slot_unused :: "file_descriptor option \<Rightarrow> bool" where
  "slot_unused s \<longleftrightarrow> s = None \<or> \<not> (case s of Some f \<Rightarrow> fd_valid f | None \<Rightarrow> False)"

text \<open>The loop that all the allocation functions share: the first unused slot takes the new entry.\<close>

definition alloc_slot :: "(usize \<Rightarrow> file_descriptor) \<Rightarrow> fd_table \<Rightarrow> usize option \<times> fd_table" where
  "alloc_slot mk t =
    (case find (\<lambda>i. slot_unused (t ! i)) [0..<length t] of
       Some i \<Rightarrow> (Some i, t[i := Some (mk i)])
     | None \<Rightarrow> (None, t))"

definition ft_alloc :: "string \<Rightarrow> u32 \<Rightarrow> fd_table \<Rightarrow> usize option \<times> fd_table" where
  "ft_alloc name flags = alloc_slot (\<lambda>_. new_fd name flags File None 0)"

definition alloc_vfs_fd :: "string \<Rightarrow> usize \<Rightarrow> u32 \<Rightarrow> fd_table \<Rightarrow> usize option \<times> fd_table" where
  "alloc_vfs_fd name vfs_fd flags = alloc_slot (\<lambda>_. new_fd name flags (VfsFile vfs_fd) None 0)"

definition alloc_stdio_fd :: "string \<Rightarrow> u32 \<Rightarrow> fd_table \<Rightarrow> usize option \<times> fd_table" where
  "alloc_stdio_fd name flags = alloc_slot (\<lambda>_. new_fd name flags Stdio None 0)"

definition alloc_fake_fd :: "string \<Rightarrow> u32 \<Rightarrow> fd_table \<Rightarrow> usize option \<times> fd_table" where
  "alloc_fake_fd name flags = alloc_slot (\<lambda>_. new_fd name flags (FakeFile []) None 0)"

definition alloc_urandom_fd :: "u32 \<Rightarrow> fd_table \<Rightarrow> usize option \<times> fd_table" where
  "alloc_urandom_fd flags = alloc_slot (\<lambda>_. new_fd ''/dev/urandom'' flags Urandom None 0)"

definition alloc_special_fd :: "string \<Rightarrow> u32 \<Rightarrow> fd_type \<Rightarrow> fd_table \<Rightarrow> usize option \<times> fd_table" where
  "alloc_special_fd name flags ty = alloc_slot (\<lambda>i. new_fd name flags ty None i)"

definition alloc_pipe_fd :: "usize \<Rightarrow> bool \<Rightarrow> fd_table \<Rightarrow> usize option \<times> fd_table" where
  "alloc_pipe_fd pid is_read = alloc_slot (\<lambda>i.
     new_fd (if is_read then ''pipe:read'' else ''pipe:write'')
       (if is_read then O_RDONLY else O_WRONLY) (if is_read then PipeRead else PipeWrite) (Some pid) i)"

definition set_fd :: "usize \<Rightarrow> file_descriptor \<Rightarrow> fd_table \<Rightarrow> fd_table" where
  "set_fd fd d t = (if fd < length t then t[fd := Some d] else t)"

definition ft_get :: "usize \<Rightarrow> fd_table \<Rightarrow> file_descriptor option" where
  "ft_get fd t =
    (if fd < length t then (case t ! fd of Some d \<Rightarrow> if fd_valid d then Some d else None | None \<Rightarrow> None) else None)"

definition ft_dup :: "usize \<Rightarrow> usize \<Rightarrow> fd_table \<Rightarrow> bool \<times> fd_table" where
  "ft_dup oldfd newfd t =
    (if newfd \<ge> length t then (False, t)
     else (case ft_get oldfd t of
       Some d \<Rightarrow> (True, t[newfd := Some d])
     | None \<Rightarrow> (False, t)))"

definition ft_take :: "usize \<Rightarrow> fd_table \<Rightarrow> file_descriptor option \<times> fd_table" where
  "ft_take fd t = (case ft_get fd t of Some d \<Rightarrow> (Some d, t[fd := None]) | None \<Rightarrow> (None, t))"

definition drain_open_fds :: "fd_table \<Rightarrow> (usize \<times> file_descriptor) list \<times> fd_table" where
  "drain_open_fds t =
    (List.map_filter (\<lambda>i. map_option (Pair i) (ft_get i t)) [0..<length t],
     map (\<lambda>s. case s of Some d \<Rightarrow> if fd_valid d then None else Some d | None \<Rightarrow> None) t)"

definition ft_close :: "usize \<Rightarrow> fd_table \<Rightarrow> bool \<times> fd_table" where
  "ft_close fd t = (case ft_get fd t of Some d \<Rightarrow> (True, t[fd := None]) | None \<Rightarrow> (False, t))"

section \<open>Files inside a descriptor\<close>

text \<open>\<open>Vec::resize(n, 0)\<close>\<close>

definition resize :: "nat \<Rightarrow> u8 list \<Rightarrow> u8 list" where
  "resize n xs = (if n \<le> length xs then take n xs else xs @ replicate (n - length xs) 0)"

text \<open>
  The outer option is the panic of an index past the end, the inner one the answer \<open>None\<close> for a
  descriptor that is not such a file. \<open>mem\<close> is what \<open>user_read_u8\<close> returns.
\<close>

definition fake_write ::
  "(usize \<Rightarrow> u8) \<Rightarrow> usize \<Rightarrow> usize \<Rightarrow> usize \<Rightarrow> fd_table \<Rightarrow> (int option \<times> fd_table) panicking" where
  "fake_write mem fd buf len t =
    (case (if fd < length t then t ! fd else None) of
       Some d \<Rightarrow> (case fd_ty d of
         FakeFile data \<Rightarrow>
           (let pos = fd_pos d; finish = wadd pos len;
                data1 = (if finish > length data then resize finish data else data)
            in if len = 0 \<or> pos + len \<le> length data1
               then Some (Some (int len), t[fd := Some (d\<lparr>
                 fd_ty := FakeFile (fold (\<lambda>i dt. dt[pos + i := mem (wadd buf i)]) [0..<len] data1),
                 fd_pos := finish\<rparr>)])
               else None)
       | _ \<Rightarrow> Some (None, t))
     | None \<Rightarrow> Some (None, t))"

text \<open>The generator behind \<open>/dev/urandom\<close>: one step per byte, the byte picked by its index.\<close>

definition prng_next :: "u64 \<Rightarrow> u64" where
  "prng_next prev = prev * 6364136223846793005 + 1442695040888963407"

fun urandom_bytes :: "nat \<Rightarrow> nat \<Rightarrow> u64 \<Rightarrow> u8 list \<times> u64" where
  "urandom_bytes i 0 g = ([], g)"
| "urandom_bytes i (Suc left) g =
    (let g' = prng_next g; (bs, g'') = urandom_bytes (i + 1) left g'
     in (ucast (drop_bit ((i mod 8) * 8) g' AND 255) # bs, g''))"

text \<open>The bytes stored to the caller's buffer, the table and the generator state.\<close>

definition fake_read :: "usize \<Rightarrow> usize \<Rightarrow> u64 \<Rightarrow> fd_table \<Rightarrow> (int \<times> u8 list) option \<times> u64 \<times> fd_table" where
  "fake_read fd len prng t =
    (case (if fd < length t then t ! fd else None) of
       Some d \<Rightarrow> (case fd_ty d of
         FakeFile data \<Rightarrow>
           (let pos = fd_pos d; avail = (if pos < length data then length data - pos else 0); to_read = min len avail
            in (Some (int to_read, map (\<lambda>i. data ! (pos + i)) [0..<to_read]), prng,
                t[fd := Some (d\<lparr>fd_pos := pos + to_read\<rparr>)]))
       | Urandom \<Rightarrow>
           (let (bs, prng') = urandom_bytes 0 len prng
            in (Some (int len, bs), prng', t[fd := Some (d\<lparr>fd_pos := 0 + len\<rparr>)]))
       | _ \<Rightarrow> (None, prng, t))
     | None \<Rightarrow> (None, prng, t))"

definition fake_truncate :: "usize \<Rightarrow> usize \<Rightarrow> fd_table \<Rightarrow> bool \<times> fd_table" where
  "fake_truncate fd n t =
    (case (if fd < length t then t ! fd else None) of
       Some d \<Rightarrow> (case fd_ty d of
         FakeFile data \<Rightarrow> (True, t[fd := Some (d\<lparr>fd_ty := FakeFile (resize n data),
           fd_pos := (if fd_pos d > n then n else fd_pos d)\<rparr>)])
       | _ \<Rightarrow> (False, t))
     | None \<Rightarrow> (False, t))"

section \<open>Allocation\<close>

text \<open>No code clears the valid flag of an entry, so an unused slot is an empty one.\<close>

definition ft_ok :: "fd_table \<Rightarrow> bool" where
  "ft_ok t \<longleftrightarrow> length t = MAX_FDS \<and> (\<forall>d. Some d \<in> set t \<longrightarrow> fd_valid d)"

lemma ft_ok_nth: "ft_ok t \<Longrightarrow> fd < length t \<Longrightarrow> t ! fd = Some d \<Longrightarrow> fd_valid d"
  by (metis ft_ok_def nth_mem)

lemma ft_ok_update: "ft_ok t \<Longrightarrow> (\<And>d. s = Some d \<Longrightarrow> fd_valid d) \<Longrightarrow> ft_ok (t[i := s])"
  using set_update_subset_insert [of t i s] by (auto simp: ft_ok_def)

lemma new_fd_valid [simp]: "fd_valid (new_fd n f ty p k)"
  by (simp add: new_fd_def)

lemma ft_get_ok: "ft_ok t \<Longrightarrow> ft_get fd t = (if fd < length t then t ! fd else None)"
  using ft_ok_nth [of t fd] by (auto simp: ft_get_def split: option.splits)

lemma slot_unused_ok: "ft_ok t \<Longrightarrow> fd < length t \<Longrightarrow> slot_unused (t ! fd) \<longleftrightarrow> t ! fd = None"
  using ft_ok_nth [of t fd] by (auto simp: slot_unused_def split: option.splits)

lemma ft_new_ok: "ft_ok ft_new"
  unfolding ft_new_def by (intro ft_ok_update) (auto simp: ft_ok_def)

lemma alloc_slot_cases:
  assumes "ft_ok t"
  obtains (full) "alloc_slot mk t = (None, t)" "\<forall>i < length t. t ! i \<noteq> None"
  | (fresh) i where "alloc_slot mk t = (Some i, t[i := Some (mk i)])" "i < length t" "t ! i = None"
      "\<forall>j < i. t ! j \<noteq> None"
proof (cases "find (\<lambda>i. slot_unused (t ! i)) [0..<length t]")
  case None
  then have "\<forall>i < length t. \<not> slot_unused (t ! i)" by (simp add: find_None_iff)
  then show ?thesis using None by (intro full) (auto simp: alloc_slot_def slot_unused_ok [OF assms])
next
  case (Some i)
  then have i: "i < length t" "slot_unused (t ! i)" "\<forall>j \<in> {0..<i}. \<not> slot_unused (t ! j)"
    by (simp_all add: find_upt_Some_iff)
  show ?thesis
    using Some i by (intro fresh [of i]) (auto simp: alloc_slot_def slot_unused_ok [OF assms])
qed

text \<open>
  C39: Descriptor allocation, for each kind of descriptor: the lowest unused number is taken, the
  other descriptors are unchanged, the new one is valid and starts at position 0, and allocation
  fails exactly when all 32 descriptors are in use, leaving the table as it was.
\<close>

theorem fd_alloc_lowest:
  assumes "ft_ok t" and "alloc \<in> {ft_alloc name flags, alloc_vfs_fd name v flags, alloc_stdio_fd name flags,
    alloc_fake_fd name flags, alloc_urandom_fd flags, alloc_special_fd name flags ty, alloc_pipe_fd pid rd}"
  shows "(case alloc t of
      (None, t') \<Rightarrow> t' = t \<and> (\<forall>fd < 32. ft_get fd t \<noteq> None)
    | (Some fd, t') \<Rightarrow> fd < 32 \<and> ft_get fd t = None \<and> (\<forall>j < fd. ft_get j t \<noteq> None) \<and>
        ft_ok t' \<and> (\<forall>j. j \<noteq> fd \<longrightarrow> ft_get j t' = ft_get j t) \<and>
        (\<exists>d. ft_get fd t' = Some d \<and> fd_pos d = 0))"
proof -
  have len: "length t = 32" using assms(1) by (simp add: ft_ok_def MAX_FDS_def)
  obtain mk where mk: "alloc = alloc_slot mk" "\<And>i. fd_valid (mk i) \<and> fd_pos (mk i) = 0"
    using assms(2)
    by (auto simp: ft_alloc_def alloc_vfs_fd_def alloc_stdio_fd_def alloc_fake_fd_def alloc_urandom_fd_def
        alloc_special_fd_def alloc_pipe_fd_def new_fd_def)
  show ?thesis
  proof (rule alloc_slot_cases [OF assms(1), of mk])
    assume "alloc_slot mk t = (None, t)" "\<forall>i < length t. t ! i \<noteq> None"
    then show ?thesis using mk(1) len by (simp add: ft_get_ok [OF assms(1)])
  next
    fix i assume i: "alloc_slot mk t = (Some i, t[i := Some (mk i)])" "i < length t" "t ! i = None"
      "\<forall>j < i. t ! j \<noteq> None"
    have ok: "ft_ok (t[i := Some (mk i)])" using assms(1) mk(2) by (intro ft_ok_update) auto
    show ?thesis
      using i mk len ok by (auto simp: ft_get_ok [OF assms(1)] ft_get_ok [OF ok])
  qed
qed

section \<open>Writing and reading files inside a descriptor\<close>

lemma store_bytes:
  assumes "pos + n \<le> length data"
  shows "fold (\<lambda>i dt. dt[pos + i := f i]) [0..<n] data = take pos data @ map f [0..<n] @ drop (pos + n) (data :: u8 list)"
  using assms
proof (induction n)
  case (Suc n)
  then have len: "pos + n < length data" by simp
  have "fold (\<lambda>i dt. dt[pos + i := f i]) [0..<Suc n] data = (take pos data @ map f [0..<n] @ drop (pos + n) data)[pos + n := f n]"
    using Suc by simp
  also have "drop (pos + n) data = data ! (pos + n) # drop (pos + Suc n) data"
    using len by (simp add: Cons_nth_drop_Suc)
  finally show ?case using len by (simp add: list_update_append min_def)
qed simp

lemma length_resize [simp]: "length (resize n xs) = n"
  by (simp add: resize_def)

text \<open>
  A write to an in-memory file at its position never panics as long as the end does not pass
  \<open>2 ^ 64\<close>: a gap up to the position is filled with zeros, exactly the written range is
  overwritten, and the position moves behind it. Reading the range back (from a descriptor of
  the resulting file positioned at its start) delivers the bytes that were written.
\<close>

theorem fake_file_roundtrip:
  assumes "fd < length t" and "t ! fd = Some d" and "fd_ty d = FakeFile data" and "fd_pos d + len < 2 ^ 64"
    and "bytes = map (\<lambda>i. mem (wadd buf i)) [0..<len]"
  shows "\<exists>t' d' data'. fake_write mem fd buf len t = Some (Some (int len), t') \<and> t' = t[fd := Some d'] \<and>
    fd_ty d' = FakeFile data' \<and> fd_pos d' = fd_pos d + len \<and>
    data' = (let padded = (if fd_pos d + len > length data then resize (fd_pos d + len) data else data)
             in take (fd_pos d) padded @ bytes @ drop (fd_pos d + len) padded) \<and>
    fst (fake_read fd len prng (t'[fd := Some (d'\<lparr>fd_pos := fd_pos d\<rparr>)])) = Some (int len, bytes)"
proof -
  define pos where "pos = fd_pos d"
  define pad where "pad = (if pos + len > length data then resize (pos + len) data else data)"
  let ?data = "take pos pad @ bytes @ drop (pos + len) pad"
  let ?d = "d\<lparr>fd_ty := FakeFile ?data, fd_pos := pos + len\<rparr>"
  have e: "wadd pos len = pos + len" using assms(4) unfolding pos_def by (rule wadd_eq)
  have le: "pos + len \<le> length pad" by (simp add: pad_def)
  have lb: "length bytes = len" by (simp add: assms(5))
  have "fake_write mem fd buf len t = Some (Some (int len), t[fd := Some (d\<lparr>
      fd_ty := FakeFile (fold (\<lambda>i dt. dt[pos + i := mem (wadd buf i)]) [0..<len] pad), fd_pos := pos + len\<rparr>)])"
    unfolding fake_write_def using assms(1-3) le by (simp only: Let_def e if_True option.simps fd_type.simps
      simp_thms flip: pos_def pad_def)
  then have wr: "fake_write mem fd buf len t = Some (Some (int len), t[fd := Some ?d])"
    by (simp only: store_bytes [OF le] assms(5))
  have nth: "?data ! (pos + i) = bytes ! i" if "i < len" for i
    using that le lb by (simp add: nth_append)
  have len: "length ?data = length pad" using le lb by simp
  have rd: "map (\<lambda>i. ?data ! (pos + i)) [0..<len] = bytes"
    by (rule nth_equalityI) (simp_all add: lb nth del: append_assoc)
  have "min len (if pos < length ?data then length ?data - pos else 0) = len"
    unfolding len using le by auto
  with rd have "fst (fake_read fd len prng ((t[fd := Some ?d])[fd := Some (?d\<lparr>fd_pos := pos\<rparr>)])) =
      Some (int len, bytes)"
    using assms(1) by (simp add: fake_read_def Let_def del: length_append append_assoc)
  with wr show ?thesis
    by (intro exI [of _ "t[fd := Some ?d]"] exI [of _ ?d] exI [of _ ?data]) (simp add: Let_def pad_def pos_def)
qed

section \<open>Witnesses\<close>

definition fake_table :: fd_table where
  "fake_table = ft_new[3 := Some (new_fd ''note'' 2 (FakeFile [1, 2]) None 0)]"

theorem fd_alloc_lowest_witness:
  "ft_ok ft_new \<and> (case alloc_pipe_fd 4 True ft_new of (r, t') \<Rightarrow> r = Some 3 \<and> ft_get 1 t' = ft_get 1 ft_new)"
proof -
  have used: "ft_get 0 ft_new \<noteq> None" "ft_get 1 ft_new \<noteq> None" "ft_get 2 ft_new \<noteq> None" "ft_get 3 ft_new = None"
    by (simp_all add: ft_new_def ft_get_def new_fd_def MAX_FDS_def)
  have three: "fd = 3" if h: "ft_get fd ft_new = None" "\<forall>j < fd. ft_get j ft_new \<noteq> None" for fd
  proof (rule linorder_cases [of fd 3])
    assume "fd < 3"
    then have "fd = 0 \<or> fd = 1 \<or> fd = 2" by arith
    with h(1) used(1-3) show ?thesis by (elim disjE) simp_all
  next
    assume "3 < fd"
    with h(2) used(4) show ?thesis by blast
  qed
  obtain r t' where a: "alloc_pipe_fd 4 True ft_new = (r, t')" by fastforce
  have l: "case r of None \<Rightarrow> t' = ft_new \<and> (\<forall>fd < 32. ft_get fd ft_new \<noteq> None)
    | Some fd \<Rightarrow> fd < 32 \<and> ft_get fd ft_new = None \<and> (\<forall>j < fd. ft_get j ft_new \<noteq> None) \<and>
        ft_ok t' \<and> (\<forall>j. j \<noteq> fd \<longrightarrow> ft_get j t' = ft_get j ft_new) \<and> (\<exists>d. ft_get fd t' = Some d \<and> fd_pos d = 0)"
    using fd_alloc_lowest [OF ft_new_ok, of "alloc_pipe_fd 4 True" "[]" 0 0 File 4 True]
    unfolding a prod.case by simp
  have "r \<noteq> None"
  proof
    assume "r = None"
    with l have "\<forall>fd < 32. ft_get fd ft_new \<noteq> None" by simp
    then have "ft_get 3 ft_new \<noteq> None" by simp
    with used(4) show False by simp
  qed
  then obtain fd where "r = Some fd" by blast
  with l have "ft_get fd ft_new = None" "\<forall>j < fd. ft_get j ft_new \<noteq> None" "\<forall>j. j \<noteq> fd \<longrightarrow> ft_get j t' = ft_get j ft_new"
    by simp_all
  with three [of fd] \<open>r = Some fd\<close> a ft_new_ok show ?thesis by simp
qed

theorem fake_file_roundtrip_witness:
  "\<exists>t' d'. fake_write (\<lambda>_. 7) 3 0x1000 4 fake_table = Some (Some 4, t') \<and> t' ! 3 = Some d' \<and>
     fd_ty d' = FakeFile [7, 7, 7, 7] \<and> fd_pos d' = 4"
proof -
  have up: "map (\<lambda>i. 7 :: u8) [0..<4] = [7, 7, 7, 7]" by (simp add: upt_rec)
  have "3 < length fake_table" "fake_table ! 3 = Some (new_fd ''note'' 2 (FakeFile [1, 2]) None 0)"
    by (simp_all add: fake_table_def ft_new_def MAX_FDS_def)
  then show ?thesis
    using fake_file_roundtrip [of 3 fake_table "new_fd ''note'' 2 (FakeFile [1, 2]) None 0" "[1, 2]" 4 "[7, 7, 7, 7]"
        "\<lambda>_. 7" "0x1000" 0]
    by (auto simp: new_fd_def up resize_def)
qed

end
