(* ===== verification/File_Locks.thy ===== *)
theory File_Locks
  imports Karte_Prelude
begin

text \<open>
  Byte-range file locks, \<open>kernel/src/driver/fs.rs\<close>: the \<open>flock\<close> structure and its user-space layout,
  the global lock table, and the \<open>fcntl\<close> lock commands. File offsets are 64-bit words compared as
  signed numbers, as the code's \<open>i64\<close>.
\<close>

section \<open>Model\<close>

definition F_RDLCK :: u16 where "F_RDLCK = 0"
definition F_WRLCK :: u16 where "F_WRLCK = 1"
definition F_UNLCK :: u16 where "F_UNLCK = 2"
definition F_GETLK :: usize where "F_GETLK = 5"
definition F_SETLK :: usize where "F_SETLK = 6"
definition F_SETLKW :: usize where "F_SETLKW = 7"

definition I64_MAX :: u64 where "I64_MAX = 0x7FFFFFFFFFFFFFFF"

record flock =
  l_type :: u16
  l_whence :: u16
  l_start :: u64
  l_len :: u64
  l_pid :: u32

text \<open>Fewer than 24 bytes panic on the index.\<close>

definition flock_from_bytes :: "u8 list \<Rightarrow> flock panicking" where
  "flock_from_bytes b =
    (if 24 \<le> length b then
       Some \<lparr>l_type = le_word (take 2 b), l_whence = le_word (take 2 (drop 2 b)),
         l_start = le_word (take 8 (drop 4 b)), l_len = le_word (take 8 (drop 12 b)),
         l_pid = le_word (take 4 (drop 20 b))\<rparr>
     else None)"

definition flock_to_bytes :: "flock \<Rightarrow> u8 list" where
  "flock_to_bytes f = le_bytes 2 (l_type f) @ le_bytes 2 (l_whence f) @ le_bytes 8 (l_start f) @
     le_bytes 8 (l_len f) @ le_bytes 4 (l_pid f)"

definition abs_start :: "flock \<Rightarrow> u64" where
  "abs_start f = l_start f"

definition abs_end :: "flock \<Rightarrow> u64" where
  "abs_end f = (if l_len f = 0 then I64_MAX else abs_start f + l_len f)"

record file_lock =
  fl_owner_fd :: usize
  fl_inode :: u64
  fl_type :: u16
  fl_start :: u64
  fl_end :: u64

definition ranges_overlap :: "u64 \<Rightarrow> u64 \<Rightarrow> u64 \<Rightarrow> u64 \<Rightarrow> bool" where
  "ranges_overlap a_start a_end b_start b_end \<longleftrightarrow> a_start <s b_end \<and> b_start <s a_end"

text \<open>The loop's four conditions, in order; the first lock that passes them is the conflict.\<close>

definition conflicts_with :: "u64 \<Rightarrow> usize \<Rightarrow> u16 \<Rightarrow> u64 \<Rightarrow> u64 \<Rightarrow> file_lock \<Rightarrow> bool" where
  "conflicts_with inode owner_fd lock_type start finish l \<longleftrightarrow>
     fl_inode l = inode \<and> fl_owner_fd l \<noteq> owner_fd \<and> ranges_overlap (fl_start l) (fl_end l) start finish \<and>
     (fl_type l = F_WRLCK \<or> lock_type = F_WRLCK)"

definition find_conflict :: "u64 \<Rightarrow> usize \<Rightarrow> u16 \<Rightarrow> u64 \<Rightarrow> u64 \<Rightarrow> file_lock list \<Rightarrow> file_lock option" where
  "find_conflict inode owner_fd lock_type start finish = find (conflicts_with inode owner_fd lock_type start finish)"

definition remove_locks_in_range :: "u64 \<Rightarrow> usize \<Rightarrow> u64 \<Rightarrow> u64 \<Rightarrow> file_lock list \<Rightarrow> file_lock list" where
  "remove_locks_in_range inode owner_fd start finish =
     filter (\<lambda>l. if fl_inode l \<noteq> inode \<or> fl_owner_fd l \<noteq> owner_fd then True
                 else \<not> ranges_overlap (fl_start l) (fl_end l) start finish)"

definition add_lock :: "u64 \<Rightarrow> usize \<Rightarrow> u16 \<Rightarrow> u64 \<Rightarrow> u64 \<Rightarrow> file_lock list \<Rightarrow> file_lock list" where
  "add_lock inode owner_fd lock_type start finish locks =
     locks @ [\<lparr>fl_owner_fd = owner_fd, fl_inode = inode, fl_type = lock_type, fl_start = start, fl_end = finish\<rparr>]"

definition release_fd_locks :: "usize \<Rightarrow> file_lock list \<Rightarrow> file_lock list" where
  "release_fd_locks fd = filter (\<lambda>l. fl_owner_fd l \<noteq> fd)"

text \<open>
  A blocking request that meets a conflict yields once: other tasks run and change the table, so
  \<open>later\<close> is the table this task finds when it runs again.
\<close>

definition fcntl_lock_op ::
  "usize \<Rightarrow> usize \<Rightarrow> u64 \<Rightarrow> flock \<Rightarrow> (file_lock list \<Rightarrow> file_lock list) \<Rightarrow> file_lock list
    \<Rightarrow> (int \<times> flock option) \<times> file_lock list" where
  "fcntl_lock_op cmd fd inode fl later locks =
    (let lock_type = l_type fl; start = abs_start fl; finish = abs_end fl in
     if cmd = F_GETLK then
       (case find_conflict inode fd lock_type start finish locks of
          Some c \<Rightarrow> ((0, Some \<lparr>l_type = fl_type c, l_whence = 0, l_start = fl_start c,
            l_len = (if fl_end c = I64_MAX then 0 else fl_end c - fl_start c), l_pid = 0\<rparr>), locks)
        | None \<Rightarrow> ((0, Some (fl\<lparr>l_type := F_UNLCK\<rparr>)), locks))
     else if cmd = F_SETLK \<or> cmd = F_SETLKW then
       (if lock_type = F_UNLCK then ((0, None), remove_locks_in_range inode fd start finish locks)
        else (case find_conflict inode fd lock_type start finish locks of
          Some _ \<Rightarrow>
            (if cmd = F_SETLK then ((- 1, None), locks)
             else (let locks' = later locks in
               case find_conflict inode fd lock_type start finish locks' of
                 Some _ \<Rightarrow> ((- 1, None), locks')
               | None \<Rightarrow> ((0, None), add_lock inode fd lock_type start finish locks')))
        | None \<Rightarrow> ((0, None), add_lock inode fd lock_type start finish locks)))
     else ((- 1, None), locks))"

section \<open>The layout of the structure\<close>

text \<open>
  A lock description survives the trip through its 24 bytes in user memory in both directions:
  decoding what was encoded gives it back, and encoding what was decoded gives the bytes back.
\<close>

theorem flock_bytes_roundtrip:
  "flock_from_bytes (flock_to_bytes f) = Some f \<and> length (flock_to_bytes f) = 24 \<and>
   (length b = 24 \<longrightarrow> map_option flock_to_bytes (flock_from_bytes b) = Some b)"
proof -
  have "flock_to_bytes \<lparr>l_type = le_word (take 2 b), l_whence = le_word (take 2 (drop 2 b)),
      l_start = le_word (take 8 (drop 4 b)), l_len = le_word (take 8 (drop 12 b)),
      l_pid = le_word (take 4 (drop 20 b))\<rparr> = b" if "length b = 24"
  proof -
    have t: "take 20 b = take 2 b @ take 2 (drop 2 b) @ take 8 (drop 4 b) @ take 8 (drop 12 b)"
      using take_add [of 12 8 b] take_add [of 4 8 b] take_add [of 2 2 b] by simp
    have "take 2 (drop 0 b) @ take 2 (drop 2 b) @ take 8 (drop 4 b) @ take 8 (drop 12 b) @ take 4 (drop 20 b) = b"
      using that append_take_drop_id [of 20 b, unfolded t] by simp
    then show ?thesis
      unfolding flock_to_bytes_def
      using that le_bytes_le_word [of "take 2 b", where 'a = 16] le_bytes_le_word [of "take 2 (drop 2 b)", where 'a = 16]
        le_bytes_le_word [of "take 8 (drop 4 b)", where 'a = 64] le_bytes_le_word [of "take 8 (drop 12 b)", where 'a = 64]
        le_bytes_le_word [of "take 4 (drop 20 b)", where 'a = 32]
      by simp
  qed
  then show ?thesis by (simp add: flock_from_bytes_def flock_to_bytes_def le_word_le_bytes)
qed

section \<open>Mutual exclusion\<close>

definition compatible :: "file_lock \<Rightarrow> file_lock \<Rightarrow> bool" where
  "compatible a b \<longleftrightarrow> \<not> conflicts_with (fl_inode a) (fl_owner_fd a) (fl_type a) (fl_start a) (fl_end a) b"

definition locks_ok :: "file_lock list \<Rightarrow> bool" where
  "locks_ok ls \<longleftrightarrow> (\<forall>a \<in> set ls. \<forall>b \<in> set ls. compatible a b)"

lemma overlap_sym: "ranges_overlap a b c d = ranges_overlap c d a b"
  by (auto simp: ranges_overlap_def)

lemma compatible_sym: "compatible a b = compatible b a"
  by (auto simp: compatible_def conflicts_with_def overlap_sym)

lemma locks_ok_filter: "locks_ok ls \<Longrightarrow> locks_ok (filter P ls)"
  by (simp add: locks_ok_def)

lemma locks_ok_add:
  assumes "locks_ok ls" and "find_conflict ino fd ty s e ls = None"
  shows "locks_ok (add_lock ino fd ty s e ls)"
proof -
  let ?l = "\<lparr>fl_owner_fd = fd, fl_inode = ino, fl_type = ty, fl_start = s, fl_end = e\<rparr>"
  have "compatible ?l b" if "b \<in> set ls" for b
    using assms(2) that by (auto simp: find_conflict_def find_None_iff compatible_def)
  moreover have "compatible ?l ?l" by (simp add: compatible_def conflicts_with_def)
  ultimately show ?thesis using assms(1) by (auto simp: locks_ok_def add_lock_def compatible_sym)
qed

lemma fcntl_locks_ok:
  assumes "locks_ok ls" and "locks_ok (later ls)"
  shows "locks_ok (snd (fcntl_lock_op cmd fd ino fl later ls))"
  using assms
  by (auto simp: fcntl_lock_op_def Let_def remove_locks_in_range_def locks_ok_filter locks_ok_add split: option.split)

text \<open>The life of the lock table: lock commands and the release when a descriptor is closed.\<close>

inductive lock_reachable :: "file_lock list \<Rightarrow> bool" where
  empty: "lock_reachable []"
| command: "lock_reachable ls \<Longrightarrow> lock_reachable (later ls) \<Longrightarrow>
    lock_reachable (snd (fcntl_lock_op cmd fd ino fl later ls))"
| close: "lock_reachable ls \<Longrightarrow> lock_reachable (release_fd_locks fd ls)"

text \<open>
  What locks mean, by the bytes of the file: the bytes that a lock covers, those that a request is for
  (with length 0, all from its start up to the largest offset), and the locks that stand in its
  way. Offsets are integers here, so nothing wraps around.
\<close>

definition lock_bytes :: "file_lock \<Rightarrow> int set" where
  "lock_bytes l = {sint (fl_start l) ..< sint (fl_end l)}"

definition request_bytes :: "flock \<Rightarrow> int set" where
  "request_bytes fl = {sint (l_start fl) ..< (if l_len fl = 0 then 2 ^ 63 - 1 else sint (l_start fl) + sint (l_len fl))}"

definition valid_request :: "flock \<Rightarrow> bool" where
  "valid_request fl \<longleftrightarrow> 0 \<le> sint (l_start fl) \<and> 0 \<le> sint (l_len fl) \<and> sint (l_start fl) + sint (l_len fl) < 2 ^ 63 \<and>
     request_bytes fl \<noteq> {}"

definition obstacle :: "u64 \<Rightarrow> usize \<Rightarrow> flock \<Rightarrow> file_lock \<Rightarrow> bool" where
  "obstacle ino fd fl l \<longleftrightarrow> fl_inode l = ino \<and> fl_owner_fd l \<noteq> fd \<and> lock_bytes l \<inter> request_bytes fl \<noteq> {} \<and>
     (fl_type l = F_WRLCK \<or> l_type fl = F_WRLCK)"

definition sound_lock :: "file_lock \<Rightarrow> bool" where
  "sound_lock l \<longleftrightarrow> 0 \<le> sint (fl_start l) \<and> lock_bytes l \<noteq> {}"

lemma overlap_bytes:
  assumes "{sint a..<sint b} \<noteq> {}" and "{sint c..<sint d} \<noteq> {}"
  shows "ranges_overlap a b c d \<longleftrightarrow> {sint a..<sint b} \<inter> {sint c..<sint d} \<noteq> {}"
  using assms by (auto simp: ranges_overlap_def word_sless_alt)

lemma overlap_if_byte: "x \<in> {sint a..<sint b} \<Longrightarrow> x \<in> {sint c..<sint d} \<Longrightarrow> ranges_overlap a b c d"
  by (auto simp: ranges_overlap_def word_sless_alt)

lemma sint_I64_MAX: "sint I64_MAX = 2 ^ 63 - 1"
  by (simp add: I64_MAX_def)

lemma sint_u64_eq: "- (2 ^ 63) \<le> sint a + sint b \<Longrightarrow> sint a + sint b < 2 ^ 63 \<Longrightarrow> sint ((a :: u64) + b) = sint a + sint b"
  by (simp add: sint_word_ariths signed_take_bit_int_eq_self)

lemma sint_u64_diff: "- (2 ^ 63) \<le> sint a - sint b \<Longrightarrow> sint a - sint b < 2 ^ 63 \<Longrightarrow> sint ((a :: u64) - b) = sint a - sint b"
  by (simp add: sint_word_ariths signed_take_bit_int_eq_self)

lemma request_range: "valid_request fl \<Longrightarrow> request_bytes fl = {sint (abs_start fl) ..< sint (abs_end fl)}"
  by (auto simp: valid_request_def request_bytes_def abs_start_def abs_end_def sint_I64_MAX sint_u64_eq)

lemma conflict_obstacle:
  assumes "valid_request fl" and "sound_lock l"
  shows "conflicts_with ino fd (l_type fl) (abs_start fl) (abs_end fl) l \<longleftrightarrow> obstacle ino fd fl l"
  using assms overlap_bytes [of "fl_start l" "fl_end l" "abs_start fl" "abs_end fl"] request_range [OF assms(1)]
  by (auto simp: conflicts_with_def obstacle_def sound_lock_def lock_bytes_def valid_request_def)

lemma find_cong_set: "(\<And>x. x \<in> set xs \<Longrightarrow> P x = Q x) \<Longrightarrow> find P xs = find Q xs"
  by (induction xs) auto

lemma find_conflict_obstacle:
  assumes "valid_request fl" and "\<forall>l \<in> set ls. sound_lock l"
  shows "find_conflict ino fd (l_type fl) (abs_start fl) (abs_end fl) ls = find (obstacle ino fd fl) ls"
  unfolding find_conflict_def using assms conflict_obstacle by (intro find_cong_set) blast

text \<open>What \<open>F_GETLK\<close> reports of a lock.\<close>

definition reported :: "file_lock \<Rightarrow> flock" where
  "reported c = \<lparr>l_type = fl_type c, l_whence = 0, l_start = fl_start c,
     l_len = (if fl_end c = I64_MAX then 0 else fl_end c - fl_start c), l_pid = 0\<rparr>"

lemma reported_bytes:
  assumes "sound_lock c"
  shows "request_bytes (reported c) = lock_bytes c"
proof -
  have b: "0 \<le> sint (fl_start c)" "sint (fl_start c) < sint (fl_end c)" "sint (fl_end c) < 2 ^ 63"
    using assms sint_lt [of "fl_end c"] by (auto simp: sound_lock_def lock_bytes_def)
  then have "sint (fl_end c - fl_start c) = sint (fl_end c) - sint (fl_start c)" by (intro sint_u64_diff) auto
  moreover have "fl_end c - fl_start c \<noteq> 0" using b(2) by auto
  ultimately show ?thesis by (auto simp: request_bytes_def reported_def lock_bytes_def sint_I64_MAX)
qed

lemma request_lock_bytes:
  "valid_request fl \<Longrightarrow> lock_bytes \<lparr>fl_owner_fd = fd, fl_inode = ino, fl_type = ty, fl_start = abs_start fl, fl_end = abs_end fl\<rparr> = request_bytes fl"
  by (simp add: request_range lock_bytes_def)

lemma lock_reachable_ok: "lock_reachable ls \<Longrightarrow> locks_ok ls"
  by (induction rule: lock_reachable.induct) (auto simp: locks_ok_def [of "[]"] fcntl_locks_ok release_fd_locks_def locks_ok_filter)

lemma locks_ok_bytes:
  assumes "locks_ok ls" "a \<in> set ls" "b \<in> set ls" "fl_inode a = fl_inode b" "fl_owner_fd a \<noteq> fl_owner_fd b" "fl_type a = F_WRLCK"
  shows "lock_bytes a \<inter> lock_bytes b = {}"
proof -
  have "\<not> ranges_overlap (fl_start b) (fl_end b) (fl_start a) (fl_end a)"
    using assms by (auto simp: locks_ok_def compatible_def conflicts_with_def)
  then show ?thesis using overlap_if_byte by (fastforce simp: lock_bytes_def)
qed

lemma obstacle_found: "(\<exists>l \<in> set xs. obstacle ino fd fl l) \<longleftrightarrow> find (obstacle ino fd fl) xs \<noteq> None"
  by (simp only: find_Some_iff_ex)

lemma lock_ops_distinct: "F_SETLK \<noteq> F_GETLK" "F_SETLKW \<noteq> F_GETLK" "F_SETLKW \<noteq> F_SETLK"
  by (simp_all add: F_SETLK_def F_GETLK_def F_SETLKW_def)

lemma unlock_bytes:
  assumes "valid_request fl" and "\<forall>l \<in> set ls. sound_lock l" and "l_type fl = F_UNLCK"
  shows "fcntl_lock_op F_SETLK fd ino fl later ls =
    ((0, None), filter (\<lambda>l. \<not> (fl_inode l = ino \<and> fl_owner_fd l = fd \<and> lock_bytes l \<inter> request_bytes fl \<noteq> {})) ls)"
proof -
  have "ranges_overlap (fl_start l) (fl_end l) (abs_start fl) (abs_end fl) \<longleftrightarrow> lock_bytes l \<inter> request_bytes fl \<noteq> {}" if "l \<in> set ls" for l
    using overlap_bytes [of "fl_start l" "fl_end l" "abs_start fl" "abs_end fl"] request_range [OF assms(1)] assms(1,2) that
    by (auto simp: sound_lock_def lock_bytes_def valid_request_def)
  then have "remove_locks_in_range ino fd (abs_start fl) (abs_end fl) ls =
      filter (\<lambda>l. \<not> (fl_inode l = ino \<and> fl_owner_fd l = fd \<and> lock_bytes l \<inter> request_bytes fl \<noteq> {})) ls"
    unfolding remove_locks_in_range_def by (intro filter_cong refl) auto
  then show ?thesis using assms(3) lock_ops_distinct by (simp add: fcntl_lock_op_def Let_def)
qed

definition requested_lock :: "usize \<Rightarrow> u64 \<Rightarrow> flock \<Rightarrow> file_lock" where
  "requested_lock fd ino fl =
     \<lparr>fl_owner_fd = fd, fl_inode = ino, fl_type = l_type fl, fl_start = abs_start fl, fl_end = abs_end fl\<rparr>"

lemma setlk_bytes:
  assumes "valid_request fl" and "\<forall>l \<in> set ls. sound_lock l" and "l_type fl \<noteq> F_UNLCK"
  shows "fcntl_lock_op F_SETLK fd ino fl later ls =
    (if \<exists>l \<in> set ls. obstacle ino fd fl l then ((- 1, None), ls) else ((0, None), ls @ [requested_lock fd ino fl]))"
  unfolding obstacle_found using lock_ops_distinct assms(3)
  by (cases "find (obstacle ino fd fl) ls")
    (simp_all add: fcntl_lock_op_def Let_def find_conflict_obstacle [OF assms(1,2)] add_lock_def requested_lock_def)

lemma setlkw_bytes:
  assumes "valid_request fl" and "\<forall>l \<in> set ls. sound_lock l" and "\<forall>l \<in> set (later ls). sound_lock l" and "l_type fl \<noteq> F_UNLCK"
  shows "fcntl_lock_op F_SETLKW fd ino fl later ls =
    (let now = (if \<exists>l \<in> set ls. obstacle ino fd fl l then later ls else ls)
     in if \<exists>l \<in> set now. obstacle ino fd fl l then ((- 1, None), now) else ((0, None), now @ [requested_lock fd ino fl]))"
  unfolding obstacle_found using lock_ops_distinct assms(4)
  by (cases "find (obstacle ino fd fl) ls"; cases "find (obstacle ino fd fl) (later ls)")
    (simp_all add: fcntl_lock_op_def Let_def find_conflict_obstacle [OF assms(1,2)] find_conflict_obstacle [OF assms(1,3)]
      add_lock_def requested_lock_def)

lemma getlk_bytes:
  assumes "valid_request fl" and "\<forall>l \<in> set ls. sound_lock l"
  shows "case find (obstacle ino fd fl) ls of
      None \<Rightarrow> fcntl_lock_op F_GETLK fd ino fl later ls = ((0, Some (fl\<lparr>l_type := F_UNLCK\<rparr>)), ls)
    | Some c \<Rightarrow> \<exists>f. fcntl_lock_op F_GETLK fd ino fl later ls = ((0, Some f), ls) \<and> l_type f = fl_type c \<and>
        request_bytes f = lock_bytes c"
proof (cases "find (obstacle ino fd fl) ls")
  case None
  then show ?thesis by (simp add: fcntl_lock_op_def Let_def find_conflict_obstacle [OF assms])
next
  case (Some c)
  then have "sound_lock c" using assms(2) find_SomeD [OF Some] by blast
  then have "request_bytes (reported c) = lock_bytes c" by (rule reported_bytes)
  moreover have "fcntl_lock_op F_GETLK fd ino fl later ls = ((0, Some (reported c)), ls)"
    by (simp add: fcntl_lock_op_def Let_def find_conflict_obstacle [OF assms] Some reported_def)
  moreover have "l_type (reported c) = fl_type c" by (simp add: reported_def)
  ultimately show ?thesis using Some by auto
qed

lemma requested_lock_facts:
  assumes "valid_request fl"
  shows "fl_owner_fd (requested_lock fd ino fl) = fd" "fl_inode (requested_lock fd ino fl) = ino"
    "fl_type (requested_lock fd ino fl) = l_type fl" "lock_bytes (requested_lock fd ino fl) = request_bytes fl"
  using request_lock_bytes [OF assms] by (simp_all add: requested_lock_def)

text \<open>
  C7: Exclusive locks exclude, byte by byte, where the owner of a lock is a descriptor number. In every reachable lock table no byte of a file is covered
  by an exclusive lock and by a lock of another owner. For a request with a non-empty range inside
  the file offsets, on a table of such locks: \<open>F_SETLK\<close> refuses it and changes nothing exactly if a
  lock of another owner on a common byte is exclusive or the request is, and otherwise adds one
  lock on exactly the requested bytes; \<open>F_SETLKW\<close> decides the same, on the table it finds after
  yielding if it had to wait; \<open>F_GETLK\<close> reports the first lock in the way with its type and
  bytes, and \<open>F_UNLCK\<close> exactly if there is none; and unlocking drops exactly the owner's
  locks that share a byte with the request.
\<close>

theorem file_locks_exclude:
  assumes "lock_reachable ls"
  shows "(\<forall>a \<in> set ls. \<forall>b \<in> set ls. fl_inode a = fl_inode b \<and> fl_owner_fd a \<noteq> fl_owner_fd b \<and> fl_type a = F_WRLCK \<longrightarrow>
      lock_bytes a \<inter> lock_bytes b = {}) \<and>
    (valid_request fl \<and> (\<forall>l \<in> set ls \<union> set (later ls). sound_lock l) \<longrightarrow>
      (if l_type fl = F_UNLCK
       then fcntl_lock_op F_SETLK fd ino fl later ls =
         ((0, None), filter (\<lambda>l. \<not> (fl_inode l = ino \<and> fl_owner_fd l = fd \<and> lock_bytes l \<inter> request_bytes fl \<noteq> {})) ls)
       else
        (\<exists>l. fl_owner_fd l = fd \<and> fl_inode l = ino \<and> fl_type l = l_type fl \<and> lock_bytes l = request_bytes fl \<and>
          fcntl_lock_op F_SETLK fd ino fl later ls =
            (if \<exists>l \<in> set ls. obstacle ino fd fl l then ((- 1, None), ls) else ((0, None), ls @ [l])) \<and>
          fcntl_lock_op F_SETLKW fd ino fl later ls =
            (let now = (if \<exists>l \<in> set ls. obstacle ino fd fl l then later ls else ls)
             in if \<exists>l \<in> set now. obstacle ino fd fl l then ((- 1, None), now) else ((0, None), now @ [l])))) \<and>
      (case find (obstacle ino fd fl) ls of
         None \<Rightarrow> fcntl_lock_op F_GETLK fd ino fl later ls = ((0, Some (fl\<lparr>l_type := F_UNLCK\<rparr>)), ls)
       | Some c \<Rightarrow> \<exists>f. fcntl_lock_op F_GETLK fd ino fl later ls = ((0, Some f), ls) \<and> l_type f = fl_type c \<and>
           request_bytes f = lock_bytes c))"
proof (intro conjI impI ballI)
  fix a b assume "a \<in> set ls" "b \<in> set ls"
    "fl_inode a = fl_inode b \<and> fl_owner_fd a \<noteq> fl_owner_fd b \<and> fl_type a = F_WRLCK"
  then show "lock_bytes a \<inter> lock_bytes b = {}" using locks_ok_bytes [OF lock_reachable_ok [OF assms]] by blast
next
  assume v: "valid_request fl \<and> (\<forall>l \<in> set ls \<union> set (later ls). sound_lock l)"
  then have h: "valid_request fl" "\<forall>l \<in> set ls. sound_lock l" "\<forall>l \<in> set (later ls). sound_lock l" by blast+
  show "(if l_type fl = F_UNLCK
       then fcntl_lock_op F_SETLK fd ino fl later ls =
         ((0, None), filter (\<lambda>l. \<not> (fl_inode l = ino \<and> fl_owner_fd l = fd \<and> lock_bytes l \<inter> request_bytes fl \<noteq> {})) ls)
       else
        (\<exists>l. fl_owner_fd l = fd \<and> fl_inode l = ino \<and> fl_type l = l_type fl \<and> lock_bytes l = request_bytes fl \<and>
          fcntl_lock_op F_SETLK fd ino fl later ls =
            (if \<exists>l \<in> set ls. obstacle ino fd fl l then ((- 1, None), ls) else ((0, None), ls @ [l])) \<and>
          fcntl_lock_op F_SETLKW fd ino fl later ls =
            (let now = (if \<exists>l \<in> set ls. obstacle ino fd fl l then later ls else ls)
             in if \<exists>l \<in> set now. obstacle ino fd fl l then ((- 1, None), now) else ((0, None), now @ [l]))))"
  proof (cases "l_type fl = F_UNLCK")
    case True
    then show ?thesis using unlock_bytes [OF h(1,2)] by simp
  next
    case False
    then show ?thesis
      unfolding if_not_P [OF False]
      by (intro exI [of _ "requested_lock fd ino fl"] conjI requested_lock_facts h(1) setlk_bytes setlkw_bytes h(2,3))
  qed
next
  assume "valid_request fl \<and> (\<forall>l \<in> set ls \<union> set (later ls). sound_lock l)"
  then show "(case find (obstacle ino fd fl) ls of
         None \<Rightarrow> fcntl_lock_op F_GETLK fd ino fl later ls = ((0, Some (fl\<lparr>l_type := F_UNLCK\<rparr>)), ls)
       | Some c \<Rightarrow> \<exists>f. fcntl_lock_op F_GETLK fd ino fl later ls = ((0, Some f), ls) \<and> l_type f = fl_type c \<and>
           request_bytes f = lock_bytes c)" by (intro getlk_bytes) blast+
qed

text \<open>
  The owner of a lock is only a descriptor number, and these are numbered per process. After one
  process has an exclusive lock through its descriptor \<open>fd\<close>, a request for the same range of the
  same file from another process whose descriptor has the same number is granted as well, and
  closing that descriptor in either process drops the locks of both.
\<close>

theorem same_fd_number_shares_lock:
  assumes "lock_reachable ls" and "l_type fl = F_WRLCK"
    and "fcntl_lock_op F_SETLK fd ino fl later ls = ((0, None), ls1)"
  shows "fst (fcntl_lock_op F_SETLK fd ino fl later' ls1) = (0, None) \<and>
    (\<forall>l \<in> set (release_fd_locks fd ls1). fl_owner_fd l \<noteq> fd)"
proof -
  let ?P = "conflicts_with ino fd (l_type fl) (abs_start fl) (abs_end fl)"
  have ne: "F_SETLK \<noteq> F_GETLK" "F_WRLCK \<noteq> F_UNLCK" by (simp_all add: F_SETLK_def F_GETLK_def F_WRLCK_def F_UNLCK_def)
  have f: "find ?P ls = None" and ls1: "ls1 = add_lock ino fd (l_type fl) (abs_start fl) (abs_end fl) ls"
    using assms(3) ne by (auto simp: fcntl_lock_op_def find_conflict_def assms(2) Let_def split: option.splits)
  have "find ?P ls1 = None" using f by (simp add: ls1 add_lock_def find_append conflicts_with_def)
  then show ?thesis using ne by (simp add: fcntl_lock_op_def find_conflict_def assms(2) Let_def release_fd_locks_def)
qed

text \<open>
  Downgrading has no effect. When the owner of an exclusive lock requests a shared lock on the same
  range, the request succeeds, yet another owner's request for a shared lock on that range is
  still refused.
\<close>

theorem downgrade_keeps_exclusive:
  assumes "lock_reachable ls" and "l_type wr = F_WRLCK" and "rd = wr\<lparr>l_type := F_RDLCK\<rparr>" and "fd' \<noteq> fd"
    and "abs_start wr <s abs_end wr"
    and "fcntl_lock_op F_SETLK fd ino wr later ls = ((0, None), ls1)"
  shows "\<exists>ls2. fcntl_lock_op F_SETLK fd ino rd later ls1 = ((0, None), ls2) \<and>
    fcntl_lock_op F_SETLK fd' ino rd later ls2 = ((- 1, None), ls2)"
proof -
  let ?s = "abs_start wr" and ?e = "abs_end wr"
  have ne: "F_SETLK \<noteq> F_GETLK" "F_WRLCK \<noteq> F_UNLCK" "F_RDLCK \<noteq> F_UNLCK" "F_WRLCK \<noteq> F_RDLCK"
    by (simp_all add: F_SETLK_def F_GETLK_def F_WRLCK_def F_UNLCK_def F_RDLCK_def)
  have f: "find (conflicts_with ino fd F_WRLCK ?s ?e) ls = None" and ls1: "ls1 = add_lock ino fd F_WRLCK ?s ?e ls"
    using assms(6) ne by (auto simp: fcntl_lock_op_def find_conflict_def assms(2) Let_def split: option.splits)
  have se: "abs_start rd = ?s" "abs_end rd = ?e" "l_type rd = F_RDLCK"
    by (simp_all add: assms(3) abs_start_def abs_end_def)
  have "find (conflicts_with ino fd F_RDLCK ?s ?e) ls = None"
    using f by (auto simp: find_None_iff conflicts_with_def)
  then have "find (conflicts_with ino fd F_RDLCK ?s ?e) ls1 = None"
    by (simp add: ls1 add_lock_def find_append) (simp add: conflicts_with_def)
  then have g: "fcntl_lock_op F_SETLK fd ino rd later ls1 = ((0, None), add_lock ino fd F_RDLCK ?s ?e ls1)"
    using ne by (simp add: fcntl_lock_op_def find_conflict_def se)
  have "\<exists>l \<in> set (add_lock ino fd F_RDLCK ?s ?e ls1). conflicts_with ino fd' F_RDLCK ?s ?e l"
    using assms(4,5) by (auto simp: ls1 add_lock_def conflicts_with_def ranges_overlap_def)
  then have "find (conflicts_with ino fd' F_RDLCK ?s ?e) (add_lock ino fd F_RDLCK ?s ?e ls1) \<noteq> None"
    by (simp only: find_Some_iff_ex)
  then have "fcntl_lock_op F_SETLK fd' ino rd later (add_lock ino fd F_RDLCK ?s ?e ls1) =
      ((- 1, None), add_lock ino fd F_RDLCK ?s ?e ls1)"
    using ne by (auto simp: fcntl_lock_op_def find_conflict_def se)
  with g show ?thesis by blast
qed

section \<open>Witnesses\<close>

definition whole_file :: flock where
  "whole_file = \<lparr>l_type = F_WRLCK, l_whence = 0, l_start = 0, l_len = 0, l_pid = 0\<rparr>"

definition one_lock :: "file_lock list" where
  "one_lock = add_lock 9 3 F_WRLCK 0 I64_MAX []"

lemma whole_file_facts:
  "fcntl_lock_op F_SETLK 3 9 whole_file id [] = ((0, None), one_lock)" "abs_start whole_file = 0"
  "abs_end whole_file = I64_MAX" "l_type whole_file = F_WRLCK"
  by (simp_all add: fcntl_lock_op_def whole_file_def abs_start_def abs_end_def one_lock_def find_conflict_def
      F_SETLK_def F_GETLK_def F_WRLCK_def F_UNLCK_def)

lemma I64_MAX_pos: "0 <s I64_MAX"
  by (simp add: word_sless_alt I64_MAX_def)

lemma one_lock_reachable: "lock_reachable one_lock"
  using command [OF lock_reachable.empty, of id F_SETLK 3 9 whole_file] lock_reachable.empty
  by (simp add: whole_file_facts)

theorem flock_bytes_roundtrip_witness:
  "map_option flock_to_bytes (flock_from_bytes (replicate 24 7)) = Some (replicate 24 7)"
  using flock_bytes_roundtrip [of whole_file "replicate 24 7"] by simp

lemma whole_file_bytes: "request_bytes whole_file = {0 ..< 2 ^ 63 - 1}" "valid_request whole_file"
  by (simp_all add: valid_request_def request_bytes_def whole_file_def)

lemma one_lock_bytes: "\<forall>l \<in> set one_lock. sound_lock l \<and> lock_bytes l = {0 ..< 2 ^ 63 - 1}"
  by (simp add: one_lock_def add_lock_def sound_lock_def lock_bytes_def sint_I64_MAX)

lemma one_lock_obstacle: "\<exists>l \<in> set one_lock. obstacle 9 4 whole_file l"
  by (simp add: obstacle_def one_lock_def add_lock_def lock_bytes_def sint_I64_MAX whole_file_bytes)

theorem file_locks_exclude_witness:
  "lock_reachable one_lock \<and> valid_request whole_file \<and> list_all sound_lock one_lock \<and>
   fcntl_lock_op F_SETLK 4 9 whole_file id one_lock = ((- 1, None), one_lock)"
proof -
  have "l_type whole_file \<noteq> F_UNLCK" by (simp add: whole_file_facts F_WRLCK_def F_UNLCK_def)
  then show ?thesis
    using file_locks_exclude [OF one_lock_reachable, of whole_file id 4 9] one_lock_reachable one_lock_bytes one_lock_obstacle
      whole_file_bytes(2) by (auto simp: list_all_iff)
qed

theorem same_fd_number_shares_lock_witness:
  "fst (fcntl_lock_op F_SETLK 3 9 whole_file id one_lock) = (0, None)"
  using same_fd_number_shares_lock [OF lock_reachable.empty whole_file_facts(4) whole_file_facts(1), of id] by simp

theorem downgrade_keeps_exclusive_witness:
  "\<exists>ls2. fcntl_lock_op F_SETLK 3 9 (whole_file\<lparr>l_type := F_RDLCK\<rparr>) id one_lock = ((0, None), ls2) \<and>
     fcntl_lock_op F_SETLK 4 9 (whole_file\<lparr>l_type := F_RDLCK\<rparr>) id ls2 = ((- 1, None), ls2)"
  using downgrade_keeps_exclusive [OF lock_reachable.empty whole_file_facts(4) refl, of 4 3 9 id one_lock]
  by (simp add: whole_file_facts I64_MAX_pos)

end
