(* ===== verification/Fd_Calls.thy ===== *)
theory Fd_Calls
  imports Pipe Fd_Table File_Locks
begin

text \<open>
  The system calls that create, copy and close descriptors, \<open>kernel/src/syscall/mod.rs\<close>: \<open>sys_pipe\<close>,
  \<open>sys_close\<close>, \<open>sys_dup2\<close>, \<open>linux_dup\<close>, the duplication command of \<open>linux_fcntl\<close>, the descriptor
  redirection of \<open>sys_exec_fd\<close>, the copy of \<open>sys_fork\<close>, and the end of a process. They compose the descriptor tables
  with the pipe table's counts and the file locks.

  A descriptor table is shared by the threads created with \<open>CLONE_FILES\<close>, so processes refer to
  tables by their index. The calls into \<open>epoll\<close>, \<open>eventfd\<close> and the virtual file system are recorded
  in the order they are made.
\<close>

section \<open>Model\<close>

definition ERR_NOMEM :: int where "ERR_NOMEM = - 12"
definition ERR_OK :: int where "ERR_OK = 0"

datatype released = Epoll_Close usize | Vfs_Close usize | Eventfd_Close usize

record fd_world =
  fw_tables :: "fd_table list"
  fw_table_of :: "usize \<Rightarrow> usize option"
  fw_pipes :: pipe_world
  fw_locks :: "file_lock list"
  fw_released :: "released list"

text \<open>Without a current process the call panics.\<close>

definition with_fd_table :: "(fd_table \<Rightarrow> 'r \<times> fd_table) \<Rightarrow> fd_world \<Rightarrow> ('r \<times> fd_world) panicking" where
  "with_fd_table f fw =
    (case fw_table_of fw (sw_current_index (pw_sched (fw_pipes fw))) of
       None \<Rightarrow> None
     | Some t \<Rightarrow> (if t < length (fw_tables fw) then
         let (r, tab) = f (fw_tables fw ! t) in Some (r, fw\<lparr>fw_tables := (fw_tables fw)[t := tab]\<rparr>)
       else None))"

definition inc_pipe_ref_for :: "fd_type \<Rightarrow> usize \<Rightarrow> fd_world \<Rightarrow> fd_world panicking" where
  "inc_pipe_ref_for ty pid fw =
    (case ty of
       PipeRead \<Rightarrow> map_option (\<lambda>pw. fw\<lparr>fw_pipes := pw\<rparr>) (inc_read pid (fw_pipes fw))
     | PipeWrite \<Rightarrow> map_option (\<lambda>pw. fw\<lparr>fw_pipes := pw\<rparr>) (inc_write pid (fw_pipes fw))
     | _ \<Rightarrow> Some fw)"

definition inc_for :: "file_descriptor \<Rightarrow> fd_world \<Rightarrow> fd_world panicking" where
  "inc_for d fw = (case fd_pipe_id d of Some pid \<Rightarrow> inc_pipe_ref_for (fd_ty d) pid fw | None \<Rightarrow> Some fw)"

definition cleanup_fd_resources :: "usize \<Rightarrow> file_descriptor \<Rightarrow> fd_world \<Rightarrow> fd_world panicking" where
  "cleanup_fd_resources fd d fw =
    (let fw1 = fw\<lparr>fw_locks := release_fd_locks fd (fw_locks fw), fw_released := fw_released fw @ [Epoll_Close fd]\<rparr> in
     case fd_ty d of
       PipeRead \<Rightarrow> (case fd_pipe_id d of
         Some pid \<Rightarrow> map_option (\<lambda>pw. fw1\<lparr>fw_pipes := pw\<rparr>) (close_read pid (fw_pipes fw1))
       | None \<Rightarrow> Some fw1)
     | PipeWrite \<Rightarrow> (case fd_pipe_id d of
         Some pid \<Rightarrow> map_option (\<lambda>pw. fw1\<lparr>fw_pipes := pw\<rparr>) (close_write pid (fw_pipes fw1))
       | None \<Rightarrow> Some fw1)
     | VfsFile v \<Rightarrow> Some (fw1\<lparr>fw_released := fw_released fw1 @ [Vfs_Close v]\<rparr>)
     | Eventfd \<Rightarrow> Some (fw1\<lparr>fw_released := fw_released fw1 @ [Eventfd_Close fd]\<rparr>)
     | _ \<Rightarrow> Some fw1)"

fun cleanup_each :: "(usize \<times> file_descriptor) list \<Rightarrow> fd_world \<Rightarrow> fd_world panicking" where
  "cleanup_each [] fw = Some fw"
| "cleanup_each ((fd, d) # fds) fw = do { fw1 \<leftarrow> cleanup_fd_resources fd d fw; cleanup_each fds fw1 }"

definition cleanup_current_process_fds :: "fd_world \<Rightarrow> fd_world panicking" where
  "cleanup_current_process_fds fw = do { (fds, fw1) \<leftarrow> with_fd_table drain_open_fds fw; cleanup_each fds fw1 }"

definition sys_close :: "int \<Rightarrow> fd_world \<Rightarrow> (int \<times> fd_world) panicking" where
  "sys_close fd fw =
    (if fd < 0 \<or> nat fd \<ge> MAX_FDS then Some (ERR_INVAL, fw)
     else do {
       (d, fw1) \<leftarrow> with_fd_table (ft_take (nat fd)) fw;
       (case d of
          None \<Rightarrow> Some (ERR_INVAL, fw1)
        | Some d \<Rightarrow> map_option (Pair ERR_OK) (cleanup_fd_resources (nat fd) d fw1)) })"

definition put_fd :: "usize \<Rightarrow> file_descriptor \<Rightarrow> fd_world \<Rightarrow> fd_world panicking" where
  "put_fd fd d fw = map_option snd (with_fd_table (\<lambda>t. ((), set_fd fd d t)) fw)"

definition sys_dup2 :: "int \<Rightarrow> int \<Rightarrow> fd_world \<Rightarrow> (int \<times> fd_world) panicking" where
  "sys_dup2 oldfd newfd fw =
    (if oldfd < 0 \<or> newfd < 0 \<or> nat oldfd \<ge> MAX_FDS \<or> nat newfd \<ge> MAX_FDS then Some (ERR_INVAL, fw)
     else if oldfd = newfd then Some (newfd, fw)
     else do {
       (d, fw1) \<leftarrow> with_fd_table (\<lambda>t. (ft_get (nat oldfd) t, t)) fw;
       (case d of
          None \<Rightarrow> Some (ERR_INVAL, fw1)
        | Some d \<Rightarrow> do {
            fw2 \<leftarrow> inc_for d fw1;
            fw3 \<leftarrow> put_fd (nat newfd) d fw2;
            Some (newfd, fw3) }) })"

text \<open>The first descriptor from \<open>lo\<close> on that is not open.\<close>

definition first_closed :: "usize \<Rightarrow> fd_table \<Rightarrow> usize option" where
  "first_closed lo t = find (\<lambda>i. ft_get i t = None) [lo..<MAX_FDS]"

definition linux_dup :: "usize \<Rightarrow> fd_world \<Rightarrow> (int \<times> fd_world) panicking" where
  "linux_dup oldfd fw = do {
     (new, fw1) \<leftarrow> with_fd_table (\<lambda>t. (first_closed 0 t, t)) fw;
     (case new of
        None \<Rightarrow> Some (ERR_NOMEM, fw1)
      | Some newfd \<Rightarrow> do {
          (ok, fw2) \<leftarrow> with_fd_table (ft_dup oldfd newfd) fw1;
          if ok then do {
            (d, fw3) \<leftarrow> with_fd_table (\<lambda>t. (ft_get oldfd t, t)) fw2;
            (case d of
               Some d \<Rightarrow> map_option (Pair (int newfd)) (inc_for d fw3)
             | None \<Rightarrow> Some (int newfd, fw3)) }
          else Some (ERR_INVAL, fw2) }) }"

text \<open>\<open>F_DUPFD\<close> and \<open>F_DUPFD_CLOEXEC\<close>\<close>

definition fcntl_dupfd :: "usize \<Rightarrow> usize \<Rightarrow> fd_world \<Rightarrow> (int \<times> fd_world) panicking" where
  "fcntl_dupfd fd arg fw = do {
     (d, fw1) \<leftarrow> with_fd_table (\<lambda>t. (ft_get fd t, t)) fw;
     (case d of
        None \<Rightarrow> Some (- 9, fw1)
      | Some d \<Rightarrow> do {
          (cand, fw2) \<leftarrow> with_fd_table (\<lambda>t. (first_closed (if arg > 2 then arg else 0) t, t)) fw1;
          (case cand of
             None \<Rightarrow> Some (- 24, fw2)
           | Some c \<Rightarrow> do {
               fw3 \<leftarrow> inc_for d fw2;
               fw4 \<leftarrow> put_fd c d fw3;
               Some (int c, fw4) }) }) }"

text \<open>The two numbers written to user memory at \<open>fd_ptr\<close> and \<open>fd_ptr + 4\<close> are part of the result.\<close>

definition sys_pipe :: "usize \<Rightarrow> fd_world \<Rightarrow> ((int \<times> (usize \<times> int) list) \<times> fd_world) panicking" where
  "sys_pipe fd_ptr fw =
    (if fd_ptr = 0 then Some ((ERR_INVAL, []), fw)
     else (case alloc_pipe (fw_pipes fw) of
       (None, _) \<Rightarrow> Some ((ERR_NOMEM, []), fw)
     | (Some pid, pw) \<Rightarrow> do {
         (rfd, fw1) \<leftarrow> with_fd_table (alloc_pipe_fd pid True) (fw\<lparr>fw_pipes := pw\<rparr>);
         (wfd, fw2) \<leftarrow> with_fd_table (alloc_pipe_fd pid False) fw1;
         (case (rfd, wfd) of
            (Some r, Some w) \<Rightarrow> Some ((ERR_OK, [(fd_ptr, int r), (wadd fd_ptr 4, int w)]), fw2)
          | _ \<Rightarrow> do {
              pw1 \<leftarrow> close_read pid (fw_pipes fw2);
              pw2 \<leftarrow> close_write pid pw1;
              Some ((ERR_NOMEM, []), fw2\<lparr>fw_pipes := pw2\<rparr>) }) }))"

text \<open>
  The descriptors of a new program: a fresh table with the parent's redirected ones copied to 0 and 1.
\<close>

definition exec_redirect :: "int \<Rightarrow> int \<Rightarrow> fd_world \<Rightarrow> (fd_table \<times> fd_world) panicking" where
  "exec_redirect redir_stdin redir_stdout fw =
    (if redir_stdin \<ge> 0 \<or> redir_stdout \<ge> 0 then do {
       ((sin, sout), fw1) \<leftarrow> with_fd_table (\<lambda>t.
          ((if redir_stdin \<ge> 0 then ft_get (nat redir_stdin) t else None,
            if redir_stdout \<ge> 0 then ft_get (nat redir_stdout) t else None), t)) fw;
       (t1, fw2) \<leftarrow> (case sin of
          Some d \<Rightarrow> do {
            fw' \<leftarrow> (case fd_pipe_id d of
                Some pid \<Rightarrow> map_option (\<lambda>pw. fw1\<lparr>fw_pipes := pw\<rparr>) (inc_read pid (fw_pipes fw1))
              | None \<Rightarrow> Some fw1);
            Some (set_fd 0 d ft_new, fw') }
        | None \<Rightarrow> Some (ft_new, fw1));
       (case sout of
          Some d \<Rightarrow> do {
            fw' \<leftarrow> (case fd_pipe_id d of
                Some pid \<Rightarrow> map_option (\<lambda>pw. fw2\<lparr>fw_pipes := pw\<rparr>) (inc_write pid (fw_pipes fw2))
              | None \<Rightarrow> Some fw2);
            Some (set_fd 1 d t1, fw') }
        | None \<Rightarrow> Some (t1, fw2)) }
     else Some (ft_new, fw))"

text \<open>
  The descriptors of a forked child: a copy of the parent's table. Nothing is counted.
\<close>

definition fork_fds :: "usize \<Rightarrow> fd_world \<Rightarrow> fd_world" where
  "fork_fds child fw =
    (case fw_table_of fw (sw_current_index (pw_sched (fw_pipes fw))) of
       None \<Rightarrow> fw
     | Some t \<Rightarrow> if t < length (fw_tables fw)
         then fw\<lparr>fw_tables := fw_tables fw @ [fw_tables fw ! t], fw_table_of := (fw_table_of fw)(child \<mapsto> length (fw_tables fw))\<rparr>
         else fw)"

text \<open>
  A process is taken out of the process table. With the last reference to its descriptor table,
  \<open>last_ref\<close>, the table is dropped as it is; its place stays as an empty table.
\<close>

definition reclaim_fds :: "bool \<Rightarrow> usize \<Rightarrow> fd_world \<Rightarrow> fd_world" where
  "reclaim_fds last_ref p fw =
    (let fw1 = fw\<lparr>fw_table_of := (fw_table_of fw)(p := None)\<rparr> in
     case fw_table_of fw p of
       Some t \<Rightarrow> if last_ref then fw1\<lparr>fw_tables := (fw_tables fw)[t := replicate MAX_FDS None]\<rparr> else fw1
     | None \<Rightarrow> fw1)"

section \<open>Counting descriptors\<close>

definition is_end :: "bool \<Rightarrow> usize \<Rightarrow> file_descriptor \<Rightarrow> bool" where
  "is_end rd pid d \<longleftrightarrow> fd_ty d = (if rd then PipeRead else PipeWrite) \<and> fd_pipe_id d = Some pid"

definition end_slot :: "bool \<Rightarrow> usize \<Rightarrow> file_descriptor option \<Rightarrow> bool" where
  "end_slot rd pid s \<longleftrightarrow> (case s of Some d \<Rightarrow> is_end rd pid d | None \<Rightarrow> False)"

definition table_ends :: "bool \<Rightarrow> usize \<Rightarrow> fd_table \<Rightarrow> nat" where
  "table_ends rd pid t = length (filter (end_slot rd pid) t)"

text \<open>The open descriptors of one end of a pipe, over all tables.\<close>

definition end_fds :: "bool \<Rightarrow> usize \<Rightarrow> fd_world \<Rightarrow> nat" where
  "end_fds rd pid fw = sum_list (map (table_ends rd pid) (fw_tables fw))"

definition fd_wf :: "file_descriptor \<Rightarrow> bool" where
  "fd_wf d \<longleftrightarrow> fd_valid d \<and> (case fd_pipe_id d of
     Some pid \<Rightarrow> pid < MAX_PIPES \<and> fd_ty d \<in> {PipeRead, PipeWrite} | None \<Rightarrow> fd_ty d \<notin> {PipeRead, PipeWrite})"

text \<open>
  The invariant while the descriptors \<open>pend\<close> are held outside the tables: a call that has taken a
  descriptor out, or counted one that it has not yet put in.
\<close>

definition fw_inv :: "file_descriptor list \<Rightarrow> fd_world \<Rightarrow> bool" where
  "fw_inv pend fw \<longleftrightarrow> pw_ok (fw_pipes fw) \<and> (\<forall>t \<in> set (fw_tables fw). ft_ok t \<and> (\<forall>d. Some d \<in> set t \<longrightarrow> fd_wf d)) \<and>
    (\<forall>d \<in> set pend. fd_wf d) \<and>
    (\<forall>pid < MAX_PIPES. pw_refs (fw_pipes fw) ! pid =
      (end_fds True pid fw + length (filter (is_end True pid) pend),
       end_fds False pid fw + length (filter (is_end False pid) pend)))"

lemma length_filter_update:
  "i < length xs \<Longrightarrow> length (filter P (xs[i := y])) + of_bool (P (xs ! i)) = length (filter P xs) + of_bool (P y)"
proof (induction xs arbitrary: i)
  case (Cons x xs)
  show ?case
  proof (cases i)
    case (Suc j)
    with Cons.IH [of j] Cons.prems show ?thesis by (cases "P x") simp_all
  qed simp
qed simp

lemma sum_list_map_update:
  "i < length xs \<Longrightarrow> sum_list (map f (xs[i := y])) + f (xs ! i) = sum_list (map f xs) + (f y :: nat)"
  by (induction xs arbitrary: i) (auto split: nat.splits)

lemma end_fds_update:
  assumes "t < length (fw_tables fw)" and "fd < length (fw_tables fw ! t)"
    and "fw_tables fw' = (fw_tables fw)[t := (fw_tables fw ! t)[fd := s]]"
  shows "end_fds rd pid fw' + of_bool (end_slot rd pid (fw_tables fw ! t ! fd)) =
    end_fds rd pid fw + of_bool (end_slot rd pid s)"
  using sum_list_map_update [OF assms(1), of "table_ends rd pid" "(fw_tables fw ! t)[fd := s]"]
    length_filter_update [OF assms(2), of "end_slot rd pid" s]
  unfolding end_fds_def assms(3) table_ends_def by linarith

lemma end_slot_simps [simp]: "end_slot rd pid None = False" "end_slot rd pid (Some d) = is_end rd pid d"
  by (simp_all add: end_slot_def)

lemma end_fds_cong: "fw_tables fw' = fw_tables fw \<Longrightarrow> end_fds rd pid fw' = end_fds rd pid fw"
  by (simp add: end_fds_def)

lemma fw_invD:
  assumes "fw_inv pend fw"
  shows "pw_ok (fw_pipes fw)" and "t < length (fw_tables fw) \<Longrightarrow> ft_ok (fw_tables fw ! t)"
    and "t < length (fw_tables fw) \<Longrightarrow> fd < length (fw_tables fw ! t) \<Longrightarrow> fw_tables fw ! t ! fd = Some d \<Longrightarrow> fd_wf d"
    and "pid < MAX_PIPES \<Longrightarrow> pw_refs (fw_pipes fw) ! pid =
      (end_fds True pid fw + length (filter (is_end True pid) pend),
       end_fds False pid fw + length (filter (is_end False pid) pend))"
  using assms by (auto simp: fw_inv_def) (metis nth_mem)

text \<open>Moving a descriptor between a table slot and the caller's hand.\<close>

lemma fw_inv_tables:
  assumes "fw_inv pend fw" and "t < length (fw_tables fw)" and "ft_ok tab" and "\<And>d. Some d \<in> set tab \<Longrightarrow> fd_wf d"
    and "fw_tables fw' = (fw_tables fw)[t := tab]" and "fw_pipes fw' = fw_pipes fw"
    and "\<forall>d \<in> set pend'. fd_wf d"
    and "\<And>rd pid. end_fds rd pid fw' + length (filter (is_end rd pid) pend') =
      end_fds rd pid fw + length (filter (is_end rd pid) pend)"
  shows "fw_inv pend' fw'"
  unfolding fw_inv_def
proof (intro conjI)
  show "\<forall>t \<in> set (fw_tables fw'). ft_ok t \<and> (\<forall>d. Some d \<in> set t \<longrightarrow> fd_wf d)"
    using assms set_update_subset_insert [of "fw_tables fw" t tab] by (auto simp: fw_inv_def)
qed (use assms in \<open>simp_all add: fw_inv_def\<close>)

lemma set_update_wf:
  assumes "fw_inv pend fw" and "t < length (fw_tables fw)" and "\<And>d. s = Some d \<Longrightarrow> fd_wf d"
  shows "ft_ok ((fw_tables fw ! t)[fd := s])" and "Some d \<in> set ((fw_tables fw ! t)[fd := s]) \<Longrightarrow> fd_wf d"
proof -
  have "\<forall>d. Some d \<in> set (fw_tables fw ! t) \<longrightarrow> fd_wf d"
    using assms(1) nth_mem [OF assms(2)] by (auto simp: fw_inv_def)
  then show "Some d \<in> set ((fw_tables fw ! t)[fd := s]) \<Longrightarrow> fd_wf d"
    using assms(3) set_update_subset_insert [of "fw_tables fw ! t" fd s] by auto
  show "ft_ok ((fw_tables fw ! t)[fd := s])"
    using fw_invD(2) [OF assms(1,2)] assms(3) by (intro ft_ok_update) (auto simp: fd_wf_def)
qed

lemma take_slot:
  assumes "fw_inv pend fw" and "t < length (fw_tables fw)" and "fd < length (fw_tables fw ! t)"
    and "fw_tables fw ! t ! fd = Some d"
  shows "fw_inv (d # pend) (fw\<lparr>fw_tables := (fw_tables fw)[t := (fw_tables fw ! t)[fd := None]]\<rparr>)"
proof (rule fw_inv_tables [OF assms(1,2)])
  let ?fw = "fw\<lparr>fw_tables := (fw_tables fw)[t := (fw_tables fw ! t)[fd := None]]\<rparr>"
  show "end_fds rd pid ?fw + length (filter (is_end rd pid) (d # pend)) =
      end_fds rd pid fw + length (filter (is_end rd pid) pend)" for rd pid
    using end_fds_update [OF assms(2,3), of ?fw None rd pid] assms(4) by auto
  show "\<forall>d \<in> set (d # pend). fd_wf d" using assms fw_invD(3) [OF assms] by (auto simp: fw_inv_def)
qed (use set_update_wf [OF assms(1,2), of None] in auto)

lemma put_slot:
  assumes "fw_inv (d # pend) fw" and "t < length (fw_tables fw)" and "fd < length (fw_tables fw ! t)"
    and "\<And>rd pid. \<not> end_slot rd pid (fw_tables fw ! t ! fd)"
  shows "fw_inv pend (fw\<lparr>fw_tables := (fw_tables fw)[t := (fw_tables fw ! t)[fd := Some d]]\<rparr>)"
proof (rule fw_inv_tables [OF assms(1,2)])
  let ?fw = "fw\<lparr>fw_tables := (fw_tables fw)[t := (fw_tables fw ! t)[fd := Some d]]\<rparr>"
  have wf: "fd_wf d" using assms(1) by (simp add: fw_inv_def)
  show "end_fds rd pid ?fw + length (filter (is_end rd pid) pend) =
      end_fds rd pid fw + length (filter (is_end rd pid) (d # pend))" for rd pid
    using end_fds_update [OF assms(2,3), of ?fw "Some d" rd pid] assms(4) [of rd pid] by auto
  show "\<forall>d \<in> set pend. fd_wf d" using assms(1) by (simp add: fw_inv_def)
  show "ft_ok ((fw_tables fw ! t)[fd := Some d])" "\<And>e. Some e \<in> set ((fw_tables fw ! t)[fd := Some d]) \<Longrightarrow> fd_wf e"
    using set_update_wf [OF assms(1,2), of "Some d"] wf by auto
qed simp_all

text \<open>Counting a copy of a descriptor that is open somewhere.\<close>

lemma fw_inv_refs:
  assumes "fw_inv pend fw" and "pw_ok pw" and "fw_tables fw' = fw_tables fw" and "fw_pipes fw' = pw"
    and "\<forall>d \<in> set pend'. fd_wf d" and "pid < MAX_PIPES"
    and "pw_refs pw = (pw_refs (fw_pipes fw))[pid := (r, w)]"
    and "r = end_fds True pid fw + length (filter (is_end True pid) pend')"
    and "w = end_fds False pid fw + length (filter (is_end False pid) pend')"
    and "\<And>rd q. q \<noteq> pid \<Longrightarrow> length (filter (is_end rd q) pend') = length (filter (is_end rd q) pend)"
  shows "fw_inv pend' fw'"
proof -
  have len: "length (pw_refs (fw_pipes fw)) = MAX_PIPES" using assms(1) by (simp add: fw_inv_def pw_ok_def)
  have "pw_refs pw ! q = (end_fds True q fw + length (filter (is_end True q) pend'),
      end_fds False q fw + length (filter (is_end False q) pend'))" if "q < MAX_PIPES" for q
    using assms(6-10) fw_invD(4) [OF assms(1) that] len by (cases "q = pid") simp_all
  then show ?thesis using assms by (simp add: fw_inv_def end_fds_cong [OF assms(3)])
qed

lemma end_fds_pos:
  assumes "t < length (fw_tables fw)" and "fd < length (fw_tables fw ! t)" and "fw_tables fw ! t ! fd = Some d"
    and "is_end rd pid d"
  shows "0 < end_fds rd pid fw"
  using end_fds_update [OF assms(1,2), of "fw\<lparr>fw_tables := (fw_tables fw)[t := (fw_tables fw ! t)[fd := None]]\<rparr>" None rd pid]
    assms(3,4) by auto

lemma is_end_cases:
  assumes "fd_wf d"
  obtains (read) pid where "pid < MAX_PIPES" "fd_ty d = PipeRead" "fd_pipe_id d = Some pid"
      "is_end True pid d" "\<And>q. \<not> is_end False q d" "\<And>q. q \<noteq> pid \<Longrightarrow> \<not> is_end True q d"
  | (wrt) pid where "pid < MAX_PIPES" "fd_ty d = PipeWrite" "fd_pipe_id d = Some pid"
      "is_end False pid d" "\<And>q. \<not> is_end True q d" "\<And>q. q \<noteq> pid \<Longrightarrow> \<not> is_end False q d"
  | (other) "fd_ty d \<noteq> PipeRead" "fd_ty d \<noteq> PipeWrite" "\<And>rd q. \<not> is_end rd q d"
proof (cases "fd_ty d = PipeRead \<or> fd_ty d = PipeWrite")
  case True
  then obtain pid where "pid < MAX_PIPES" "fd_pipe_id d = Some pid" using assms by (auto simp: fd_wf_def split: option.splits)
  with True show ?thesis using read [of pid] wrt [of pid] by (auto simp: is_end_def)
next
  case False
  then show ?thesis using other by (auto simp: is_end_def)
qed

lemma fw_inv_add_other:
  assumes "fw_inv pend fw" and "fd_wf d" and "\<And>rd q. \<not> is_end rd q d"
  shows "fw_inv (d # pend) fw"
  using assms by (simp add: fw_inv_def)

lemma fw_inv_drop_other:
  assumes "fw_inv (d # pend) fw" and "\<And>rd q. \<not> is_end rd q d"
  shows "fw_inv pend fw"
  using assms by (simp add: fw_inv_def)

lemma fw_inv_trace:
  "fw_inv pend (fw\<lparr>fw_locks := l\<rparr>) = fw_inv pend fw" "fw_inv pend (fw\<lparr>fw_released := r\<rparr>) = fw_inv pend fw"
  "end_fds rd pid (fw\<lparr>fw_locks := l\<rparr>) = end_fds rd pid fw" "end_fds rd pid (fw\<lparr>fw_released := r\<rparr>) = end_fds rd pid fw"
  "end_fds rd pid (fw\<lparr>fw_pipes := pw\<rparr>) = end_fds rd pid fw"
  by (simp_all add: fw_inv_def end_fds_def)

lemma inc_for_ok:
  assumes "fw_inv pend fw" and "fd_wf d" and "\<And>rd pid. is_end rd pid d \<Longrightarrow> 0 < end_fds rd pid fw"
  shows "\<exists>pw. inc_for d fw = Some (fw\<lparr>fw_pipes := pw\<rparr>) \<and> fw_inv (d # pend) (fw\<lparr>fw_pipes := pw\<rparr>) \<and>
    pw_sched pw = pw_sched (fw_pipes fw)"
proof (rule is_end_cases [OF assms(2)])
  assume "fd_ty d \<noteq> PipeRead" "fd_ty d \<noteq> PipeWrite" "\<And>rd q. \<not> is_end rd q d"
  then show ?thesis using fw_inv_add_other [OF assms(1,2)]
    by (intro exI [of _ "fw_pipes fw"])
      (auto simp: inc_for_def inc_pipe_ref_for_def split: option.split fd_type.split)
next
  fix pid assume d: "pid < MAX_PIPES" "fd_ty d = PipeRead" "fd_pipe_id d = Some pid"
    "is_end True pid d" "\<And>q. \<not> is_end False q d" "\<And>q. q \<noteq> pid \<Longrightarrow> \<not> is_end True q d"
  note refs = fw_invD(4) [OF assms(1) d(1)]
  obtain pw where pw: "inc_read pid (fw_pipes fw) = Some pw" "pw_ok pw" "pw_sched pw = pw_sched (fw_pipes fw)"
    "pw_refs pw = (pw_refs (fw_pipes fw))[pid := (end_fds True pid fw + length (filter (is_end True pid) pend) + 1,
       end_fds False pid fw + length (filter (is_end False pid) pend))]"
    using inc_read_ok [OF fw_invD(1) [OF assms(1)] d(1) refs] assms(3) [OF d(4)] by auto
  have no: "\<not> is_end rd q d" if "q \<noteq> pid" for rd q using d that by (cases rd) auto
  have "fw_inv (d # pend) (fw\<lparr>fw_pipes := pw\<rparr>)"
    by (rule fw_inv_refs [OF assms(1) pw(2) _ _ _ d(1) pw(4)])
      (use assms(1,2) d no in \<open>simp_all add: fw_inv_def\<close>)
  then show ?thesis using d pw by (auto simp: inc_for_def inc_pipe_ref_for_def)
next
  fix pid assume d: "pid < MAX_PIPES" "fd_ty d = PipeWrite" "fd_pipe_id d = Some pid"
    "is_end False pid d" "\<And>q. \<not> is_end True q d" "\<And>q. q \<noteq> pid \<Longrightarrow> \<not> is_end False q d"
  note refs = fw_invD(4) [OF assms(1) d(1)]
  obtain pw where pw: "inc_write pid (fw_pipes fw) = Some pw" "pw_ok pw" "pw_sched pw = pw_sched (fw_pipes fw)"
    "pw_refs pw = (pw_refs (fw_pipes fw))[pid := (end_fds True pid fw + length (filter (is_end True pid) pend),
       end_fds False pid fw + length (filter (is_end False pid) pend) + 1)]"
    using inc_write_ok [OF fw_invD(1) [OF assms(1)] d(1) refs] assms(3) [OF d(4)] by auto
  have no: "\<not> is_end rd q d" if "q \<noteq> pid" for rd q using d that by (cases rd) auto
  have "fw_inv (d # pend) (fw\<lparr>fw_pipes := pw\<rparr>)"
    by (rule fw_inv_refs [OF assms(1) pw(2) _ _ _ d(1) pw(4)])
      (use assms(1,2) d no in \<open>simp_all add: fw_inv_def\<close>)
  then show ?thesis using d pw by (auto simp: inc_for_def inc_pipe_ref_for_def)
qed

text \<open>Giving a held descriptor of a pipe end back.\<close>

lemma close_end_ok:
  assumes "fw_inv (d # pend) fw" and "is_end rd pid d"
  shows "\<exists>pw. (if rd then close_read else close_write) pid (fw_pipes fw) = Some pw \<and>
    fw_inv pend (fw\<lparr>fw_pipes := pw\<rparr>)"
proof -
  have wf: "fd_wf d" "\<forall>e \<in> set pend. fd_wf e" using assms(1) by (simp_all add: fw_inv_def)
  have pid: "pid < MAX_PIPES" and o: "\<And>q. q \<noteq> pid \<Longrightarrow> \<not> is_end rd q d" "\<And>q. \<not> is_end (\<not> rd) q d"
    using wf(1) assms(2) by (auto simp: fd_wf_def is_end_def split: if_splits)
  let ?r = "end_fds True pid fw + length (filter (is_end True pid) pend)"
  let ?w = "end_fds False pid fw + length (filter (is_end False pid) pend)"
  note ok = fw_invD(1) [OF assms(1)] and refs = fw_invD(4) [OF assms(1) pid]
  have "\<exists>pw. (if rd then close_read else close_write) pid (fw_pipes fw) = Some pw \<and> pw_ok pw \<and>
    pw_refs pw = (pw_refs (fw_pipes fw))[pid := (?r, ?w)]"
  proof (cases rd)
    case True
    then have "pw_refs (fw_pipes fw) ! pid = (Suc ?r, ?w)" using refs assms(2) o(2) [of pid] by simp
    from close_read_ok [OF ok pid this] True show ?thesis by simp
  next
    case False
    then have "pw_refs (fw_pipes fw) ! pid = (?r, Suc ?w)" using refs assms(2) o(2) [of pid] by simp
    from close_write_ok [OF ok pid this] False show ?thesis by simp
  qed
  then obtain pw where pw: "(if rd then close_read else close_write) pid (fw_pipes fw) = Some pw" "pw_ok pw"
    "pw_refs pw = (pw_refs (fw_pipes fw))[pid := (?r, ?w)]" by blast
  have "length (filter (is_end b q) pend) = length (filter (is_end b q) (d # pend))" if "q \<noteq> pid" for b q
    using o that by (cases "b = rd") auto
  then have "fw_inv pend (fw\<lparr>fw_pipes := pw\<rparr>)"
    by (intro fw_inv_refs [OF assms(1) pw(2) _ _ wf(2) pid pw(3)]) simp_all
  with pw(1) show ?thesis by blast
qed

lemma cleanup_ok:
  assumes "fw_inv (d # pend) fw"
  shows "\<exists>fw'. cleanup_fd_resources fd d fw = Some fw' \<and> fw_inv pend fw' \<and> fw_tables fw' = fw_tables fw \<and>
    fw_table_of fw' = fw_table_of fw"
proof -
  let ?fw = "fw\<lparr>fw_locks := release_fd_locks fd (fw_locks fw), fw_released := fw_released fw @ [Epoll_Close fd]\<rparr>"
  have inv: "fw_inv (d # pend) ?fw" using assms by (simp add: fw_inv_trace)
  have wf: "fd_wf d" using assms by (simp add: fw_inv_def)
  show ?thesis
  proof (rule is_end_cases [OF wf])
    assume o: "fd_ty d \<noteq> PipeRead" "fd_ty d \<noteq> PipeWrite" "\<And>rd q. \<not> is_end rd q d"
    have "fw_inv pend ?fw" using fw_inv_drop_other [OF inv o(3)] .
    then show ?thesis using o(1,2)
      by (cases "fd_ty d") (simp_all add: cleanup_fd_resources_def fw_inv_trace)
  next
    fix pid assume d: "fd_ty d = PipeRead" "fd_pipe_id d = Some pid" "is_end True pid d"
    from close_end_ok [OF inv d(3)] d show ?thesis by (auto simp: cleanup_fd_resources_def)
  next
    fix pid assume d: "fd_ty d = PipeWrite" "fd_pipe_id d = Some pid" "is_end False pid d"
    from close_end_ok [OF inv d(3)] d show ?thesis by (auto simp: cleanup_fd_resources_def)
  qed
qed

lemma cleanup_each_ok:
  "fw_inv (map snd fds @ pend) fw \<Longrightarrow> \<exists>fw'. cleanup_each fds fw = Some fw' \<and> fw_inv pend fw' \<and>
    fw_tables fw' = fw_tables fw \<and> fw_table_of fw' = fw_table_of fw"
proof (induction fds arbitrary: fw)
  case (Cons x fds)
  obtain fd d where x: "x = (fd, d)" by fastforce
  from Cons.prems x have "fw_inv (d # (map snd fds @ pend)) fw" by simp
  from cleanup_ok [OF this, of fd] obtain fw1 where 1: "cleanup_fd_resources fd d fw = Some fw1"
    "fw_inv (map snd fds @ pend) fw1" "fw_tables fw1 = fw_tables fw" "fw_table_of fw1 = fw_table_of fw" by blast
  from Cons.IH [OF 1(2)] 1 x show ?case by auto
qed simp

section \<open>The calls keep the counts\<close>

text \<open>The table of the current process.\<close>

definition cur_table :: "fd_world \<Rightarrow> usize option" where
  "cur_table fw = (case fw_table_of fw (sw_current_index (pw_sched (fw_pipes fw))) of
     Some t \<Rightarrow> if t < length (fw_tables fw) then Some t else None | None \<Rightarrow> None)"

lemma cur_table_less: "cur_table fw = Some t \<Longrightarrow> t < length (fw_tables fw)"
  by (auto simp: cur_table_def split: option.splits if_splits)

lemma with_fd_table_eq:
  assumes "cur_table fw = Some t"
  shows "with_fd_table f fw = Some (fst (f (fw_tables fw ! t)),
    fw\<lparr>fw_tables := (fw_tables fw)[t := snd (f (fw_tables fw ! t))]\<rparr>)"
  using assms by (auto simp: cur_table_def with_fd_table_def split: option.splits if_splits prod.splits)

lemma fw_tables_same [simp]: "fw\<lparr>fw_tables := (fw_tables fw)[t := fw_tables fw ! t]\<rparr> = fw"
  by simp

lemma with_fd_table_look:
  assumes "cur_table fw = Some t"
  shows "with_fd_table (\<lambda>tab. (g tab, tab)) fw = Some (g (fw_tables fw ! t), fw)"
  using with_fd_table_eq [OF assms, of "\<lambda>tab. (g tab, tab)"] by simp

lemma cur_table_tables [simp]:
  "length ts = length (fw_tables fw) \<Longrightarrow> cur_table (fw\<lparr>fw_tables := ts\<rparr>) = cur_table fw"
  by (simp add: cur_table_def split: option.split)

lemma cur_table_pipes [simp]:
  "pw_sched pw = pw_sched (fw_pipes fw) \<Longrightarrow> cur_table (fw\<lparr>fw_pipes := pw\<rparr>) = cur_table fw"
  by (simp add: cur_table_def split: option.split)

lemma inc_for_tables:
  assumes "inc_for d fw = Some (fw\<lparr>fw_pipes := pw\<rparr>)"
  shows "inc_for d (fw\<lparr>fw_tables := ts\<rparr>) = Some (fw\<lparr>fw_pipes := pw, fw_tables := ts\<rparr>)"
  using assms
  by (cases fw) (auto simp: inc_for_def inc_pipe_ref_for_def split: option.splits fd_type.splits)

lemma put_fd_eq:
  assumes "cur_table fw = Some t"
  shows "put_fd fd d fw = Some (fw\<lparr>fw_tables := (fw_tables fw)[t := set_fd fd d (fw_tables fw ! t)]\<rparr>)"
  using with_fd_table_eq [OF assms, of "\<lambda>t. ((), set_fd fd d t)"] by (simp add: put_fd_def)

lemma table_length: "fw_inv pend fw \<Longrightarrow> cur_table fw = Some t \<Longrightarrow> length (fw_tables fw ! t) = MAX_FDS"
  using fw_invD(2) [of pend fw t] cur_table_less [of fw t] by (simp add: ft_ok_def)

lemma get_slot:
  assumes "fw_inv pend fw" and "cur_table fw = Some t" and "ft_get fd (fw_tables fw ! t) = Some d"
  shows "fd < length (fw_tables fw ! t)" and "fw_tables fw ! t ! fd = Some d" and "fd_wf d"
    and "is_end rd pid d \<Longrightarrow> 0 < end_fds rd pid fw"
proof -
  note t = cur_table_less [OF assms(2)]
  show fd: "fd < length (fw_tables fw ! t)" "fw_tables fw ! t ! fd = Some d"
    using assms(3) ft_get_ok [OF fw_invD(2) [OF assms(1) t]] by (simp_all split: if_splits)
  show "fd_wf d" using fw_invD(3) [OF assms(1) t fd] .
  show "is_end rd pid d \<Longrightarrow> 0 < end_fds rd pid fw" using end_fds_pos [OF t fd] .
qed

lemma sys_close_ok:
  assumes "fw_inv [] fw" and "cur_table fw = Some t"
  shows "\<exists>r fw'. sys_close fd fw = Some (r, fw') \<and> fw_inv [] fw'"
proof (cases "fd < 0 \<or> nat fd \<ge> MAX_FDS")
  case True
  then show ?thesis using assms(1) by (auto simp: sys_close_def)
next
  case False
  note wt = with_fd_table_eq [OF assms(2), of "ft_take (nat fd)"]
  show ?thesis
  proof (cases "ft_get (nat fd) (fw_tables fw ! t)")
    case None
    then show ?thesis using False assms(1) wt by (auto simp: sys_close_def ft_take_def)
  next
    case (Some d)
    note g = get_slot [OF assms Some]
    let ?fw = "fw\<lparr>fw_tables := (fw_tables fw)[t := (fw_tables fw ! t)[nat fd := None]]\<rparr>"
    have "fw_inv [d] ?fw" using take_slot [OF assms(1) cur_table_less [OF assms(2)] g(1,2)] .
    from cleanup_ok [OF this, of "nat fd"] obtain fw' where
      "cleanup_fd_resources (nat fd) d ?fw = Some fw'" "fw_inv [] fw'" by blast
    then show ?thesis using False Some wt by (simp add: sys_close_def ft_take_def)
  qed
qed

text \<open>Copying an open descriptor to a slot that holds no pipe end.\<close>

lemma copy_ok:
  assumes "fw_inv [] fw" and "cur_table fw = Some t" and "ft_get fd (fw_tables fw ! t) = Some d"
    and "new < MAX_FDS" and "\<And>rd pid. \<not> end_slot rd pid (fw_tables fw ! t ! new)"
  shows "\<exists>pw. inc_for d fw = Some (fw\<lparr>fw_pipes := pw\<rparr>) \<and> pw_sched pw = pw_sched (fw_pipes fw) \<and>
    fw_inv [] (fw\<lparr>fw_pipes := pw, fw_tables := (fw_tables fw)[t := (fw_tables fw ! t)[new := Some d]]\<rparr>)"
proof -
  note g = get_slot [OF assms(1-3)]
  obtain pw where pw: "inc_for d fw = Some (fw\<lparr>fw_pipes := pw\<rparr>)" "fw_inv [d] (fw\<lparr>fw_pipes := pw\<rparr>)"
    "pw_sched pw = pw_sched (fw_pipes fw)" using inc_for_ok [OF assms(1) g(3,4)] by blast
  from put_slot [OF pw(2), of t new] assms cur_table_less [OF assms(2)] table_length [OF assms(1,2)]
  have "fw_inv [] (fw\<lparr>fw_pipes := pw, fw_tables := (fw_tables fw)[t := (fw_tables fw ! t)[new := Some d]]\<rparr>)"
    by simp
  with pw show ?thesis by blast
qed

text \<open>Slots with a pipe end, and the calls of \<open>sys_dup2\<close> that overwrite one.\<close>

definition pipe_slot :: "file_descriptor option \<Rightarrow> bool" where
  "pipe_slot s \<longleftrightarrow> (case s of Some d \<Rightarrow> fd_ty d \<in> {PipeRead, PipeWrite} | None \<Rightarrow> False)"

definition overwrites_end :: "int \<Rightarrow> int \<Rightarrow> fd_table \<Rightarrow> bool" where
  "overwrites_end old new tab \<longleftrightarrow> 0 \<le> old \<and> 0 \<le> new \<and> nat old < MAX_FDS \<and> nat new < MAX_FDS \<and> old \<noteq> new \<and>
     ft_get (nat old) tab \<noteq> None \<and> pipe_slot (tab ! nat new)"

lemma no_pipe_slot: "\<not> pipe_slot s \<Longrightarrow> \<not> end_slot rd pid s"
  by (cases s) (auto simp: pipe_slot_def is_end_def)

lemma no_pipe_table: "\<not> list_ex pipe_slot tab \<Longrightarrow> table_ends rd pid tab = 0"
  using no_pipe_slot by (auto simp: table_ends_def list_ex_iff filter_empty_conv)

lemma sys_dup2_ok:
  assumes "fw_inv [] fw" and "cur_table fw = Some t" and "\<not> overwrites_end oldfd newfd (fw_tables fw ! t)"
  shows "\<exists>r fw'. sys_dup2 oldfd newfd fw = Some (r, fw') \<and> fw_inv [] fw'"
proof (cases "oldfd < 0 \<or> newfd < 0 \<or> nat oldfd \<ge> MAX_FDS \<or> nat newfd \<ge> MAX_FDS \<or> oldfd = newfd")
  case True
  then show ?thesis using assms(1) by (auto simp: sys_dup2_def)
next
  case False
  then have n: "nat newfd < MAX_FDS" by simp
  note look = with_fd_table_look [OF assms(2), of "ft_get (nat oldfd)"]
  show ?thesis
  proof (cases "ft_get (nat oldfd) (fw_tables fw ! t)")
    case None
    then show ?thesis using False assms(1) look by (auto simp: sys_dup2_def)
  next
    case (Some d)
    have "\<not> end_slot rd pid (fw_tables fw ! t ! nat newfd)" for rd pid
      using assms(3) False Some by (intro no_pipe_slot) (auto simp: overwrites_end_def)
    from copy_ok [OF assms(1,2) Some n this] obtain pw where
      pw: "inc_for d fw = Some (fw\<lparr>fw_pipes := pw\<rparr>)" "pw_sched pw = pw_sched (fw_pipes fw)"
      "fw_inv [] (fw\<lparr>fw_pipes := pw, fw_tables := (fw_tables fw)[t := (fw_tables fw ! t)[nat newfd := Some d]]\<rparr>)"
      by blast
    have "put_fd (nat newfd) d (fw\<lparr>fw_pipes := pw\<rparr>) =
        Some (fw\<lparr>fw_pipes := pw, fw_tables := (fw_tables fw)[t := (fw_tables fw ! t)[nat newfd := Some d]]\<rparr>)"
      using put_fd_eq [of "fw\<lparr>fw_pipes := pw\<rparr>" t] assms(2) pw(2) n table_length [OF assms(1,2)]
      by (simp add: set_fd_def)
    then show ?thesis using False Some look pw by (auto simp: sys_dup2_def)
  qed
qed

lemma first_closed_slot:
  assumes "fw_inv pend fw" and "cur_table fw = Some t" and "first_closed lo (fw_tables fw ! t) = Some c"
  shows "c < MAX_FDS" and "fw_tables fw ! t ! c = None" and "ft_get c (fw_tables fw ! t) = None"
proof -
  show c: "c < MAX_FDS" "ft_get c (fw_tables fw ! t) = None"
    using assms(3) by (simp_all add: first_closed_def find_upt_Some_iff)
  then show "fw_tables fw ! t ! c = None"
    using ft_get_ok [OF fw_invD(2) [OF assms(1) cur_table_less [OF assms(2)]]] table_length [OF assms(1,2)] by simp
qed

lemma fcntl_dupfd_ok:
  assumes "fw_inv [] fw" and "cur_table fw = Some t"
  shows "\<exists>r fw'. fcntl_dupfd fd arg fw = Some (r, fw') \<and> fw_inv [] fw'"
proof (cases "ft_get fd (fw_tables fw ! t)")
  case None
  then show ?thesis using assms with_fd_table_look [OF assms(2), of "ft_get fd"] by (simp add: fcntl_dupfd_def)
next
  case (Some d)
  let ?lo = "if arg > 2 then arg else 0"
  note look = with_fd_table_look [OF assms(2), of "ft_get fd"] with_fd_table_look [OF assms(2), of "first_closed ?lo"]
  show ?thesis
  proof (cases "first_closed ?lo (fw_tables fw ! t)")
    case None
    then show ?thesis using assms Some look by (simp add: fcntl_dupfd_def)
  next
    case (Some c)
    note c = first_closed_slot [OF assms Some]
    have "\<not> end_slot rd pid (fw_tables fw ! t ! c)" for rd pid by (simp add: c(2))
    from copy_ok [OF assms \<open>ft_get fd (fw_tables fw ! t) = Some d\<close> c(1) this] obtain pw where
      pw: "inc_for d fw = Some (fw\<lparr>fw_pipes := pw\<rparr>)" "pw_sched pw = pw_sched (fw_pipes fw)"
      "fw_inv [] (fw\<lparr>fw_pipes := pw, fw_tables := (fw_tables fw)[t := (fw_tables fw ! t)[c := Some d]]\<rparr>)"
      by blast
    have "put_fd c d (fw\<lparr>fw_pipes := pw\<rparr>) =
        Some (fw\<lparr>fw_pipes := pw, fw_tables := (fw_tables fw)[t := (fw_tables fw ! t)[c := Some d]]\<rparr>)"
      using put_fd_eq [of "fw\<lparr>fw_pipes := pw\<rparr>" t] assms pw(2) c(1) table_length [OF assms]
      by (simp add: set_fd_def)
    then show ?thesis using Some look pw \<open>ft_get fd (fw_tables fw ! t) = Some d\<close> by (simp add: fcntl_dupfd_def)
  qed
qed

lemma linux_dup_ok:
  assumes "fw_inv [] fw" and "cur_table fw = Some t"
  shows "\<exists>r fw'. linux_dup oldfd fw = Some (r, fw') \<and> fw_inv [] fw'"
proof -
  let ?tab = "fw_tables fw ! t"
  note look = with_fd_table_look [OF assms(2), of "first_closed 0"]
  show ?thesis
  proof (cases "first_closed 0 ?tab")
    case None
    then show ?thesis using assms look by (simp add: linux_dup_def)
  next
    case (Some c)
    note c = first_closed_slot [OF assms Some]
    have cl: "c < length ?tab" using c(1) table_length [OF assms] by simp
    show ?thesis
    proof (cases "ft_get oldfd ?tab")
      case None
      then show ?thesis using Some assms look with_fd_table_eq [OF assms(2), of "ft_dup oldfd c"] cl
        by (simp add: linux_dup_def ft_dup_def)
    next
      case (Some d)
      have "\<not> end_slot rd pid (?tab ! c)" for rd pid by (simp add: c(2))
      from copy_ok [OF assms Some c(1) this] obtain pw where
        pw: "inc_for d fw = Some (fw\<lparr>fw_pipes := pw\<rparr>)" "pw_sched pw = pw_sched (fw_pipes fw)"
        "fw_inv [] (fw\<lparr>fw_pipes := pw, fw_tables := (fw_tables fw)[t := ?tab[c := Some d]]\<rparr>)" by blast
      let ?fw = "fw\<lparr>fw_tables := (fw_tables fw)[t := ?tab[c := Some d]]\<rparr>"
      have inc: "inc_for d ?fw = Some (fw\<lparr>fw_pipes := pw, fw_tables := (fw_tables fw)[t := ?tab[c := Some d]]\<rparr>)"
        using inc_for_tables [OF pw(1)] .
      have wf: "ft_ok (?tab[c := Some d])"
        using set_update_wf(1) [OF assms(1) cur_table_less [OF assms(2)], of "Some d" c] get_slot(3) [OF assms Some]
        by simp
      have "oldfd \<noteq> c" using Some c(3) by auto
      then have "ft_get oldfd (?tab[c := Some d]) = Some d"
        using Some ft_get_ok [OF wf] ft_get_ok [OF fw_invD(2) [OF assms(1) cur_table_less [OF assms(2)]]]
        by (simp split: if_splits)
      moreover have "cur_table ?fw = Some t" using assms(2) by simp
      ultimately have "with_fd_table (\<lambda>tab. (ft_get oldfd tab, tab)) ?fw = Some (Some d, ?fw)"
        using with_fd_table_look [of ?fw t "ft_get oldfd"] cur_table_less [OF assms(2)] by simp
      then show ?thesis
        using \<open>first_closed 0 ?tab = Some c\<close> Some look with_fd_table_eq [OF assms(2), of "ft_dup oldfd c"] cl inc pw(3)
        by (simp add: linux_dup_def ft_dup_def)
    qed
  qed
qed

lemma map_filter_snd:
  "map snd (List.map_filter (\<lambda>i. map_option (Pair i) (f i)) xs) = List.map_filter f xs"
  by (induction xs) (auto simp: List.map_filter_def split: option.split)

lemma map_filter_nth: "List.map_filter (\<lambda>i. t ! i) [0..<length t] = List.map_filter id t"
proof -
  have "List.map_filter id (map ((!) t) [0..<length t]) = List.map_filter (\<lambda>i. t ! i) [0..<length t]"
    by (simp add: List.map_filter_def filter_map comp_def)
  then show ?thesis by (simp add: map_nth)
qed

lemma map_filter_cong: "(\<And>x. x \<in> set xs \<Longrightarrow> f x = g x) \<Longrightarrow> List.map_filter f xs = List.map_filter g xs"
  by (induction xs) (auto simp: List.map_filter_def)

lemma ends_map_filter: "length (filter (is_end rd pid) (List.map_filter id t)) = table_ends rd pid t"
  by (induction t) (auto simp: List.map_filter_def table_ends_def)

lemma drained:
  assumes "ft_ok t"
  shows "map snd (fst (drain_open_fds t)) = List.map_filter id t" and "snd (drain_open_fds t) = replicate (length t) None"
proof -
  have "ft_get i t = t ! i" if "i < length t" for i using that by (simp add: ft_get_ok [OF assms])
  then have "List.map_filter (\<lambda>i. ft_get i t) [0..<length t] = List.map_filter (\<lambda>i. t ! i) [0..<length t]"
    by (intro map_filter_cong) simp
  then show "map snd (fst (drain_open_fds t)) = List.map_filter id t"
    by (simp add: drain_open_fds_def map_filter_snd map_filter_nth)
  show "snd (drain_open_fds t) = replicate (length t) None"
  proof (rule nth_equalityI)
    fix i assume "i < length (snd (drain_open_fds t))"
    then have "i < length t" by (simp add: drain_open_fds_def)
    then show "snd (drain_open_fds t) ! i = replicate (length t) None ! i"
      using ft_ok_nth [OF assms, of i] by (cases "t ! i") (simp_all add: drain_open_fds_def)
  qed (simp add: drain_open_fds_def)
qed

lemma drain_ok:
  assumes "fw_inv [] fw" and "cur_table fw = Some t"
  shows "\<exists>fds fw'. with_fd_table drain_open_fds fw = Some (fds, fw') \<and> fw_inv (map snd fds) fw' \<and>
    fw_tables fw' = (fw_tables fw)[t := replicate MAX_FDS None] \<and> fw_table_of fw' = fw_table_of fw"
proof -
  let ?tab = "fw_tables fw ! t" and ?none = "replicate MAX_FDS None :: fd_table"
  let ?fw = "fw\<lparr>fw_tables := (fw_tables fw)[t := ?none]\<rparr>"
  note t = cur_table_less [OF assms(2)]
  note d = drained [OF fw_invD(2) [OF assms(1) t], unfolded table_length [OF assms]]
  have wt: "with_fd_table drain_open_fds fw = Some (fst (drain_open_fds ?tab), ?fw)"
    using with_fd_table_eq [OF assms(2), of drain_open_fds] d(2) by simp
  have "fw_inv (List.map_filter id ?tab) ?fw"
  proof (rule fw_inv_tables [OF assms(1) t])
    show "\<forall>d \<in> set (List.map_filter id ?tab). fd_wf d"
      using assms(1) nth_mem [OF t] by (auto simp: fw_inv_def List.map_filter_def)
    show "end_fds rd pid ?fw + length (filter (is_end rd pid) (List.map_filter id ?tab)) =
        end_fds rd pid fw + length (filter (is_end rd pid) [])" for rd pid
      using sum_list_map_update [OF t, of "table_ends rd pid" ?none]
      by (simp add: end_fds_def ends_map_filter) (simp add: table_ends_def)
  qed (auto simp: ft_ok_def)
  with wt d(1) show ?thesis by simp
qed

lemma cleanup_current_ok:
  assumes "fw_inv [] fw" and "cur_table fw = Some t"
  shows "\<exists>fw'. cleanup_current_process_fds fw = Some fw' \<and> fw_inv [] fw' \<and>
    fw_tables fw' = (fw_tables fw)[t := replicate MAX_FDS None] \<and> fw_table_of fw' = fw_table_of fw"
proof -
  obtain fds fw1 where 1: "with_fd_table drain_open_fds fw = Some (fds, fw1)" "fw_inv (map snd fds) fw1"
    "fw_tables fw1 = (fw_tables fw)[t := replicate MAX_FDS None]" "fw_table_of fw1 = fw_table_of fw"
    using drain_ok [OF assms] by blast
  have "fw_inv (map snd fds @ []) fw1" using 1(2) by simp
  from cleanup_each_ok [OF this] 1 show ?thesis by (auto simp: cleanup_current_process_fds_def)
qed

section \<open>Creating a pipe\<close>

definition pipe_desc :: "usize \<Rightarrow> bool \<Rightarrow> usize \<Rightarrow> file_descriptor" where
  "pipe_desc pid rd i = new_fd (if rd then ''pipe:read'' else ''pipe:write'')
     (if rd then O_RDONLY else O_WRONLY) (if rd then PipeRead else PipeWrite) (Some pid) i"

lemma alloc_pipe_fd_eq: "alloc_pipe_fd pid rd = alloc_slot (pipe_desc pid rd)"
proof -
  have "pipe_desc pid rd = (\<lambda>i. new_fd (if rd then ''pipe:read'' else ''pipe:write'')
       (if rd then O_RDONLY else O_WRONLY) (if rd then PipeRead else PipeWrite) (Some pid) i)"
    by (simp add: fun_eq_iff pipe_desc_def)
  then show ?thesis by (simp only: alloc_pipe_fd_def)
qed

lemma pipe_desc_facts:
  "pid < MAX_PIPES \<Longrightarrow> fd_wf (pipe_desc pid rd i)" "is_end b q (pipe_desc pid rd i) \<longleftrightarrow> b = rd \<and> q = pid"
  by (auto simp: pipe_desc_def new_fd_def fd_wf_def is_end_def)

lemma fw_inv_new_pipe:
  assumes "fw_inv [] fw" and "alloc_pipe (fw_pipes fw) = (Some pid, pw)"
  shows "fw_inv [pipe_desc pid True i, pipe_desc pid False j] (fw\<lparr>fw_pipes := pw\<rparr>)" and "pid < MAX_PIPES"
    and "pw_sched pw = pw_sched (fw_pipes fw)"
proof -
  have a: "pid < MAX_PIPES" "pw_ok pw" "pw_refs (fw_pipes fw) ! pid = (0, 0)"
    "pw_refs pw = (pw_refs (fw_pipes fw))[pid := (1, 1)]" "pw_sched pw = pw_sched (fw_pipes fw)"
    using assms(2) by (cases rule: alloc_pipe_cases [OF fw_invD(1) [OF assms(1)]]; simp)+
  then show "pid < MAX_PIPES" "pw_sched pw = pw_sched (fw_pipes fw)" by simp_all
  have "end_fds True pid fw = 0" "end_fds False pid fw = 0" using fw_invD(4) [OF assms(1) a(1)] a(3) by simp_all
  then show "fw_inv [pipe_desc pid True i, pipe_desc pid False j] (fw\<lparr>fw_pipes := pw\<rparr>)"
    by (intro fw_inv_refs [OF assms(1) a(2) _ _ _ a(1,4)])
      (auto simp: pipe_desc_facts a(1))
qed

lemma fw_inv_swap: "fw_inv (x # y # p) fw \<Longrightarrow> fw_inv (y # x # p) fw"
  by (auto simp: fw_inv_def)

lemma free_slots_none: "\<forall>i < length t. t ! i \<noteq> None \<Longrightarrow> filter (\<lambda>s. s = None) t = []"
  by (auto simp: filter_empty_conv in_set_conv_nth)

lemma sys_pipe_ok:
  assumes "fw_inv [] fw" and "cur_table fw = Some t" and "length (filter (\<lambda>s. s = None) (fw_tables fw ! t)) \<noteq> 1"
  shows "\<exists>r fw'. sys_pipe ptr fw = Some (r, fw') \<and> fw_inv [] fw'"
proof (cases "ptr = 0 \<or> fst (alloc_pipe (fw_pipes fw)) = None")
  case True
  then show ?thesis using assms(1) by (auto simp: sys_pipe_def split: prod.split)
next
  case False
  then obtain pid pw where al: "alloc_pipe (fw_pipes fw) = (Some pid, pw)" "ptr \<noteq> 0"
    by (metis option.exhaust prod.collapse)
  let ?tab = "fw_tables fw ! t" and ?fw0 = "fw\<lparr>fw_pipes := pw\<rparr>"
  note n = fw_inv_new_pipe [OF assms(1) al(1)]
  note t = cur_table_less [OF assms(2)]
  note tok = fw_invD(2) [OF assms(1) t]
  have c0: "cur_table ?fw0 = Some t" using assms(2) n(3) by simp
  show ?thesis
  proof (rule alloc_slot_cases [OF tok, of "pipe_desc pid True"])
    assume f: "alloc_slot (pipe_desc pid True) ?tab = (None, ?tab)" "\<forall>i < length ?tab. ?tab ! i \<noteq> None"
    have f2: "alloc_slot (pipe_desc pid False) ?tab = (None, ?tab)"
      by (rule alloc_slot_cases [OF tok, of "pipe_desc pid False"]) (use f(2) in auto)
    from close_end_ok [OF n(1) [of 0 0], of True pid] obtain pw1 where
      pw1: "close_read pid pw = Some pw1" "fw_inv [pipe_desc pid False 0] (?fw0\<lparr>fw_pipes := pw1\<rparr>)"
      by (auto simp: pipe_desc_facts)
    from close_end_ok [OF pw1(2), of False pid] obtain pw2 where
      pw2: "close_write pid pw1 = Some pw2" "fw_inv [] (?fw0\<lparr>fw_pipes := pw2\<rparr>)"
      by (auto simp: pipe_desc_facts)
    show ?thesis
      using al f f2 pw1 pw2 with_fd_table_eq [OF c0, of "alloc_slot (pipe_desc pid True)"]
        with_fd_table_eq [OF c0, of "alloc_slot (pipe_desc pid False)"]
      by (simp add: sys_pipe_def alloc_pipe_fd_eq)
  next
    fix i assume a: "alloc_slot (pipe_desc pid True) ?tab = (Some i, ?tab[i := Some (pipe_desc pid True i)])"
      "i < length ?tab" "?tab ! i = None"
    let ?tab1 = "?tab[i := Some (pipe_desc pid True i)]"
    let ?fw1 = "?fw0\<lparr>fw_tables := (fw_tables fw)[t := ?tab1]\<rparr>"
    have i1: "fw_inv [pipe_desc pid False j] ?fw1" for j
      using put_slot [OF n(1) [of i j], of t i] t a(2,3) by simp
    have t1: "t < length (fw_tables ?fw1)" using t by simp
    have tok1: "ft_ok ?tab1" using fw_invD(2) [OF i1 t1] t by simp
    have c1: "cur_table ?fw1 = Some t" using c0 by simp
    have "\<not> (\<forall>k < length ?tab1. ?tab1 ! k \<noteq> None)"
    proof
      assume "\<forall>k < length ?tab1. ?tab1 ! k \<noteq> None"
      then have "filter (\<lambda>s. s = None) ?tab1 = []" by (rule free_slots_none)
      then show False
        using length_filter_update [OF a(2), of "\<lambda>s. s = None" "Some (pipe_desc pid True i)"] a(3) assms(3) by simp
    qed
    then obtain j where b: "alloc_slot (pipe_desc pid False) ?tab1 = (Some j, ?tab1[j := Some (pipe_desc pid False j)])"
      "j < length ?tab1" "?tab1 ! j = None"
      by (cases rule: alloc_slot_cases [OF tok1, of "pipe_desc pid False"]) blast+
    have "fw_inv [] (?fw1\<lparr>fw_tables := (fw_tables ?fw1)[t := (fw_tables ?fw1 ! t)[j := Some (pipe_desc pid False j)]]\<rparr>)"
      using put_slot [OF i1 [of j] t1, of j] t b(2,3) by simp
    then show ?thesis
      using al a b t with_fd_table_eq [OF c0, of "alloc_slot (pipe_desc pid True)"]
        with_fd_table_eq [OF c1, of "alloc_slot (pipe_desc pid False)"]
      by (simp add: sys_pipe_def alloc_pipe_fd_eq)
  qed
qed

section \<open>Starting a program\<close>

text \<open>A new table joins with the descriptors that were counted for it.\<close>

lemma join_table:
  assumes "fw_inv pend fw" and "ft_ok tab" and "\<And>d. Some d \<in> set tab \<Longrightarrow> fd_wf d"
    and "\<And>rd pid. table_ends rd pid tab = length (filter (is_end rd pid) pend)"
  shows "fw_inv [] (fw\<lparr>fw_tables := fw_tables fw @ [tab], fw_table_of := f\<rparr>)"
proof -
  have "end_fds rd pid (fw\<lparr>fw_tables := fw_tables fw @ [tab], fw_table_of := f\<rparr>) =
      end_fds rd pid fw + length (filter (is_end rd pid) pend)" for rd pid
    by (simp add: end_fds_def assms(4))
  then show ?thesis using assms by (auto simp: fw_inv_def)
qed

lemma ft_new_slots: "\<forall>s \<in> set ft_new. (\<forall>rd pid. \<not> end_slot rd pid s) \<and> (\<forall>d. s = Some d \<longrightarrow> fd_wf d)"
  unfolding ft_new_def
  by (intro set_update_all) (auto simp: new_fd_def is_end_def fd_wf_def)

lemma ft_new_length: "length ft_new = MAX_FDS"
  by (simp add: ft_new_def)

text \<open>A descriptor that fits the end it is redirected to.\<close>

definition fits_redirect :: "bool \<Rightarrow> int \<Rightarrow> fd_table \<Rightarrow> bool" where
  "fits_redirect rd fd t \<longleftrightarrow> fd < 0 \<or> (case ft_get (nat fd) t of
     Some d \<Rightarrow> fd_ty d \<noteq> (if rd then PipeWrite else PipeRead) | None \<Rightarrow> True)"

lemma inc_redirect:
  assumes "fd_wf d" and "fd_ty d \<noteq> (if rd then PipeWrite else PipeRead)"
  shows "(case fd_pipe_id d of
      Some pid \<Rightarrow> map_option (\<lambda>pw. fw\<lparr>fw_pipes := pw\<rparr>) ((if rd then inc_read else inc_write) pid (fw_pipes fw))
    | None \<Rightarrow> Some fw) = inc_for d fw"
  using assms by (cases rd) (auto simp: fd_wf_def inc_for_def inc_pipe_ref_for_def split: option.splits fd_type.splits)

lemma table_ends_update:
  "i < length t \<Longrightarrow> \<not> end_slot rd pid (t ! i) \<Longrightarrow>
   table_ends rd pid (t[i := Some d]) = table_ends rd pid t + length (filter (is_end rd pid) [d])"
  using length_filter_update [of i t "end_slot rd pid" "Some d"] by (simp add: table_ends_def)

lemma ft_new_ends: "table_ends rd pid ft_new = 0"
  using ft_new_slots by (auto simp: table_ends_def filter_empty_conv)

text \<open>A table under construction and the descriptors counted for it.\<close>

definition filled :: "fd_table \<Rightarrow> file_descriptor list \<Rightarrow> bool" where
  "filled tab pend \<longleftrightarrow> ft_ok tab \<and> (\<forall>d. Some d \<in> set tab \<longrightarrow> fd_wf d) \<and>
     (\<forall>rd pid. table_ends rd pid tab = length (filter (is_end rd pid) pend))"

lemma filled_new: "filled ft_new []"
  using ft_new_ok ft_new_slots by (simp add: filled_def ft_new_ends)

lemma filled_put:
  assumes "filled tab pend" and "i < length tab" and "\<And>rd pid. \<not> end_slot rd pid (tab ! i)" and "fd_wf d"
  shows "filled (tab[i := Some d]) (d # pend)"
proof -
  have "ft_ok (tab[i := Some d])" using assms by (intro ft_ok_update) (auto simp: filled_def fd_wf_def)
  moreover have "\<forall>s \<in> set (tab[i := Some d]). \<forall>d. s = Some d \<longrightarrow> fd_wf d"
    by (rule set_update_all) (use assms in \<open>auto simp: filled_def\<close>)
  moreover have "table_ends rd pid (tab[i := Some d]) = length (filter (is_end rd pid) (d # pend))" for rd pid
    using table_ends_update [OF assms(2), of rd pid d] assms(1,3) by (simp add: filled_def)
  ultimately show ?thesis by (auto simp: filled_def)
qed

lemma join_filled:
  "fw_inv pend fw \<Longrightarrow> filled tab pend \<Longrightarrow> fw_inv [] (fw\<lparr>fw_tables := fw_tables fw @ [tab], fw_table_of := f\<rparr>)"
  by (rule join_table) (auto simp: filled_def)

lemma exec_redirect_ok:
  assumes inv: "fw_inv [] fw" and cur: "cur_table fw = Some t"
    and fit: "fits_redirect True a (fw_tables fw ! t)" "fits_redirect False b (fw_tables fw ! t)"
  shows "\<exists>tab fw'. exec_redirect a b fw = Some (tab, fw') \<and>
    fw_inv [] (fw'\<lparr>fw_tables := fw_tables fw' @ [tab], fw_table_of := f\<rparr>)"
proof -
  define sin where "sin = (if a \<ge> 0 then ft_get (nat a) (fw_tables fw ! t) else None)"
  define sout where "sout = (if b \<ge> 0 then ft_get (nat b) (fw_tables fw ! t) else None)"
  have len: "0 < length ft_new" "1 < length ft_new" by (simp_all add: ft_new_length MAX_FDS_def)
  have slot: "\<not> end_slot rd pid (ft_new ! i)" if "i < length ft_new" for rd pid i
    using ft_new_slots nth_mem [OF that] by blast
  have look: "with_fd_table (\<lambda>t. ((if a \<ge> 0 then ft_get (nat a) t else None,
      if b \<ge> 0 then ft_get (nat b) t else None), t)) fw = Some ((sin, sout), fw)"
    unfolding sin_def sout_def
    by (rule with_fd_table_look [OF cur, of "\<lambda>t. (if a \<ge> 0 then ft_get (nat a) t else None,
      if b \<ge> 0 then ft_get (nat b) t else None)"])
  have "\<exists>t1 fw1 pend. (case sin of
        Some d \<Rightarrow> do {
          fw' \<leftarrow> (case fd_pipe_id d of
              Some pid \<Rightarrow> map_option (\<lambda>pw. fw\<lparr>fw_pipes := pw\<rparr>) (inc_read pid (fw_pipes fw))
            | None \<Rightarrow> Some fw);
          Some (set_fd 0 d ft_new, fw') }
      | None \<Rightarrow> Some (ft_new, fw)) = Some (t1, fw1) \<and> fw_inv pend fw1 \<and> filled t1 pend \<and> length t1 = MAX_FDS \<and>
      t1 ! 1 = ft_new ! 1 \<and> fw_tables fw1 = fw_tables fw"
  proof (cases sin)
    case None
    then show ?thesis using inv filled_new by (auto simp: ft_new_length)
  next
    case (Some d)
    then have d: "ft_get (nat a) (fw_tables fw ! t) = Some d" "fd_ty d \<noteq> PipeWrite"
      using fit(1) by (auto simp: sin_def fits_redirect_def split: if_splits)
    note g = get_slot [OF inv cur d(1)]
    obtain pw where "inc_for d fw = Some (fw\<lparr>fw_pipes := pw\<rparr>)" "fw_inv [d] (fw\<lparr>fw_pipes := pw\<rparr>)"
      using inc_for_ok [OF inv g(3,4)] by blast
    then show ?thesis
      using Some d filled_put [OF filled_new len(1) slot [OF len(1)] g(3)] inc_redirect [OF g(3), of True fw, unfolded if_True] len
      by (intro exI [of _ "ft_new[0 := Some d]"] exI [of _ "fw\<lparr>fw_pipes := pw\<rparr>"] exI [of _ "[d]"])
        (simp add: set_fd_def ft_new_length)
  qed
  then obtain t1 fw1 pend where 1: "(case sin of
        Some d \<Rightarrow> do {
          fw' \<leftarrow> (case fd_pipe_id d of
              Some pid \<Rightarrow> map_option (\<lambda>pw. fw\<lparr>fw_pipes := pw\<rparr>) (inc_read pid (fw_pipes fw))
            | None \<Rightarrow> Some fw);
          Some (set_fd 0 d ft_new, fw') }
      | None \<Rightarrow> Some (ft_new, fw)) = Some (t1, fw1)" "fw_inv pend fw1" "filled t1 pend" "length t1 = MAX_FDS"
      "t1 ! 1 = ft_new ! 1" "fw_tables fw1 = fw_tables fw" by blast
  have "\<exists>tab fw' pend'. (case sout of
        Some d \<Rightarrow> do {
          fw' \<leftarrow> (case fd_pipe_id d of
              Some pid \<Rightarrow> map_option (\<lambda>pw. fw1\<lparr>fw_pipes := pw\<rparr>) (inc_write pid (fw_pipes fw1))
            | None \<Rightarrow> Some fw1);
          Some (set_fd 1 d t1, fw') }
      | None \<Rightarrow> Some (t1, fw1)) = Some (tab, fw') \<and> fw_inv pend' fw' \<and> filled tab pend'"
  proof (cases sout)
    case None
    then show ?thesis using 1 by auto
  next
    case (Some d)
    then have d: "ft_get (nat b) (fw_tables fw ! t) = Some d" "fd_ty d \<noteq> PipeRead"
      using fit(2) by (auto simp: sout_def fits_redirect_def split: if_splits)
    note g = get_slot [OF inv cur d(1)]
    have "is_end rd pid d \<Longrightarrow> 0 < end_fds rd pid fw1" for rd pid
      using g(4) [of rd pid] end_fds_cong [OF 1(6), of rd pid] by simp
    then obtain pw where "inc_for d fw1 = Some (fw1\<lparr>fw_pipes := pw\<rparr>)" "fw_inv (d # pend) (fw1\<lparr>fw_pipes := pw\<rparr>)"
      using inc_for_ok [OF 1(2) g(3)] by blast
    then show ?thesis
      using Some d filled_put [OF 1(3), of 1 d] 1(4,5) slot [OF len(2)] len g(3) inc_redirect [OF g(3), of False fw1, unfolded if_False]
      by (intro exI [of _ "t1[1 := Some d]"] exI [of _ "fw1\<lparr>fw_pipes := pw\<rparr>"] exI [of _ "d # pend"])
        (simp add: set_fd_def ft_new_length)
  qed
  then obtain tab fw' pend' where 2: "(case sout of
        Some d \<Rightarrow> do {
          fw' \<leftarrow> (case fd_pipe_id d of
              Some pid \<Rightarrow> map_option (\<lambda>pw. fw1\<lparr>fw_pipes := pw\<rparr>) (inc_write pid (fw_pipes fw1))
            | None \<Rightarrow> Some fw1);
          Some (set_fd 1 d t1, fw') }
      | None \<Rightarrow> Some (t1, fw1)) = Some (tab, fw')" "fw_inv pend' fw'" "filled tab pend'" by blast
  show ?thesis
  proof (cases "a \<ge> 0 \<or> b \<ge> 0")
    case True
    then have "exec_redirect a b fw = Some (tab, fw')"
      unfolding exec_redirect_def look using 1(1) 2(1) by simp
    then show ?thesis using join_filled [OF 2(2,3)] by blast
  next
    case False
    then show ?thesis using join_filled [OF inv filled_new] by (simp add: exec_redirect_def)
  qed
qed

section \<open>Runs of the descriptor calls\<close>

text \<open>
  The calls in any order and by any process. The label of a step tells whether the call makes the
  counts wrong: \<open>sys_pipe\<close> that gets a pipe with exactly one descriptor left, \<open>sys_dup2\<close> that
  overwrites a pipe end, a redirection of a pipe end against its direction or of any pipe end
  when the process table turns out to be full, \<open>sys_fork\<close> with a pipe end open, and the end of a
  process that was killed with the last reference to a table with a pipe end. \<open>use_call\<close> stands
  for the calls that change the position, the flags or the contents of a descriptor only.
\<close>

definition redirects_end :: "int \<Rightarrow> fd_table \<Rightarrow> bool" where
  "redirects_end fd t \<longleftrightarrow> 0 \<le> fd \<and> pipe_slot (ft_get (nat fd) t)"

inductive fd_step :: "bool \<Rightarrow> fd_world \<Rightarrow> fd_world \<Rightarrow> bool" where
  pipe_call: "cur_table fw = Some t \<Longrightarrow> sys_pipe ptr fw = Some (r, fw') \<Longrightarrow>
    fd_step (ptr \<noteq> 0 \<and> fst (alloc_pipe (fw_pipes fw)) \<noteq> None \<and> length (filter (\<lambda>s. s = None) (fw_tables fw ! t)) = 1) fw fw'"
| close_call: "cur_table fw = Some t \<Longrightarrow> sys_close fd fw = Some (r, fw') \<Longrightarrow> fd_step False fw fw'"
| dup2_call: "cur_table fw = Some t \<Longrightarrow> sys_dup2 old new fw = Some (r, fw') \<Longrightarrow>
    fd_step (overwrites_end old new (fw_tables fw ! t)) fw fw'"
| dup_call: "cur_table fw = Some t \<Longrightarrow> linux_dup old fw = Some (r, fw') \<Longrightarrow> fd_step False fw fw'"
| dupfd_call: "cur_table fw = Some t \<Longrightarrow> fcntl_dupfd fd arg fw = Some (r, fw') \<Longrightarrow> fd_step False fw fw'"
| exit_call: "cur_table fw = Some t \<Longrightarrow> cleanup_current_process_fds fw = Some fw' \<Longrightarrow> fd_step False fw fw'"
| open_call: "cur_table fw = Some t \<Longrightarrow> ty \<notin> {PipeRead, PipeWrite} \<Longrightarrow>
    alloc \<in> {ft_alloc name flags, alloc_vfs_fd name v flags, alloc_stdio_fd name flags,
      alloc_fake_fd name flags, alloc_urandom_fd flags, alloc_special_fd name flags ty} \<Longrightarrow>
    with_fd_table alloc fw = Some (r, fw') \<Longrightarrow> fd_step False fw fw'"
| use_call: "cur_table fw = Some t \<Longrightarrow> fd < length (fw_tables fw ! t) \<Longrightarrow> fw_tables fw ! t ! fd = Some d \<Longrightarrow>
    fd_pipe_id d' = fd_pipe_id d \<Longrightarrow> fd_valid d' = fd_valid d \<Longrightarrow>
    fd_ty d' = fd_ty d \<or> \<not> pipe_slot (Some d) \<and> \<not> pipe_slot (Some d') \<Longrightarrow>
    fd_step False fw (fw\<lparr>fw_tables := (fw_tables fw)[t := (fw_tables fw ! t)[fd := Some d']]\<rparr>)"
| spawn: "cur_table fw = Some t \<Longrightarrow> exec_redirect a b fw = Some (tab, fw') \<Longrightarrow>
    fd_step (\<not> (fits_redirect True a (fw_tables fw ! t) \<and> fits_redirect False b (fw_tables fw ! t))) fw
      (fw'\<lparr>fw_tables := fw_tables fw' @ [tab], fw_table_of := (fw_table_of fw')(p \<mapsto> length (fw_tables fw'))\<rparr>)"
| spawn_full: "cur_table fw = Some t \<Longrightarrow> exec_redirect a b fw = Some (tab, fw') \<Longrightarrow>
    fd_step (redirects_end a (fw_tables fw ! t) \<or> redirects_end b (fw_tables fw ! t)) fw fw'"
| fork: "cur_table fw = Some t \<Longrightarrow> fd_step (list_ex pipe_slot (fw_tables fw ! t)) fw (fork_fds child fw)"
| first: "fd_step False fw (fw\<lparr>fw_tables := fw_tables fw @ [ft_new], fw_table_of := (fw_table_of fw)(p \<mapsto> length (fw_tables fw))\<rparr>)"
| clone_files: "fd_step False fw (fw\<lparr>fw_table_of := (fw_table_of fw)(p := fw_table_of fw q)\<rparr>)"
| reclaim: "fw_table_of fw p = Some t \<Longrightarrow> t < length (fw_tables fw) \<Longrightarrow>
    last_ref \<longleftrightarrow> (\<forall>q. q \<noteq> p \<longrightarrow> fw_table_of fw q \<noteq> Some t) \<Longrightarrow>
    fd_step (last_ref \<and> list_ex pipe_slot (fw_tables fw ! t)) fw (reclaim_fds last_ref p fw)"
| reading: "pipe_read pid buf len (fw_pipes fw) = Some (tr, pw) \<Longrightarrow> fd_step False fw (fw\<lparr>fw_pipes := pw\<rparr>)"
| writing: "pipe_write mem pid buf len (fw_pipes fw) = Some (tr, pw) \<Longrightarrow> fd_step False fw (fw\<lparr>fw_pipes := pw\<rparr>)"
| scheduling: "fd_step False fw (fw\<lparr>fw_pipes := (fw_pipes fw)\<lparr>pw_sched := w\<rparr>\<rparr>)"

definition fd_boot :: "sched_world \<Rightarrow> fd_world" where
  "fd_boot w = \<lparr>fw_tables = [], fw_table_of = Map.empty,
     fw_pipes = \<lparr>pw_table = replicate MAX_PIPES None, pw_refs = replicate MAX_PIPES (0, 0), pw_sched = w\<rparr>,
     fw_locks = [], fw_released = []\<rparr>"

lemma alloc_other_ok:
  assumes inv: "fw_inv [] fw" and cur: "cur_table fw = Some t"
    and other: "\<And>i. fd_wf (mk i)" "\<And>i rd pid. \<not> is_end rd pid (mk i)"
    and "with_fd_table (alloc_slot mk) fw = Some (r, fw')"
  shows "fw_inv [] fw'"
proof (rule alloc_slot_cases [OF fw_invD(2) [OF inv cur_table_less [OF cur]], of mk])
  assume "alloc_slot mk (fw_tables fw ! t) = (None, fw_tables fw ! t)"
  then show ?thesis using assms(5) inv with_fd_table_eq [OF cur, of "alloc_slot mk"] by simp
next
  fix i assume i: "alloc_slot mk (fw_tables fw ! t) = (Some i, (fw_tables fw ! t)[i := Some (mk i)])"
    "i < length (fw_tables fw ! t)" "fw_tables fw ! t ! i = None"
  have "fw_inv [] (fw\<lparr>fw_tables := (fw_tables fw)[t := (fw_tables fw ! t)[i := Some (mk i)]]\<rparr>)"
    using i(3) by (intro put_slot [OF fw_inv_add_other [OF inv other] cur_table_less [OF cur] i(2)]) simp
  then show ?thesis using i(1) assms(5) with_fd_table_eq [OF cur, of "alloc_slot mk"] by simp
qed

lemmas other_allocs = ft_alloc_def alloc_vfs_fd_def alloc_stdio_fd_def alloc_fake_fd_def alloc_urandom_fd_def
  alloc_special_fd_def

lemma other_alloc_slot:
  assumes "alloc \<in> {ft_alloc name flags, alloc_vfs_fd name v flags, alloc_stdio_fd name flags,
      alloc_fake_fd name flags, alloc_urandom_fd flags, alloc_special_fd name flags ty}"
    and "ty \<notin> {PipeRead, PipeWrite}"
  obtains n f ty' k where "alloc = alloc_slot (\<lambda>i. new_fd n f ty' None (k i))" "ty' \<notin> {PipeRead, PipeWrite}"
  using assms unfolding other_allocs by fastforce

text \<open>The states of a run in which no call has made the counts wrong.\<close>

inductive fd_reachable :: "fd_world \<Rightarrow> bool" where
  boot: "fd_reachable (fd_boot w)"
| step: "fd_reachable fw \<Longrightarrow> fd_step False fw fw' \<Longrightarrow> fd_reachable fw'"

lemma fd_boot_inv: "fw_inv [] (fd_boot w)"
  by (simp add: fd_boot_def fw_inv_def pw_ok_def slot_ok_def end_fds_def)

lemma fw_inv_pipes:
  assumes "fw_inv [] fw" and "pw_ok pw" and "pw_refs pw = pw_refs (fw_pipes fw)"
  shows "fw_inv [] (fw\<lparr>fw_pipes := pw\<rparr>)"
  using assms by (simp add: fw_inv_def fw_inv_trace)

lemma fw_inv_table_of: "fw_inv pend (fw\<lparr>fw_table_of := f\<rparr>) = fw_inv pend fw"
  by (simp add: fw_inv_def end_fds_def)

lemma use_call_ok:
  assumes "fw_inv [] fw" and "cur_table fw = Some t" and "fd < length (fw_tables fw ! t)" and "fw_tables fw ! t ! fd = Some d"
    and "fd_pipe_id d' = fd_pipe_id d" and "fd_valid d' = fd_valid d"
    and "fd_ty d' = fd_ty d \<or> \<not> pipe_slot (Some d) \<and> \<not> pipe_slot (Some d')"
  shows "fw_inv [] (fw\<lparr>fw_tables := (fw_tables fw)[t := (fw_tables fw ! t)[fd := Some d']]\<rparr>)"
proof -
  note t = cur_table_less [OF assms(2)]
  have wf: "fd_wf d'"
    using fw_invD(3) [OF assms(1) t assms(3,4)] assms(5-7) by (auto simp: fd_wf_def pipe_slot_def split: option.splits)
  have same: "is_end rd pid d' = is_end rd pid d" for rd pid
    using assms(5,7) by (auto simp: is_end_def pipe_slot_def)
  show ?thesis
  proof (rule fw_inv_tables [OF assms(1) t])
    let ?fw = "fw\<lparr>fw_tables := (fw_tables fw)[t := (fw_tables fw ! t)[fd := Some d']]\<rparr>"
    show "end_fds rd pid ?fw + length (filter (is_end rd pid) []) = end_fds rd pid fw + length (filter (is_end rd pid) [])" for rd pid
      using end_fds_update [OF t assms(3), of ?fw "Some d'" rd pid] assms(4) same [of rd pid] by simp
  qed (use set_update_wf [OF assms(1) t, of "Some d'"] wf in auto)
qed

lemma spawn_full_ok:
  assumes "fw_inv [] fw" and "cur_table fw = Some t" and "exec_redirect a b fw = Some (tab, fw')"
    and "\<not> redirects_end a (fw_tables fw ! t)" "\<not> redirects_end b (fw_tables fw ! t)"
  shows "fw' = fw"
proof -
  let ?sin = "if a \<ge> 0 then ft_get (nat a) (fw_tables fw ! t) else None"
  let ?sout = "if b \<ge> 0 then ft_get (nat b) (fw_tables fw ! t) else None"
  have look: "with_fd_table (\<lambda>t. ((if a \<ge> 0 then ft_get (nat a) t else None, if b \<ge> 0 then ft_get (nat b) t else None), t)) fw =
      Some ((?sin, ?sout), fw)"
    by (rule with_fd_table_look [OF assms(2), of "\<lambda>t. (if a \<ge> 0 then ft_get (nat a) t else None, if b \<ge> 0 then ft_get (nat b) t else None)"])
  have plain: "fd_pipe_id d = None" if "ft_get (nat n) (fw_tables fw ! t) = Some d" "0 \<le> n" "\<not> redirects_end n (fw_tables fw ! t)" for n d
    using get_slot(3) [OF assms(1,2) that(1)] that by (auto simp: redirects_end_def pipe_slot_def fd_wf_def split: option.splits)
  have "fd_pipe_id d = None" if "?sin = Some d \<or> ?sout = Some d" for d
    using that plain assms(4,5) by (auto split: if_splits)
  then show ?thesis
    using assms(3) look by (auto simp: exec_redirect_def split: option.splits if_splits)
qed

lemma fork_fds_eq:
  "cur_table fw = Some t \<Longrightarrow> fork_fds child fw =
    fw\<lparr>fw_tables := fw_tables fw @ [fw_tables fw ! t], fw_table_of := (fw_table_of fw)(child \<mapsto> length (fw_tables fw))\<rparr>"
  by (auto simp: cur_table_def fork_fds_def split: option.splits if_splits)

lemma fork_fds_ok:
  assumes "fw_inv [] fw" and "cur_table fw = Some t" and "\<not> list_ex pipe_slot (fw_tables fw ! t)"
  shows "fw_inv [] (fork_fds child fw)"
  unfolding fork_fds_eq [OF assms(2)]
proof (rule join_table [OF assms(1)])
  note t = cur_table_less [OF assms(2)]
  show "ft_ok (fw_tables fw ! t)" "\<And>d. Some d \<in> set (fw_tables fw ! t) \<Longrightarrow> fd_wf d"
    using assms(1) nth_mem [OF t] by (auto simp: fw_inv_def)
qed (simp add: no_pipe_table [OF assms(3)])

lemma reclaim_fds_ok:
  assumes "fw_inv [] fw" and "fw_table_of fw p = Some t" and "t < length (fw_tables fw)"
    and "\<not> (last_ref \<and> list_ex pipe_slot (fw_tables fw ! t))"
  shows "fw_inv [] (reclaim_fds last_ref p fw)"
proof (cases last_ref)
  case True
  let ?fw = "fw\<lparr>fw_tables := (fw_tables fw)[t := replicate MAX_FDS None]\<rparr>"
  have empty: "\<not> list_ex pipe_slot (replicate MAX_FDS None)" by (simp add: list_ex_iff pipe_slot_def)
  have "fw_inv [] ?fw"
  proof (rule fw_inv_tables [OF assms(1,3)])
    show "end_fds rd pid ?fw + length (filter (is_end rd pid) []) = end_fds rd pid fw + length (filter (is_end rd pid) [])" for rd pid
      using sum_list_map_update [OF assms(3), of "table_ends rd pid" "replicate MAX_FDS None"] True assms(4)
        no_pipe_table [OF empty] no_pipe_table [of "fw_tables fw ! t"] by (simp add: end_fds_def)
  qed (auto simp: ft_ok_def)
  moreover have "reclaim_fds last_ref p fw = ?fw\<lparr>fw_table_of := (fw_table_of fw)(p := None)\<rparr>"
    using assms(2) True by (simp add: reclaim_fds_def)
  ultimately show ?thesis by (simp only: fw_inv_table_of)
next
  case False
  then have "reclaim_fds last_ref p fw = fw\<lparr>fw_table_of := (fw_table_of fw)(p := None)\<rparr>"
    using assms(2) by (simp add: reclaim_fds_def)
  then show ?thesis using assms(1) by (simp only: fw_inv_table_of)
qed

lemma sys_pipe_no_pipe: "ptr = 0 \<or> fst (alloc_pipe (fw_pipes fw)) = None \<Longrightarrow> sys_pipe ptr fw = Some (r, fw') \<Longrightarrow> fw' = fw"
  by (cases "alloc_pipe (fw_pipes fw)") (auto simp: sys_pipe_def split: if_splits)

lemma fd_step_inv: "fd_step wrong fw fw' \<Longrightarrow> \<not> wrong \<Longrightarrow> fw_inv [] fw \<Longrightarrow> fw_inv [] fw'"
proof (induction rule: fd_step.induct)
  case (pipe_call fw t ptr r fw')
  show ?case
  proof (cases "ptr = 0 \<or> fst (alloc_pipe (fw_pipes fw)) = None")
    case True
    then show ?thesis using sys_pipe_no_pipe [OF True pipe_call.hyps(2)] pipe_call.prems by simp
  next
    case False
    then have "length (filter (\<lambda>s. s = None) (fw_tables fw ! t)) \<noteq> 1" using pipe_call.prems(1) by simp
    then show ?thesis using sys_pipe_ok [OF pipe_call.prems(2) pipe_call.hyps(1), of ptr] pipe_call.hyps(2) by auto
  qed
next
  case (close_call fw t fd r fw')
  then show ?case using sys_close_ok [OF close_call.prems(2) close_call.hyps(1), of fd] by auto
next
  case (dup2_call fw t old new r fw')
  then show ?case using sys_dup2_ok [OF dup2_call.prems(2) dup2_call.hyps(1) dup2_call.prems(1)] by auto
next
  case (dup_call fw t old r fw')
  then show ?case using linux_dup_ok [OF dup_call.prems(2) dup_call.hyps(1), of old] by auto
next
  case (dupfd_call fw t fd arg r fw')
  then show ?case using fcntl_dupfd_ok [OF dupfd_call.prems(2) dupfd_call.hyps(1), of fd arg] by auto
next
  case (exit_call fw t fw')
  then show ?case using cleanup_current_ok [OF exit_call.prems(2) exit_call.hyps(1)] by auto
next
  case (open_call fw t ty alloc name flags v r fw')
  obtain n f ty' k where mk: "alloc = alloc_slot (\<lambda>i. new_fd n f ty' None (k i))" "ty' \<notin> {PipeRead, PipeWrite}"
    using other_alloc_slot [OF open_call.hyps(3,2)] .
  show ?case
    using open_call.hyps(4) mk(2) unfolding mk(1)
    by (intro alloc_other_ok [OF open_call.prems(2) open_call.hyps(1)]) (auto simp: new_fd_def fd_wf_def is_end_def)
next
  case (spawn fw t a b tab fw' p)
  then have "fits_redirect True a (fw_tables fw ! t)" "fits_redirect False b (fw_tables fw ! t)" by simp_all
  from exec_redirect_ok [OF spawn.prems(2) spawn.hyps(1) this] spawn.hyps(2) show ?case by auto
next
  case (use_call fw t fd d d')
  then show ?case by (intro use_call_ok)
next
  case (spawn_full fw t a b tab fw')
  then show ?case using spawn_full_ok [OF spawn_full.prems(2) spawn_full.hyps] by simp
next
  case (fork fw t child)
  then show ?case by (intro fork_fds_ok)
next
  case (reclaim fw p t last_ref)
  then show ?case by (intro reclaim_fds_ok)
next
  case (first fw p)
  then show ?case using join_filled [OF first.prems(2) filled_new] by blast
next
  case (reading pid buf len fw tr pw)
  then show ?case using pipe_read_kept [OF fw_invD(1) [OF reading.prems(2)] reading.hyps]
    by (intro fw_inv_pipes) auto
next
  case (writing mem pid buf len fw tr pw)
  then show ?case using pipe_write_kept [OF fw_invD(1) [OF writing.prems(2)] writing.hyps]
    by (intro fw_inv_pipes) auto
next
  case (scheduling fw w)
  then show ?case using fw_invD(1) [OF scheduling.prems(2)] by (intro fw_inv_pipes) auto
qed (simp add: fw_inv_table_of)

lemma fd_reachable_inv: "fd_reachable fw \<Longrightarrow> fw_inv [] fw"
  by (induction rule: fd_reachable.induct) (auto intro: fd_boot_inv fd_step_inv)

lemma fork_counts:
  assumes "cur_table fw = Some t"
  shows "pw_refs (fw_pipes (fork_fds child fw)) = pw_refs (fw_pipes fw) \<and>
    end_fds rd pid (fork_fds child fw) = end_fds rd pid fw + table_ends rd pid (fw_tables fw ! t)"
  by (simp add: fork_fds_eq [OF assms] end_fds_def)

text \<open>
  C4: In every run of pipe creation, close, duplication, redirection, fork, process exit and removal, sharing
  of tables, pipe input and output and scheduling in which none of these happens: a pipe is
  created with exactly one descriptor left, a pipe end is overwritten by \<open>sys_dup2\<close>, redirected
  against its direction or into a program that finds the process table full, open in a process that
  forks, or open in a table that is dropped with a killed process. Then the counts of a pipe are
  exact: they are the numbers of open read and write descriptors over all tables. A pipe is in use
  exactly while a descriptor refers to it, its read end is closed exactly when no read
  descriptor is left, and likewise the write end. No descriptor refers to a freed pipe, and closing
  never panics. A fork leaves the counts as they are, while it adds the descriptors of the parent's table.
\<close>

theorem pipe_counts_exact:
  assumes "fd_reachable fw"
  shows "(\<forall>pid < 16. pw_refs (fw_pipes fw) ! pid = (end_fds True pid fw, end_fds False pid fw) \<and>
      (case pw_table (fw_pipes fw) ! pid of
         None \<Rightarrow> end_fds True pid fw = 0 \<and> end_fds False pid fw = 0
       | Some p \<Rightarrow> 0 < end_fds True pid fw + end_fds False pid fw \<and>
           (pi_read_closed p \<longleftrightarrow> end_fds True pid fw = 0) \<and> (pi_write_closed p \<longleftrightarrow> end_fds False pid fw = 0))) \<and>
    (\<forall>t fd d. cur_table fw = Some t \<and> ft_get fd (fw_tables fw ! t) = Some d \<and> fd_ty d \<in> {PipeRead, PipeWrite} \<longrightarrow>
      (\<exists>pid p. fd_pipe_id d = Some pid \<and> pid < 16 \<and> pw_table (fw_pipes fw) ! pid = Some p)) \<and>
    (cur_table fw \<noteq> None \<longrightarrow> sys_close n fw \<noteq> None \<and> cleanup_current_process_fds fw \<noteq> None) \<and>
    (\<forall>t child rd pid. cur_table fw = Some t \<longrightarrow> pw_refs (fw_pipes (fork_fds child fw)) = pw_refs (fw_pipes fw) \<and>
      end_fds rd pid (fork_fds child fw) = end_fds rd pid fw + table_ends rd pid (fw_tables fw ! t))"
proof -
  have inv: "fw_inv [] fw" using assms by (rule fd_reachable_inv)
  have size: "MAX_PIPES = 16" by (simp add: MAX_PIPES_def)
  have counts: "pw_refs (fw_pipes fw) ! pid = (end_fds True pid fw, end_fds False pid fw)" if "pid < 16" for pid
    using fw_invD(4) [OF inv, of pid] that size by simp
  have slot: "slot_ok (pw_table (fw_pipes fw) ! pid) (end_fds True pid fw, end_fds False pid fw)" if "pid < 16" for pid
    using pw_slot [OF fw_invD(1) [OF inv], of pid] counts [OF that] that size by simp
  have "\<exists>pid p. fd_pipe_id d = Some pid \<and> pid < 16 \<and> pw_table (fw_pipes fw) ! pid = Some p"
    if h: "cur_table fw = Some t" "ft_get fd (fw_tables fw ! t) = Some d" "fd_ty d \<in> {PipeRead, PipeWrite}" for t fd d
  proof -
    note g = get_slot [OF inv h(1,2)]
    obtain pid where pid: "fd_pipe_id d = Some pid" "pid < 16"
      using g(3) h(3) by (auto simp: fd_wf_def size split: option.splits)
    have "0 < end_fds True pid fw \<or> 0 < end_fds False pid fw"
      using g(4) [of True pid] g(4) [of False pid] h(3) pid(1) by (auto simp: is_end_def)
    then show ?thesis using slot [OF pid(2)] pid by (auto simp: slot_ok_def split: option.splits)
  qed
  moreover have "sys_close n fw \<noteq> None \<and> cleanup_current_process_fds fw \<noteq> None" if "cur_table fw \<noteq> None"
    using that sys_close_ok [OF inv, of _ n] cleanup_current_ok [OF inv] by (cases "cur_table fw") fastforce+
  moreover have "case pw_table (fw_pipes fw) ! pid of
         None \<Rightarrow> end_fds True pid fw = 0 \<and> end_fds False pid fw = 0
       | Some p \<Rightarrow> 0 < end_fds True pid fw + end_fds False pid fw \<and>
           (pi_read_closed p \<longleftrightarrow> end_fds True pid fw = 0) \<and> (pi_write_closed p \<longleftrightarrow> end_fds False pid fw = 0)"
    if "pid < 16" for pid
    using slot [OF that] by (auto simp: slot_ok_def split: option.splits)
  ultimately show ?thesis using counts fork_counts by blast
qed

section \<open>Where the counts go wrong\<close>

text \<open>
  \<open>sys_dup2\<close> onto an open write end of a pipe overwrites the descriptor without closing it, against
  its description. If it was the last write descriptor, the count stays at one with no
  descriptor left, the write end is never closed, and a reader of the empty pipe blocks instead
  of seeing end of file.
\<close>

theorem dup2_leaks_pipe_end:
  assumes "fd_reachable fw" and "cur_table fw = Some t"
    and "0 \<le> old" and "nat old < 32" and "0 \<le> new" and "nat new < 32" and "old \<noteq> new"
    and "ft_get (nat old) (fw_tables fw ! t) = Some d" and "fd_ty d \<notin> {PipeRead, PipeWrite}"
    and "ft_get (nat new) (fw_tables fw ! t) = Some e" and "is_end False pid e" and "end_fds False pid fw = 1"
    and "sys_dup2 old new fw = Some (r, fw')"
  shows "r = new \<and> end_fds False pid fw' = 0 \<and> snd (pw_refs (fw_pipes fw') ! pid) = 1 \<and>
    (\<exists>p. pw_table (fw_pipes fw') ! pid = Some p \<and> \<not> pi_write_closed p)"
proof -
  have inv: "fw_inv [] fw" using assms(1) by (rule fd_reachable_inv)
  note t = cur_table_less [OF assms(2)]
  note gd = get_slot [OF inv assms(2,8)] and ge = get_slot [OF inv assms(2,10)]
  have pid: "pid < MAX_PIPES" using ge(3) assms(11) by (auto simp: fd_wf_def is_end_def)
  have size: "MAX_FDS = 32" by (simp add: MAX_FDS_def)
  have inc: "inc_for d fw = Some fw"
    using assms(9) by (auto simp: inc_for_def inc_pipe_ref_for_def split: option.split fd_type.split)
  let ?fw = "fw\<lparr>fw_tables := (fw_tables fw)[t := (fw_tables fw ! t)[nat new := Some d]]\<rparr>"
  have eq: "r = new" "fw' = ?fw"
    using assms(3-8,13) inc with_fd_table_look [OF assms(2), of "ft_get (nat old)"] put_fd_eq [OF assms(2), of "nat new" d] ge(1)
    by (auto simp: sys_dup2_def size set_fd_def)
  have "\<not> is_end False pid d" using assms(9) by (simp add: is_end_def)
  then have "end_fds False pid fw' = 0"
    using end_fds_update [OF t ge(1), of fw' "Some d" False pid] ge(2) assms(11,12) eq(2) by simp
  moreover have "pw_refs (fw_pipes fw) ! pid = (end_fds True pid fw, 1)"
    using fw_invD(4) [OF inv pid] assms(12) by simp
  moreover have "\<exists>p. pw_table (fw_pipes fw) ! pid = Some p \<and> \<not> pi_write_closed p"
    using pw_slot [OF fw_invD(1) [OF inv] pid] \<open>pw_refs (fw_pipes fw) ! pid = (end_fds True pid fw, 1)\<close>
    by (auto simp: slot_ok_def split: option.splits)
  ultimately show ?thesis using eq by simp
qed

text \<open>
  \<open>sys_pipe\<close> with exactly one descriptor left reports that there is no memory, but it does not take
  the read descriptor back: the table then has a descriptor of a pipe that has been freed.
\<close>

theorem sys_pipe_dangling_fd:
  assumes "fd_reachable fw" and "cur_table fw = Some t" and "ptr \<noteq> 0"
    and "length (filter (\<lambda>s. s = None) (fw_tables fw ! t)) = 1" and "alloc_pipe (fw_pipes fw) = (Some pid, pw)"
  shows "\<exists>fw' fd d. sys_pipe ptr fw = Some ((ERR_NOMEM, []), fw') \<and> ft_get fd (fw_tables fw' ! t) = Some d \<and>
    is_end True pid d \<and> pw_table (fw_pipes fw') ! pid = None"
proof -
  have inv: "fw_inv [] fw" using assms(1) by (rule fd_reachable_inv)
  let ?tab = "fw_tables fw ! t" and ?fw0 = "fw\<lparr>fw_pipes := pw\<rparr>"
  note n = fw_inv_new_pipe [OF inv assms(5)] and t = cur_table_less [OF assms(2)]
  note tok = fw_invD(2) [OF inv t]
  have c0: "cur_table ?fw0 = Some t" using assms(2) n(3) by simp
  have free: "\<not> (\<forall>k < length ?tab. ?tab ! k \<noteq> None)" using assms(4) free_slots_none by fastforce
  obtain i where a: "alloc_slot (pipe_desc pid True) ?tab = (Some i, ?tab[i := Some (pipe_desc pid True i)])"
    "i < length ?tab" "?tab ! i = None"
    using free by (cases rule: alloc_slot_cases [OF tok, of "pipe_desc pid True"]) blast+
  let ?tab1 = "?tab[i := Some (pipe_desc pid True i)]"
  let ?fw1 = "?fw0\<lparr>fw_tables := (fw_tables fw)[t := ?tab1]\<rparr>"
  have c1: "cur_table ?fw1 = Some t" using c0 by simp
  have tok1: "ft_ok ?tab1" using tok by (rule ft_ok_update) (simp add: pipe_desc_def)
  have "length (filter (\<lambda>s. s = None) ?tab1) = 0"
    using length_filter_update [OF a(2), of "\<lambda>s. s = None" "Some (pipe_desc pid True i)"] a(3) assms(4) by simp
  then have "\<forall>k < length ?tab1. ?tab1 ! k \<noteq> None" by (auto simp: filter_empty_conv dest: nth_mem)
  then have b: "alloc_slot (pipe_desc pid False) ?tab1 = (None, ?tab1)"
    by (cases rule: alloc_slot_cases [OF tok1, of "pipe_desc pid False"]) auto
  from close_end_ok [OF n(1) [of 0 0], of True pid] obtain pw1 where
    pw1: "close_read pid pw = Some pw1" "fw_inv [pipe_desc pid False 0] (?fw0\<lparr>fw_pipes := pw1\<rparr>)"
    by (auto simp: pipe_desc_facts)
  from close_end_ok [OF pw1(2), of False pid] obtain pw2 where
    pw2: "close_write pid pw1 = Some pw2" "fw_inv [] (?fw0\<lparr>fw_pipes := pw2\<rparr>)"
    by (auto simp: pipe_desc_facts)
  let ?fw = "?fw1\<lparr>fw_pipes := pw2\<rparr>"
  have call: "sys_pipe ptr fw = Some ((ERR_NOMEM, []), ?fw)"
    using assms(3,5) a b pw1 pw2 t with_fd_table_eq [OF c0, of "alloc_slot (pipe_desc pid True)"]
      with_fd_table_eq [OF c1, of "alloc_slot (pipe_desc pid False)"]
    by (simp add: sys_pipe_def alloc_pipe_fd_eq)
  have "end_fds True pid fw = 0" "end_fds False pid fw = 0"
    using assms(5) fw_invD(4) [OF inv n(2)]
    by (cases rule: alloc_pipe_cases [OF fw_invD(1) [OF inv]]; simp)+
  then have "pw_refs pw2 ! pid = (0, 0)" using fw_invD(4) [OF pw2(2) n(2)] by (simp add: end_fds_def)
  then have "pw_table pw2 ! pid = None"
    using pw_slot [OF fw_invD(1) [OF pw2(2)] n(2)] by (auto simp: slot_ok_def split: option.splits)
  moreover have "ft_get i ?tab1 = Some (pipe_desc pid True i)" using a(2) by (simp add: ft_get_def pipe_desc_def)
  ultimately show ?thesis using call t by (intro exI [of _ ?fw] exI [of _ i]) (simp add: pipe_desc_facts)
qed

text \<open>
  A thread that exits closes the descriptors of all threads that share its table: after the exit
  of one process, every descriptor of another process with the same table is gone.
\<close>

theorem thread_exit_closes_shared_table:
  assumes "fd_reachable fw" and "cur_table fw = Some t" and "fw_table_of fw q = Some t"
    and "cleanup_current_process_fds fw = Some fw'"
  shows "fw_table_of fw' q = Some t \<and> (\<forall>fd. ft_get fd (fw_tables fw' ! t) = None)"
proof -
  obtain fw'' where "cleanup_current_process_fds fw = Some fw''"
    "fw_tables fw'' = (fw_tables fw)[t := replicate MAX_FDS None]" "fw_table_of fw'' = fw_table_of fw"
    using cleanup_current_ok [OF fd_reachable_inv [OF assms(1)] assms(2)] by blast
  with assms(3,4) cur_table_less [OF assms(2)] show ?thesis by (simp add: ft_get_def)
qed

text \<open>
  A duplicated file descriptor shares the handle of the open file without counting it. After
  \<open>linux_dup\<close> of a descriptor of an open file, closing the original closes the file's handle,
  while the duplicate still refers to it.
\<close>

theorem dup_shares_file_handle:
  assumes "fd_reachable fw" and "cur_table fw = Some t" and "ft_get fd (fw_tables fw ! t) = Some d"
    and "fd_ty d = VfsFile v" and "linux_dup fd fw = Some (int c, fw1)" and "sys_close (int fd) fw1 = Some (r, fw2)"
  shows "Vfs_Close v \<in> set (fw_released fw2) \<and> (\<exists>d'. ft_get c (fw_tables fw2 ! t) = Some d' \<and> fd_ty d' = VfsFile v)"
proof -
  have inv: "fw_inv [] fw" using assms(1) by (rule fd_reachable_inv)
  let ?tab = "fw_tables fw ! t"
  note t = cur_table_less [OF assms(2)] and g = get_slot [OF inv assms(2,3)]
  have nerr: "int c \<noteq> ERR_NOMEM" "int c \<noteq> ERR_INVAL" by (simp_all add: ERR_NOMEM_def ERR_INVAL_def)
  have inc: "inc_for d f = Some f" for f
    using assms(4) by (simp add: inc_for_def inc_pipe_ref_for_def split: option.split)
  obtain n where n: "first_closed 0 ?tab = Some n"
    using assms(5) nerr with_fd_table_look [OF assms(2), of "first_closed 0"]
    by (cases "first_closed 0 ?tab") (auto simp: linux_dup_def)
  note c = first_closed_slot [OF inv assms(2) n]
  have cl: "n < length ?tab" using c(1) table_length [OF inv assms(2)] by simp
  have ne: "fd \<noteq> n" using assms(3) c(3) by auto
  let ?fw = "fw\<lparr>fw_tables := (fw_tables fw)[t := ?tab[n := Some d]]\<rparr>"
  have cur1: "cur_table ?fw = Some t" using assms(2) by simp
  have get1: "ft_get fd (?tab[n := Some d]) = Some d"
    using assms(3) ne by (simp add: ft_get_def split: if_splits)
  have eq1: "c = n" "fw1 = ?fw"
    using assms(5) n with_fd_table_look [OF assms(2), of "first_closed 0"]
      with_fd_table_eq [OF assms(2), of "ft_dup fd n"] with_fd_table_look [OF cur1, of "ft_get fd"] cl assms(3) inc get1 t
    by (auto simp: linux_dup_def ft_dup_def)
  have size: "fd < MAX_FDS" using g(1) table_length [OF inv assms(2)] by simp
  have "fw_tables fw2 = (fw_tables fw)[t := ?tab[n := Some d, fd := None]]" "Vfs_Close v \<in> set (fw_released fw2)"
    using assms(6) size with_fd_table_eq [OF cur1, of "ft_take fd"] get1 t assms(4)
    by (auto simp: sys_close_def eq1(2) ft_take_def cleanup_fd_resources_def Let_def)
  moreover have "ft_get n (?tab[n := Some d, fd := None]) = Some d"
    using ne cl g(3) by (simp add: ft_get_def fd_wf_def)
  ultimately show ?thesis using t assms(4) eq1(1) by simp
qed

section \<open>Witnesses\<close>

text \<open>A shell that runs as process 5, after it has created a pipe, and after it has opened a file.\<close>

definition demo_shell :: fd_world where
  "demo_shell = (fd_boot one_running)\<lparr>fw_tables := [ft_new], fw_table_of := [5 \<mapsto> 0]\<rparr>"

definition demo_pipe :: fd_world where
  "demo_pipe = demo_shell\<lparr>fw_tables := [ft_new[3 := Some (pipe_desc 0 True 3), 4 := Some (pipe_desc 0 False 4)]],
     fw_pipes := (fw_pipes demo_shell)\<lparr>pw_table := (replicate MAX_PIPES None)[0 := Some pi_new],
       pw_refs := (replicate MAX_PIPES (0, 0))[0 := (1, 1)]\<rparr>\<rparr>"

definition demo_file :: fd_world where
  "demo_file = demo_shell\<lparr>fw_tables := [ft_new[3 := Some (new_fd ''/a'' 0 (VfsFile 7) None 0)]]\<rparr>"

lemma demo_shell_cur: "cur_table demo_shell = Some 0" "cur_table demo_pipe = Some 0" "cur_table demo_file = Some 0"
  by (simp_all add: cur_table_def demo_shell_def demo_pipe_def demo_file_def fd_boot_def one_running_index)

lemma ft_new_nth:
  "ft_new ! 0 = Some (new_fd ''stdin'' O_RDONLY Stdio None 0)" "ft_new ! Suc 0 = Some (new_fd ''stdout'' O_WRONLY Stdio None 0)"
  "ft_new ! 2 = Some (new_fd ''stderr'' O_WRONLY Stdio None 0)" "3 \<le> i \<Longrightarrow> i < 32 \<Longrightarrow> ft_new ! i = None"
  by (simp_all add: ft_new_def MAX_FDS_def)

lemma demo_shell_reachable: "fd_reachable demo_shell"
  using fd_reachable.step [OF fd_reachable.boot fd_step.first, of one_running 5]
  by (simp add: demo_shell_def fd_boot_def)

lemma demo_alloc:
  "alloc_slot mk ft_new = (Some 3, ft_new[3 := Some (mk 3)])"
  "alloc_slot mk (ft_new[3 := Some (new_fd n f ty p k)]) =
    (Some 4, ft_new[3 := Some (new_fd n f ty p k), 4 := Some (mk 4)])"
proof -
  have "[0..<32] = [0, Suc 0, 2, 3, 4] @ [5..<32]" by (simp add: upt_rec)
  then show "alloc_slot mk ft_new = (Some 3, ft_new[3 := Some (mk 3)])"
    "alloc_slot mk (ft_new[3 := Some (new_fd n f ty p k)]) =
      (Some 4, ft_new[3 := Some (new_fd n f ty p k), 4 := Some (mk 4)])"
    by (simp_all add: alloc_slot_def ft_new_length MAX_FDS_def ft_new_nth slot_unused_def)
qed

lemma demo_sys_pipe: "sys_pipe 8 demo_shell = Some ((0, [(8, 3), (wadd 8 4, 4)]), demo_pipe)"
proof -
  have upt: "[0..<16] = 0 # [Suc 0..<16]" by (simp add: upt_rec)
  have "alloc_pipe (fw_pipes demo_shell) = (Some 0, fw_pipes demo_pipe)"
    by (simp add: alloc_pipe_def demo_pipe_def demo_shell_def fd_boot_def MAX_PIPES_def upt del: upt_Suc)
  moreover have "fw_table_of demo_shell (sw_current_index (pw_sched (fw_pipes demo_pipe))) = Some 0"
    by (simp add: demo_pipe_def demo_shell_def fd_boot_def one_running_index)
  moreover have "fw_tables demo_shell = [ft_new]" by (simp add: demo_shell_def)
  moreover have "pipe_desc 0 True 3 = new_fd ''pipe:read'' O_RDONLY PipeRead (Some 0) 3" by (simp add: pipe_desc_def)
  ultimately show ?thesis
    by (simp add: sys_pipe_def with_fd_table_def alloc_pipe_fd_eq demo_alloc ERR_OK_def) (simp add: demo_pipe_def)
qed

lemma demo_pipe_reachable: "fd_reachable demo_pipe"
proof -
  have "length (filter (\<lambda>s. s = None) (fw_tables demo_shell ! 0)) \<noteq> 1"
    by (simp add: demo_shell_def ft_new_def MAX_FDS_def numeral_eq_Suc)
  then have "fd_step False demo_shell demo_pipe"
    using fd_step.pipe_call [OF demo_shell_cur(1) demo_sys_pipe] by simp
  then show ?thesis by (rule fd_reachable.step [OF demo_shell_reachable])
qed

lemma demo_file_reachable: "fd_reachable demo_file"
proof (rule fd_reachable.step [OF demo_shell_reachable fd_step.open_call [OF demo_shell_cur(1), of Stdio]])
  show "with_fd_table (alloc_vfs_fd ''/a'' 7 0) demo_shell = Some (Some 3, demo_file)"
    by (simp add: with_fd_table_eq [OF demo_shell_cur(1)] alloc_vfs_fd_def demo_file_def)
      (simp add: demo_shell_def demo_alloc)
qed auto

lemma demo_pipe_get:
  "ft_get 0 (fw_tables demo_pipe ! 0) = Some (new_fd ''stdin'' O_RDONLY Stdio None 0)"
  "ft_get 4 (fw_tables demo_pipe ! 0) = Some (pipe_desc 0 False 4)"
  by (simp_all add: ft_get_def demo_pipe_def ft_new_length MAX_FDS_def ft_new_nth) (simp_all add: pipe_desc_def new_fd_def)

lemma demo_pipe_refs: "pw_refs (fw_pipes demo_pipe) ! 0 = (1, 1)"
  by (simp add: demo_pipe_def MAX_PIPES_def)

theorem pipe_counts_exact_witness:
  "end_fds True 0 demo_pipe = 1 \<and> end_fds False 0 demo_pipe = 1 \<and> end_fds True 1 demo_pipe = 0 \<and>
   sys_close 4 demo_pipe \<noteq> None \<and> pw_refs (fw_pipes (fork_fds 6 demo_pipe)) = pw_refs (fw_pipes demo_pipe)"
proof -
  have "pw_refs (fw_pipes demo_pipe) ! 1 = (0, 0)" by (simp add: demo_pipe_def MAX_PIPES_def)
  then show ?thesis
    using pipe_counts_exact [OF demo_pipe_reachable, of 4] demo_pipe_refs demo_shell_cur(2) by fastforce
qed

theorem dup2_leaks_pipe_end_witness:
  "\<exists>fw'. sys_dup2 0 4 demo_pipe = Some (4, fw') \<and> end_fds False 0 fw' = 0 \<and> snd (pw_refs (fw_pipes fw') ! 0) = 1"
proof -
  have one: "end_fds False 0 demo_pipe = 1"
    using fw_invD(4) [OF fd_reachable_inv [OF demo_pipe_reachable], of 0] demo_pipe_refs by (simp add: MAX_PIPES_def)
  have not: "fd_ty (new_fd ''stdin'' O_RDONLY Stdio None 0) \<notin> {PipeRead, PipeWrite}" by (simp add: new_fd_def)
  have wend: "is_end False 0 (pipe_desc 0 False 4)" by (simp add: is_end_def pipe_desc_def new_fd_def)
  obtain fw' where call: "sys_dup2 0 4 demo_pipe = Some (4, fw')"
    using with_fd_table_look [OF demo_shell_cur(2), of "ft_get 0"] put_fd_eq [OF demo_shell_cur(2), of 4]
      demo_pipe_get(1)
    by (auto simp: sys_dup2_def MAX_FDS_def inc_for_def new_fd_def)
  have "nat 0 = 0" "nat 4 = 4" by simp_all
  then show ?thesis
    using dup2_leaks_pipe_end [OF demo_pipe_reachable demo_shell_cur(2) _ _ _ _ _ _ not _ wend one call]
      demo_pipe_get call by simp
qed

theorem thread_exit_closes_shared_table_witness:
  "\<exists>fw'. cleanup_current_process_fds (demo_pipe\<lparr>fw_table_of := (fw_table_of demo_pipe)(6 := fw_table_of demo_pipe 5)\<rparr>) = Some fw' \<and>
     fw_table_of fw' 6 = Some 0 \<and> ft_get 3 (fw_tables fw' ! 0) = None"
proof -
  let ?fw = "demo_pipe\<lparr>fw_table_of := (fw_table_of demo_pipe)(6 := fw_table_of demo_pipe 5)\<rparr>"
  have r: "fd_reachable ?fw" by (rule fd_reachable.step [OF demo_pipe_reachable fd_step.clone_files])
  have cur: "cur_table ?fw = Some 0"
    by (simp add: cur_table_def demo_pipe_def demo_shell_def fd_boot_def one_running_index)
  obtain fw' where "cleanup_current_process_fds ?fw = Some fw'"
    using cleanup_current_ok [OF fd_reachable_inv [OF r] cur] by blast
  then show ?thesis
    using thread_exit_closes_shared_table [OF r cur, of 6 fw'] by (auto simp: demo_pipe_def demo_shell_def)
qed

theorem dup_shares_file_handle_witness:
  "\<exists>fw1 r fw2. linux_dup 3 demo_file = Some (int 4, fw1) \<and> sys_close (int 3) fw1 = Some (r, fw2) \<and>
     Vfs_Close 7 \<in> set (fw_released fw2) \<and> (\<exists>d. ft_get 4 (fw_tables fw2 ! 0) = Some d \<and> fd_ty d = VfsFile 7)"
proof -
  let ?d = "new_fd ''/a'' 0 (VfsFile 7) None 0"
  let ?t = "ft_new[3 := Some ?d]"
  let ?fw = "demo_file\<lparr>fw_tables := [?t[4 := Some ?d]]\<rparr>"
  have tab: "fw_tables demo_file = [?t]" by (simp add: demo_file_def)
  have len: "length ?t = 32" by (simp add: ft_new_length MAX_FDS_def)
  have get: "ft_get 3 ?t = Some ?d" "ft_get 3 (?t[4 := Some ?d]) = Some ?d"
    using len by (simp_all add: ft_get_def)
  have "[0..<32] = [0, Suc 0, 2, 3, 4] @ [5..<32]" by (simp add: upt_rec)
  then have free: "first_closed 0 ?t = Some 4"
    using len by (simp add: first_closed_def MAX_FDS_def ft_get_def ft_new_nth)
  have cur: "cur_table ?fw = Some 0" by (simp add: cur_table_def demo_file_def demo_shell_def fd_boot_def one_running_index)
  have d1: "linux_dup 3 demo_file = Some (int 4, ?fw)"
    using with_fd_table_look [OF demo_shell_cur(3), of "first_closed 0"] with_fd_table_eq [OF demo_shell_cur(3), of "ft_dup 3 4"]
      with_fd_table_look [OF cur, of "ft_get 3"] len get free
    by (simp add: linux_dup_def tab ft_dup_def inc_for_def new_fd_def)
  have r: "fd_reachable ?fw" by (rule fd_reachable.step [OF demo_file_reachable fd_step.dup_call [OF demo_shell_cur(3) d1]])
  obtain r' fw2 where c: "sys_close (int 3) ?fw = Some (r', fw2)"
    using sys_close_ok [OF fd_reachable_inv [OF r] cur, of "int 3"] by blast
  show ?thesis
    using dup_shares_file_handle [OF demo_file_reachable demo_shell_cur(3) _ _ d1 c, of ?d 7] get(1) tab d1 c
    by (auto simp: new_fd_def)
qed

text \<open>The shell with its table filled up to one descriptor.\<close>

fun demo_open :: "nat \<Rightarrow> fd_world \<Rightarrow> fd_world" where
  "demo_open 0 fw = fw"
| "demo_open (Suc n) fw = demo_open n (snd (the (with_fd_table (ft_alloc ''a'' 0) fw)))"

lemma demo_open_step:
  assumes "fd_reachable fw" and "cur_table fw = Some 0" and "length (filter (\<lambda>s. s = None) (fw_tables fw ! 0)) = Suc n"
    and "fw' = snd (the (with_fd_table (ft_alloc ''a'' 0) fw))"
  shows "fd_reachable fw' \<and> cur_table fw' = Some 0 \<and> length (filter (\<lambda>s. s = None) (fw_tables fw' ! 0)) = n \<and>
    fw_pipes fw' = fw_pipes fw"
proof -
  let ?tab = "fw_tables fw ! 0" and ?d = "new_fd ''a'' 0 File None 0"
  note inv = fd_reachable_inv [OF assms(1)] and t = cur_table_less [OF assms(2)]
  have "\<not> (\<forall>k < length ?tab. ?tab ! k \<noteq> None)" using assms(3) free_slots_none by fastforce
  then obtain i where a: "alloc_slot (\<lambda>_. ?d) ?tab = (Some i, ?tab[i := Some ?d])" "i < length ?tab" "?tab ! i = None"
    by (cases rule: alloc_slot_cases [OF fw_invD(2) [OF inv t], of "\<lambda>_. ?d"]) blast+
  have call: "with_fd_table (ft_alloc ''a'' 0) fw = Some (Some i, fw')"
    using with_fd_table_eq [OF assms(2), of "alloc_slot (\<lambda>_. ?d)"] a(1) assms(4) by (simp add: ft_alloc_def)
  then have eq: "fw' = fw\<lparr>fw_tables := (fw_tables fw)[0 := ?tab[i := Some ?d]]\<rparr>"
    using with_fd_table_eq [OF assms(2), of "alloc_slot (\<lambda>_. ?d)"] a(1) by (simp add: ft_alloc_def)
  have "fd_reachable fw'"
    by (rule fd_reachable.step [OF assms(1) fd_step.open_call [OF assms(2) _ _ call, of Stdio]]) auto
  then show ?thesis
    using eq assms(2,3) t a(3) length_filter_update [OF a(2), of "\<lambda>s. s = None" "Some ?d"] by simp
qed

lemma demo_open_reachable:
  "fd_reachable fw \<Longrightarrow> cur_table fw = Some 0 \<Longrightarrow> length (filter (\<lambda>s. s = None) (fw_tables fw ! 0)) = n + k \<Longrightarrow>
   fd_reachable (demo_open n fw) \<and> cur_table (demo_open n fw) = Some 0 \<and>
   length (filter (\<lambda>s. s = None) (fw_tables (demo_open n fw) ! 0)) = k \<and> fw_pipes (demo_open n fw) = fw_pipes fw"
proof (induction n fw rule: demo_open.induct)
  case (2 n fw)
  then show ?case using demo_open_step [OF 2(2,3), of "n + k"] by simp
qed simp

theorem sys_pipe_dangling_fd_witness:
  "\<exists>fw' fd d. sys_pipe 8 (demo_open 28 demo_shell) = Some ((ERR_NOMEM, []), fw') \<and>
     ft_get fd (fw_tables fw' ! 0) = Some d \<and> is_end True 0 d \<and> pw_table (fw_pipes fw') ! 0 = None"
proof -
  have "length (filter (\<lambda>s. s = None) (fw_tables demo_shell ! 0)) = 28 + 1"
    by (simp add: demo_shell_def ft_new_def MAX_FDS_def numeral_eq_Suc)
  note r = demo_open_reachable [OF demo_shell_reachable demo_shell_cur(1) this]
  have upt: "[0..<16] = 0 # [Suc 0..<16]" by (simp add: upt_rec)
  have "alloc_pipe (fw_pipes (demo_open 28 demo_shell)) = (Some 0, fw_pipes demo_pipe)"
    using r by (simp add: alloc_pipe_def demo_pipe_def demo_shell_def fd_boot_def MAX_PIPES_def upt del: upt_Suc)
  then show ?thesis using sys_pipe_dangling_fd [of "demo_open 28 demo_shell" 0 8 0] r by simp
qed

end
