(* ===== verification/Ram_Fs.thy ===== *)
theory Ram_Fs
  imports Karte_Prelude
begin

text \<open>
  The in-memory file system of \<open>kernel/src/driver/fs.rs\<close> and the functions that choose between it and
  the disk file systems. The flat list of files is verified as a finite map from names to
  contents. The disk file systems are arguments: their calls are the fields of \<open>backends\<close>, over a
  disk state of any type.
\<close>

section \<open>Model\<close>

datatype file_data = Static "u8 list" | Owned "u8 list"

fun as_slice :: "file_data \<Rightarrow> u8 list" where
  "as_slice (Static s) = s"
| "as_slice (Owned v) = v"

record ram_file =
  f_name :: string
  f_data :: file_data

type_synonym file_system = "ram_file list"

definition named :: "string \<Rightarrow> ram_file \<Rightarrow> bool" where
  "named name f \<longleftrightarrow> f_name f = name"

definition fs_create :: "string \<Rightarrow> file_system \<Rightarrow> bool \<times> file_system" where
  "fs_create name fs =
    (if \<exists>f \<in> set fs. named name f then (False, fs) else (True, fs @ [\<lparr>f_name = name, f_data = Owned []\<rparr>]))"

text \<open>Replace the data of the first file of that name, or add one.\<close>

definition put_data :: "string \<Rightarrow> file_data \<Rightarrow> file_system \<Rightarrow> file_system" where
  "put_data name d fs =
    (case find (named name) fs of
       Some _ \<Rightarrow> upd_first (named name) (\<lambda>f. f\<lparr>f_data := d\<rparr>) fs
     | None \<Rightarrow> fs @ [\<lparr>f_name = name, f_data = d\<rparr>])"

definition write_static :: "string \<Rightarrow> u8 list \<Rightarrow> file_system \<Rightarrow> bool \<times> file_system" where
  "write_static name data fs = (True, put_data name (Static data) fs)"

definition fs_write :: "string \<Rightarrow> u8 list \<Rightarrow> file_system \<Rightarrow> bool \<times> file_system" where
  "fs_write name data fs = (True, put_data name (Owned data) fs)"

definition fs_append :: "string \<Rightarrow> u8 list \<Rightarrow> file_system \<Rightarrow> bool \<times> file_system" where
  "fs_append name data fs =
    (case find (named name) fs of
       Some _ \<Rightarrow> (True, upd_first (named name) (\<lambda>f. f\<lparr>f_data := Owned (as_slice (f_data f) @ data)\<rparr>) fs)
     | None \<Rightarrow> (False, fs))"

definition fs_read :: "string \<Rightarrow> file_system \<Rightarrow> u8 list option" where
  "fs_read name fs = map_option (as_slice \<circ> f_data) (find (named name) fs)"

definition fs_delete :: "string \<Rightarrow> file_system \<Rightarrow> bool \<times> file_system" where
  "fs_delete name fs =
    (let fs' = filter (\<lambda>f. f_name f \<noteq> name) fs in (length fs' < length fs, fs'))"

definition file_count :: "file_system \<Rightarrow> usize" where
  "file_count fs = length fs"

record 'e backends =
  be_has_ext4 :: bool
  be_ext4_read :: "string \<Rightarrow> 'e \<Rightarrow> u8 list option"
  be_ext4_write :: "string \<Rightarrow> u8 list \<Rightarrow> 'e \<Rightarrow> bool \<times> 'e"
  be_ext4_list :: "string \<Rightarrow> 'e \<Rightarrow> (string \<times> usize) list"
  be_ext4_mkdir :: "string \<Rightarrow> 'e \<Rightarrow> bool \<times> 'e"
  be_ext4_lookup :: "string \<Rightarrow> 'e \<Rightarrow> u64 option"
  be_ext4_delete :: "string \<Rightarrow> 'e \<Rightarrow> bool \<times> 'e"
  be_has_fat32 :: bool
  be_fat32_read :: "string \<Rightarrow> 'e \<Rightarrow> u8 list option"
  be_fat32_list :: "'e \<Rightarrow> (string \<times> usize) list"

definition read_file_owned :: "'e backends \<Rightarrow> string \<Rightarrow> file_system \<Rightarrow> 'e \<Rightarrow> u8 list option" where
  "read_file_owned be name fs disk =
    (case (if be_has_ext4 be then be_ext4_read be name disk else None) of
       Some d \<Rightarrow> Some d
     | None \<Rightarrow> (case (if be_has_fat32 be then be_fat32_read be name disk else None) of
         Some d \<Rightarrow> Some d
       | None \<Rightarrow> fs_read name fs))"

definition write_file_owned ::
  "'e backends \<Rightarrow> string \<Rightarrow> u8 list \<Rightarrow> file_system \<Rightarrow> 'e \<Rightarrow> bool \<times> file_system \<times> 'e" where
  "write_file_owned be name data fs disk =
    (if be_has_ext4 be then (let (ok, disk') = be_ext4_write be name data disk in (ok, fs, disk'))
     else (let (ok, fs') = fs_write name data fs in (ok, fs', disk)))"

text \<open>\<open>if !result.iter().any(|(n, _)| n == name) { result.push((name, size)) }\<close>\<close>

definition push_new :: "string \<times> usize \<Rightarrow> (string \<times> usize) list \<Rightarrow> (string \<times> usize) list" where
  "push_new e res = (if \<exists>x \<in> set res. fst x = fst e then res else res @ [e])"

definition list_directory :: "'e backends \<Rightarrow> string \<Rightarrow> file_system \<Rightarrow> 'e \<Rightarrow> (string \<times> usize) list" where
  "list_directory be path fs disk =
    (let r1 = (if be_has_ext4 be then be_ext4_list be path disk else []) in
     if be_has_ext4 be \<and> path \<noteq> [] then r1
     else let r2 = (if be_has_fat32 be then fold push_new (be_fat32_list be disk) r1 else r1)
          in fold push_new (map (\<lambda>f. (f_name f, length (as_slice (f_data f)))) fs) r2)"

definition create_file :: "'e backends \<Rightarrow> string \<Rightarrow> file_system \<Rightarrow> 'e \<Rightarrow> bool \<times> file_system \<times> 'e" where
  "create_file be name fs disk =
    (if be_has_ext4 be then (let (ok, disk') = be_ext4_write be name [] disk in (ok, fs, disk'))
     else (let (ok, fs') = fs_create name fs in (ok, fs', disk)))"

definition create_dir :: "'e backends \<Rightarrow> string \<Rightarrow> file_system \<Rightarrow> 'e \<Rightarrow> bool \<times> file_system \<times> 'e" where
  "create_dir be name fs disk =
    (if be_has_ext4 be then (let (ok, disk') = be_ext4_mkdir be name disk in (ok, fs, disk'))
     else (let (ok, fs') = fs_create name fs in (ok, fs', disk)))"

definition lookup_path :: "'e backends \<Rightarrow> string \<Rightarrow> file_system \<Rightarrow> 'e \<Rightarrow> u64 option" where
  "lookup_path be name fs disk =
    (if be_has_ext4 be then be_ext4_lookup be name disk
     else if fs_read name fs \<noteq> None then Some 1 else None)"

definition delete_file :: "'e backends \<Rightarrow> string \<Rightarrow> file_system \<Rightarrow> 'e \<Rightarrow> bool \<times> file_system \<times> 'e" where
  "delete_file be name fs disk =
    (let (ok1, disk') = (if be_has_ext4 be then be_ext4_delete be name disk else (False, disk));
         (ok2, fs') = fs_delete name fs
     in (ok1 \<or> ok2, fs', disk'))"

section \<open>The file list as a map\<close>

interpretation files: keyed_table named
  by unfold_locales (auto simp: named_def)

definition fs_map :: "file_system \<Rightarrow> string \<Rightarrow> u8 list option" where
  "fs_map fs = (\<lambda>name. fs_read name fs)"

lemma fs_map_put: "fs_map (put_data name d fs) = (fs_map fs)(name \<mapsto> as_slice d)"
proof (cases "find (named name) fs")
  case None
  then show ?thesis using files.get_push [of name "\<lparr>f_name = name, f_data = d\<rparr>" fs]
    by (auto simp: put_data_def fs_map_def fs_read_def named_def)
next
  case (Some f)
  then show ?thesis using files.get_upd_kept [of "\<lambda>f. f\<lparr>f_data := d\<rparr>" _ name fs]
    by (auto simp: put_data_def fs_map_def fs_read_def named_def)
qed

lemma fs_map_append:
  assumes "fs_map fs name = Some old"
  shows "fs_append name data fs = (True, snd (fs_append name data fs))"
    and "fs_map (snd (fs_append name data fs)) = (fs_map fs)(name \<mapsto> old @ data)"
proof -
  obtain f where f: "find (named name) fs = Some f" "as_slice (f_data f) = old"
    using assms by (auto simp: fs_map_def fs_read_def)
  show "fs_append name data fs = (True, snd (fs_append name data fs))" using f by (simp add: fs_append_def)
  show "fs_map (snd (fs_append name data fs)) = (fs_map fs)(name \<mapsto> old @ data)"
    using f files.get_upd_kept [of "\<lambda>f. f\<lparr>f_data := Owned (as_slice (f_data f) @ data)\<rparr>" _ name fs]
    by (auto simp: fs_append_def fs_map_def fs_read_def named_def)
qed

lemma find_filter_other: "(\<And>x. Q x \<Longrightarrow> P x) \<Longrightarrow> find Q (filter P xs) = find Q xs"
  by (induction xs) auto

lemma fs_map_delete: "fs_map (snd (fs_delete name fs)) = (fs_map fs)(name := None)"
proof
  fix n
  show "fs_map (snd (fs_delete name fs)) n = ((fs_map fs)(name := None)) n"
  proof (cases "n = name")
    case True
    then show ?thesis by (auto simp: fs_map_def fs_read_def fs_delete_def Let_def find_None_iff named_def)
  next
    case False
    then have "find (named n) (filter (\<lambda>f. f_name f \<noteq> name) fs) = find (named n) fs"
      by (intro find_filter_other) (simp add: named_def)
    with False show ?thesis by (simp add: fs_map_def fs_read_def fs_delete_def Let_def)
  qed
qed

lemma fs_map_ex: "fs_map fs name \<noteq> None \<longleftrightarrow> (\<exists>f \<in> set fs. named name f)"
proof -
  have "fs_map fs name \<noteq> None \<longleftrightarrow> find (named name) fs \<noteq> None" by (simp add: fs_map_def fs_read_def)
  then show ?thesis by (simp only: find_Some_iff_ex)
qed

lemma fs_delete_found: "fst (fs_delete name fs) \<longleftrightarrow> fs_map fs name \<noteq> None"
proof -
  have "fst (fs_delete name fs) \<longleftrightarrow> (\<exists>f \<in> set fs. f_name f = name)"
  proof (cases "\<exists>f \<in> set fs. f_name f = name")
    case True
    then show ?thesis using length_filter_less [of _ fs "\<lambda>f. f_name f \<noteq> name"] by (auto simp: fs_delete_def Let_def)
  next
    case False
    then have "filter (\<lambda>f. f_name f \<noteq> name) fs = fs" by (auto simp: filter_id_conv)
    with False show ?thesis by (simp add: fs_delete_def)
  qed
  then show ?thesis using fs_map_ex [of fs name] by (simp add: named_def)
qed

text \<open>
  C32: The file list implements a map from names to contents: writing (owned or static) sets a name,
  creating adds an empty file and fails exactly when the name is taken, appending extends a file
  and fails exactly when there is none, deleting removes the name and reports whether it was
  there, and no operation is visible under another name. A failed operation changes nothing.
\<close>

theorem ramfs_refines_map:
  "fs_map [] = Map.empty \<and>
   fs_write n d fs = (True, snd (fs_write n d fs)) \<and> fs_map (snd (fs_write n d fs)) = (fs_map fs)(n \<mapsto> d) \<and>
   fs_map (snd (write_static n d fs)) = (fs_map fs)(n \<mapsto> d) \<and>
   (case fs_create n fs of (ok, fs') \<Rightarrow> ok = (fs_map fs n = None) \<and>
      fs_map fs' = (if ok then (fs_map fs)(n \<mapsto> []) else fs_map fs)) \<and>
   (case fs_append n d fs of (ok, fs') \<Rightarrow>
      (case fs_map fs n of None \<Rightarrow> \<not> ok \<and> fs' = fs | Some old \<Rightarrow> ok \<and> fs_map fs' = (fs_map fs)(n \<mapsto> old @ d))) \<and>
   (case fs_delete n fs of (ok, fs') \<Rightarrow> ok = (fs_map fs n \<noteq> None) \<and> fs_map fs' = (fs_map fs)(n := None))"
proof -
  have cr: "case fs_create n fs of (ok, fs') \<Rightarrow> ok = (fs_map fs n = None) \<and>
      fs_map fs' = (if ok then (fs_map fs)(n \<mapsto> []) else fs_map fs)"
  proof (cases "fs_map fs n = None")
    case True
    then have "\<not> (\<exists>f \<in> set fs. named n f)" using fs_map_ex [of fs n] by blast
    moreover from this have "find (named n) fs = None" by (simp add: find_None_iff)
    ultimately show ?thesis using True fs_map_put [of n "Owned []" fs] by (simp add: fs_create_def put_data_def)
  next
    case False
    then show ?thesis using fs_map_ex [of fs n] by (simp add: fs_create_def)
  qed
  have ap: "case fs_append n d fs of (ok, fs') \<Rightarrow>
      (case fs_map fs n of None \<Rightarrow> \<not> ok \<and> fs' = fs | Some old \<Rightarrow> ok \<and> fs_map fs' = (fs_map fs)(n \<mapsto> old @ d))"
  proof (cases "fs_map fs n")
    case None
    then show ?thesis by (simp add: fs_append_def fs_map_def fs_read_def)
  next
    case (Some old)
    then show ?thesis using fs_map_append [OF Some, of d] by (cases "fs_append n d fs") simp
  qed
  have "fs_map [] = Map.empty" by (auto simp: fs_map_def fs_read_def)
  moreover have "case fs_delete n fs of (ok, fs') \<Rightarrow> ok = (fs_map fs n \<noteq> None) \<and> fs_map fs' = (fs_map fs)(n := None)"
    using fs_delete_found [of n fs] fs_map_delete [of n fs] by (cases "fs_delete n fs") simp
  ultimately show ?thesis using cr ap fs_map_put [of n _ fs] by (simp add: fs_write_def write_static_def)
qed

text \<open>
  With a FAT32 disk and no ext4, a file that exists on the disk cannot be changed: writing it
  reports success and stores the data in memory, but reading the name afterwards still returns
  what is on the disk.
\<close>

theorem fat32_shadows_writes:
  assumes "\<not> be_has_ext4 be" and "be_has_fat32 be" and "be_fat32_read be name disk = Some old"
    and "write_file_owned be name data fs disk = (ok, fs', disk')"
  shows "ok \<and> fs_map fs' name = Some data \<and> read_file_owned be name fs' disk' = Some old"
  using assms fs_map_put [of name "Owned data" fs]
  by (auto simp: write_file_owned_def read_file_owned_def fs_write_def)

definition one_file_disk :: "unit backends" where
  "one_file_disk = \<lparr>be_has_ext4 = False, be_ext4_read = (\<lambda>_ _. None), be_ext4_write = (\<lambda>_ _ e. (False, e)),
     be_ext4_list = (\<lambda>_ _. []), be_ext4_mkdir = (\<lambda>_ e. (False, e)), be_ext4_lookup = (\<lambda>_ _. None),
     be_ext4_delete = (\<lambda>_ e. (False, e)), be_has_fat32 = True,
     be_fat32_read = (\<lambda>n _. if n = ''shell'' then Some [1] else None), be_fat32_list = (\<lambda>_. [(''shell'', 1)])\<rparr>"

theorem fat32_shadows_writes_witness:
  "read_file_owned one_file_disk ''shell'' [\<lparr>f_name = ''shell'', f_data = Owned [2]\<rparr>] () = Some [1]"
  using fat32_shadows_writes [of one_file_disk "''shell''" "()" "[1]" "[2]" "[]" True
      "[\<lparr>f_name = ''shell'', f_data = Owned [2]\<rparr>]" "()"]
  by (simp add: one_file_disk_def write_file_owned_def fs_write_def put_data_def)

end
