(* ===== verification/Tty.thy ===== *)
theory Tty
  imports Ring
begin

unbundle bit_operations_syntax

text \<open>
  The terminal, \<open>kernel/src/driver/tty.rs\<close>: the input ring between the interrupt handler and
  \<open>sys_read\<close>, the line editor, the two input modes, and the blocking read of standard input from
  \<open>kernel/src/syscall/mod.rs\<close>. The line discipline is verified against a specification on lists, and
  the ring against the contract of a queue that refuses elements when it is full.

  What the terminal does to the outside, echoing bytes and waking tasks, is recorded in the order it
  happens. The x86-64 build is modelled, in which a wake-up also goes to the epoll waiters of
  descriptor 0.
\<close>

section \<open>Model\<close>

definition TTY_BUF_SIZE :: usize where "TTY_BUF_SIZE = 4096"
definition TTY_BUF_MASK :: usize where "TTY_BUF_MASK = 4095"
definition TTY_LINE_SIZE :: usize where "TTY_LINE_SIZE = 512"

record ring_buffer =
  rb_data :: "u8 list"
  rb_head :: usize
  rb_tail :: usize

definition rb_new :: ring_buffer where
  "rb_new = \<lparr>rb_data = replicate TTY_BUF_SIZE 0, rb_head = 0, rb_tail = 0\<rparr>"

definition rb_push :: "u8 \<Rightarrow> ring_buffer \<Rightarrow> bool \<times> ring_buffer" where
  "rb_push byte rb =
    (let next_head = wadd (rb_head rb) 1 AND TTY_BUF_MASK
     in if next_head = rb_tail rb then (False, rb)
        else (True, rb\<lparr>rb_data := (rb_data rb)[rb_head rb := byte], rb_head := next_head\<rparr>))"

definition rb_pop :: "ring_buffer \<Rightarrow> u8 option \<times> ring_buffer" where
  "rb_pop rb =
    (if rb_tail rb = rb_head rb then (None, rb)
     else (Some (rb_data rb ! rb_tail rb), rb\<lparr>rb_tail := wadd (rb_tail rb) 1 AND TTY_BUF_MASK\<rparr>))"

definition rb_len :: "ring_buffer \<Rightarrow> usize" where
  "rb_len rb = wsub (rb_head rb) (rb_tail rb) AND TTY_BUF_MASK"

record line_editor =
  le_buf :: "u8 list"
  le_len :: usize

definition le_new :: line_editor where "le_new = \<lparr>le_buf = replicate TTY_LINE_SIZE 0, le_len = 0\<rparr>"

definition le_clear :: "line_editor \<Rightarrow> line_editor" where "le_clear l = l\<lparr>le_len := 0\<rparr>"

definition le_push :: "u8 \<Rightarrow> line_editor \<Rightarrow> bool \<times> line_editor" where
  "le_push c l =
    (if le_len l \<ge> TTY_LINE_SIZE - 1 then (False, l)
     else (True, l\<lparr>le_buf := (le_buf l)[le_len l := c], le_len := le_len l + 1\<rparr>))"

definition le_pop :: "line_editor \<Rightarrow> bool \<times> line_editor" where
  "le_pop l = (if le_len l = 0 then (False, l) else (True, l\<lparr>le_len := le_len l - 1\<rparr>))"

datatype tty_mode = Canonical | Raw
datatype tty_event = Echo "u8 list" | Wake_Task usize | Wake_Epoll usize

record tty =
  tty_input :: ring_buffer
  tty_line :: line_editor
  tty_raw :: bool
  tty_echo :: bool
  tty_waiting :: usize
  tty_events :: "tty_event list"

definition tty_boot :: tty where
  "tty_boot = \<lparr>tty_input = rb_new, tty_line = le_new, tty_raw = False, tty_echo = True, tty_waiting = USIZE_MAX, tty_events = []\<rparr>"

definition has_input :: "tty \<Rightarrow> bool" where "has_input t \<longleftrightarrow> rb_len (tty_input t) > 0"

definition set_mode :: "tty_mode \<Rightarrow> tty \<Rightarrow> tty" where
  "set_mode m t =
    (case m of
       Canonical \<Rightarrow> t\<lparr>tty_raw := False, tty_echo := True\<rparr>
     | Raw \<Rightarrow> t\<lparr>tty_raw := True, tty_echo := False, tty_line := le_clear (tty_line t)\<rparr>)"

definition get_mode :: "tty \<Rightarrow> tty_mode" where "get_mode t = (if tty_raw t then Raw else Canonical)"

definition set_echo :: "bool \<Rightarrow> tty \<Rightarrow> tty" where "set_echo b t = t\<lparr>tty_echo := b\<rparr>"

definition emit :: "tty_event list \<Rightarrow> tty \<Rightarrow> tty" where "emit es t = t\<lparr>tty_events := tty_events t @ es\<rparr>"

definition echo :: "u8 list \<Rightarrow> tty \<Rightarrow> tty" where "echo bs = emit [Echo bs]"

definition wake_input_waiters :: "tty \<Rightarrow> tty" where
  "wake_input_waiters t =
    emit ((if tty_waiting t \<noteq> USIZE_MAX then [Wake_Task (tty_waiting t)] else []) @ [Wake_Epoll 0])
      (t\<lparr>tty_waiting := USIZE_MAX\<rparr>)"

definition on_char_raw :: "u8 \<Rightarrow> tty \<Rightarrow> tty" where
  "on_char_raw c t =
    (let (ok, rb) = rb_push c (tty_input t); t1 = t\<lparr>tty_input := rb\<rparr>
     in if ok then wake_input_waiters t1 else t1)"

text \<open>The loop that commits a line stops at the first byte that the ring refuses.\<close>

fun push_line :: "u8 list \<Rightarrow> ring_buffer \<Rightarrow> ring_buffer" where
  "push_line [] rb = rb"
| "push_line (b # bs) rb = (let (ok, rb') = rb_push b rb in if ok then push_line bs rb' else rb')"

definition ERASE :: "u8 list" where "ERASE = [0x08, 0x20, 0x08]"

text \<open>The two loops of the word deletion.\<close>

function erase_while :: "(u8 \<Rightarrow> bool) \<Rightarrow> tty \<Rightarrow> tty" where
  "erase_while P t =
    (if le_len (tty_line t) > 0 \<and> P (le_buf (tty_line t) ! (le_len (tty_line t) - 1))
     then erase_while P (echo ERASE (t\<lparr>tty_line := snd (le_pop (tty_line t))\<rparr>))
     else t)"
  by auto
termination by (relation "measure (\<lambda>(P, t). le_len (tty_line t))") (auto simp: echo_def emit_def le_pop_def)

declare erase_while.simps [simp del]

definition on_char_canonical :: "u8 \<Rightarrow> tty \<Rightarrow> tty" where
  "on_char_canonical c t =
    (if c = 0x03 then
       wake_input_waiters ((echo [0x5E, 0x43, 0x0D, 0x0A] t)
         \<lparr>tty_line := le_clear (tty_line t), tty_input := snd (rb_push 0x0A (tty_input t))\<rparr>)
     else if c = 0x08 \<or> c = 0x7F then
       (let (ok, l) = le_pop (tty_line t); t1 = t\<lparr>tty_line := l\<rparr> in if ok then echo ERASE t1 else t1)
     else if c = 0x0D \<or> c = 0x0A then
       (let rb = push_line (take (le_len (tty_line t)) (le_buf (tty_line t))) (tty_input t)
        in wake_input_waiters ((echo [0x0D, 0x0A] t)
          \<lparr>tty_input := snd (rb_push 0x0A rb), tty_line := le_clear (tty_line t)\<rparr>))
     else if 0x20 \<le> c \<and> c \<le> 0x7E then
       (let (ok, l) = le_push c (tty_line t); t1 = t\<lparr>tty_line := l\<rparr> in if ok then echo [c] t1 else t1)
     else if c = 0x04 then (if le_len (tty_line t) = 0 then wake_input_waiters t else t)
     else if c = 0x0C then echo [0x1B, 0x5B, 0x32, 0x4A, 0x1B, 0x5B, 0x48] t
     else if c = 0x15 then
       (emit (replicate (le_len (tty_line t)) (Echo ERASE)) t)\<lparr>tty_line := le_clear (tty_line t)\<rparr>
     else if c = 0x17 then erase_while (\<lambda>b. b \<noteq> 0x20) (erase_while (\<lambda>b. b = 0x20) t)
     else t)"

definition on_char :: "u8 \<Rightarrow> tty \<Rightarrow> tty" where
  "on_char c t = (if tty_raw t then on_char_raw c t else on_char_canonical c t)"

fun read_available :: "nat \<Rightarrow> ring_buffer \<Rightarrow> u8 list \<times> ring_buffer" where
  "read_available 0 rb = ([], rb)"
| "read_available (Suc n) rb =
    (case rb_pop rb of
       (Some c, rb1) \<Rightarrow> (let (cs, rb2) = read_available n rb1 in (c # cs, rb2))
     | (None, rb1) \<Rightarrow> ([], rb1))"

text \<open>The bytes stored from \<open>buf\<close> on; their number is the result of the call.\<close>

definition tty_read :: "usize \<Rightarrow> usize \<Rightarrow> tty \<Rightarrow> u8 list \<times> tty" where
  "tty_read buf len t =
    (if len = 0 \<or> buf = 0 then ([], t)
     else (let (bs, rb) = read_available len (tty_input t) in (bs, t\<lparr>tty_input := rb\<rparr>)))"

text \<open>
  Standard input of \<open>sys_read\<close>: a loop that reads, and if there is nothing polls the serial port and
  lets other tasks run. \<open>others i\<close> is what these do to the terminal in round \<open>i\<close>: deliver characters, and
  for other tasks also read it or change its mode. The buffer is the kernel's own, at an address
  that is not zero.
\<close>

partial_function (option) stdin_read :: "usize \<Rightarrow> usize \<Rightarrow> (nat \<Rightarrow> tty \<Rightarrow> tty) \<Rightarrow> nat \<Rightarrow> tty \<Rightarrow> (u8 list \<times> tty) option" where
  "stdin_read kbuf len others i t =
    (let (bs, t1) = tty_read kbuf len t
     in if bs \<noteq> [] then Some (bs, t1) else stdin_read kbuf len others (i + 1) (others i t1))"

section \<open>The ring is a queue of 4095 bytes\<close>

definition rb_ok :: "ring_buffer \<Rightarrow> bool" where
  "rb_ok rb \<longleftrightarrow> length (rb_data rb) = 4096 \<and> rb_head rb < 4096 \<and> rb_tail rb < 4096"

definition rb_contents :: "ring_buffer \<Rightarrow> u8 list" where
  "rb_contents rb = ring_window (rb_data rb) (rb_tail rb) (occupied 4096 (rb_head rb) (rb_tail rb))"

lemma and_mask_mod: "x AND TTY_BUF_MASK = x mod 4096"
proof -
  have "(4095 :: nat) = mask 12" by (simp add: mask_eq_exp_minus_1)
  then show ?thesis using take_bit_eq_mask [of 12 x] by (simp add: TTY_BUF_MASK_def take_bit_eq_mod)
qed

lemma wadd_1_mod: "x < 4096 \<Longrightarrow> wadd x (Suc 0) = Suc x"
  by (simp add: wadd_eq)

lemma rb_new_ok: "rb_ok rb_new" "rb_contents rb_new = []"
  by (simp_all add: rb_ok_def rb_new_def TTY_BUF_SIZE_def rb_contents_def occupied_def)

lemma length_rb_contents: "length (rb_contents rb) = occupied 4096 (rb_head rb) (rb_tail rb)"
  by (simp add: rb_contents_def)

lemma rb_push_eq:
  assumes "rb_ok rb"
  shows "fst (rb_push b rb) \<longleftrightarrow> length (rb_contents rb) < 4095" and "rb_ok (snd (rb_push b rb))"
    and "rb_contents (snd (rb_push b rb)) = (if length (rb_contents rb) < 4095 then rb_contents rb @ [b] else rb_contents rb)"
proof -
  let ?h = "rb_head rb" and ?t = "rb_tail rb"
  have h: "?h < 4096" "?t < 4096" "length (rb_data rb) = 4096" using assms by (simp_all add: rb_ok_def)
  have next_head: "wadd ?h (Suc 0) AND TTY_BUF_MASK = Suc ?h mod 4096" using h wadd_1_mod by (simp add: and_mask_mod)
  have full: "((?h + 1) mod 4096 = ?t) = (\<not> length (rb_contents rb) < 4095)"
    using occupied_full [OF h(1,2)] occupied_less [OF h(1,2)] by (simp add: length_rb_contents) arith
  show "fst (rb_push b rb) \<longleftrightarrow> length (rb_contents rb) < 4095"
    using full by (simp add: rb_push_def next_head Let_def)
  show "rb_ok (snd (rb_push b rb))" using h by (simp add: rb_push_def next_head Let_def rb_ok_def)
  show "rb_contents (snd (rb_push b rb)) = (if length (rb_contents rb) < 4095 then rb_contents rb @ [b] else rb_contents rb)"
  proof (cases "length (rb_contents rb) < 4095")
    case True
    then have occ: "Suc (occupied 4096 ?h ?t) < 4096" by (simp add: length_rb_contents)
    have "rb_contents (snd (rb_push b rb)) = ring_window ((rb_data rb)[?h := b]) ?t (Suc (occupied 4096 ?h ?t))"
      using True full occupied_push [OF h(1,2) occ] by (simp add: rb_push_def next_head Let_def rb_contents_def)
    also have "\<dots> = rb_contents rb @ [b]"
      using ring_window_put [of "occupied 4096 ?h ?t" "rb_data rb" ?t b] occ h head_from_tail [OF h(1,2)]
      by (simp add: rb_contents_def)
    finally show ?thesis using True by simp
  qed (use full in \<open>simp add: rb_push_def next_head Let_def\<close>)
qed

lemma rb_pop_eq:
  assumes "rb_ok rb"
  shows "rb_contents rb = [] \<Longrightarrow> rb_pop rb = (None, rb)"
    and "rb_contents rb = c # cs \<Longrightarrow> \<exists>rb'. rb_pop rb = (Some c, rb') \<and> rb_ok rb' \<and> rb_contents rb' = cs"
proof -
  let ?h = "rb_head rb" and ?t = "rb_tail rb" and ?n = "occupied 4096 (rb_head rb) (rb_tail rb)"
  have h: "?h < 4096" "?t < 4096" "length (rb_data rb) = 4096" using assms by (simp_all add: rb_ok_def)
  have empty: "(rb_contents rb = []) = (?h = ?t)"
    using occupied_empty [OF h(1,2)] length_rb_contents [of rb] by (metis length_0_conv)
  then show "rb_contents rb = [] \<Longrightarrow> rb_pop rb = (None, rb)" by (simp add: rb_pop_def)
  assume c: "rb_contents rb = c # cs"
  then have n: "?n = Suc (length cs)" using length_rb_contents [of rb] by simp
  let ?rb = "rb\<lparr>rb_tail := (?t + 1) mod 4096\<rparr>"
  have "ring_window (rb_data rb) ?t (Suc (length cs)) = c # cs" using c n by (simp add: rb_contents_def)
  then have w: "rb_data rb ! ?t = c" "ring_window (rb_data rb) ((?t + 1) mod 4096) (length cs) = cs"
    using h by (simp_all add: ring_window_Suc)
  have "occupied 4096 ?h ((?t + 1) mod 4096) = length cs" using occupied_pop [OF h(1,2), of 1] n by simp
  then have "rb_contents ?rb = cs" using w(2) by (simp add: rb_contents_def)
  moreover have "rb_pop rb = (Some c, ?rb)"
    using empty c w(1) wadd_1_mod [OF h(2)] by (auto simp: rb_pop_def and_mask_mod)
  ultimately show "\<exists>rb'. rb_pop rb = (Some c, rb') \<and> rb_ok rb' \<and> rb_contents rb' = cs"
    using h by (auto simp: rb_ok_def)
qed

lemma read_available_eq:
  "rb_ok rb \<Longrightarrow> fst (read_available n rb) = take n (rb_contents rb) \<and>
    rb_ok (snd (read_available n rb)) \<and> rb_contents (snd (read_available n rb)) = drop n (rb_contents rb)"
proof (induction n arbitrary: rb)
  case (Suc n)
  show ?case
  proof (cases "rb_contents rb")
    case Nil
    with Suc.prems rb_pop_eq(1) [OF Suc.prems] show ?thesis by simp
  next
    case (Cons c cs)
    then obtain rb' where "rb_pop rb = (Some c, rb')" "rb_ok rb'" "rb_contents rb' = cs"
      using rb_pop_eq(2) [OF Suc.prems] by blast
    with Suc.IH [of rb'] Cons show ?thesis by (cases "read_available n rb'") simp
  qed
qed simp

interpretation tty_ring: refusing_fifo rb_ok rb_contents 4095 read_available "\<lambda>b rb. snd (rb_push b rb)"
proof
  show "length (rb_contents rb) \<le> 4095" if "rb_ok rb" for rb
    using that occupied_less [of "rb_head rb" 4096 "rb_tail rb"] by (simp add: length_rb_contents rb_ok_def)
qed (simp_all add: rb_push_eq read_available_eq)

lemma push_line_fold: "rb_ok rb \<Longrightarrow> rb_ok (push_line bs rb) \<and>
    rb_contents (push_line bs rb) = rb_contents rb @ take (4095 - length (rb_contents rb)) bs"
proof (induction bs arbitrary: rb)
  case (Cons b bs)
  obtain ok rb' where p: "rb_push b rb = (ok, rb')" by fastforce
  note e = rb_push_eq [OF Cons.prems, of b, unfolded p fst_conv snd_conv]
  show ?case
  proof (cases ok)
    case True
    with e have "4095 - length (rb_contents rb) = Suc (4095 - length (rb_contents rb'))" by simp
    with True p e Cons.IH [of rb'] show ?thesis by simp
  qed (use p e in simp)
qed simp

lemma rb_len_contents: "rb_ok rb \<Longrightarrow> rb_len rb = length (rb_contents rb)"
proof -
  assume ok: "rb_ok rb"
  then have h: "rb_head rb < 4096" "rb_tail rb < 4096" by (simp_all add: rb_ok_def)
  show ?thesis
  proof (cases "rb_tail rb \<le> rb_head rb")
    case True
    then show ?thesis using h by (simp add: rb_len_def and_mask_mod length_rb_contents occupied_def wsub_eq)
  next
    case False
    have "wsub (rb_head rb) (rb_tail rb) = (4096 - rb_tail rb + rb_head rb) + 4503599627370495 * 4096"
      using False h by (simp add: wsub_wraps)
    then have "wsub (rb_head rb) (rb_tail rb) mod 4096 = 4096 - rb_tail rb + rb_head rb"
      using False h by (simp only: mod_mult_self1) simp
    with False show ?thesis by (simp add: rb_len_def and_mask_mod length_rb_contents occupied_def)
  qed
qed

section \<open>The line discipline\<close>

text \<open>
  The specification: the line being typed and the bytes ready for reading, as lists. Bytes that do
  not fit into the 4095 places of the queue are lost.
\<close>

definition enqueue :: "u8 list \<Rightarrow> u8 list \<Rightarrow> u8 list" where
  "enqueue bs q = q @ take (4095 - length q) bs"

definition delete_word :: "u8 list \<Rightarrow> u8 list" where
  "delete_word line = rev (dropWhile (\<lambda>b. b \<noteq> 0x20) (dropWhile (\<lambda>b. b = 0x20) (rev line)))"

definition discipline :: "bool \<Rightarrow> u8 \<Rightarrow> u8 list \<times> u8 list \<Rightarrow> u8 list \<times> u8 list" where
  "discipline raw c = (\<lambda>(line, q).
    if raw then (line, enqueue [c] q)
    else if c = 0x03 then ([], enqueue [0x0A] q)
    else if c = 0x08 \<or> c = 0x7F then (butlast line, q)
    else if c = 0x0D \<or> c = 0x0A then ([], enqueue (line @ [0x0A]) q)
    else if 0x20 \<le> c \<and> c \<le> 0x7E then (if length line < 511 then line @ [c] else line, q)
    else if c = 0x15 then ([], q)
    else if c = 0x17 then (delete_word line, q)
    else (line, q))"

definition le_line :: "line_editor \<Rightarrow> u8 list" where "le_line l = take (le_len l) (le_buf l)"

definition le_ok :: "line_editor \<Rightarrow> bool" where "le_ok l \<longleftrightarrow> length (le_buf l) = 512 \<and> le_len l \<le> 511"

definition tty_ok :: "tty \<Rightarrow> bool" where "tty_ok t \<longleftrightarrow> rb_ok (tty_input t) \<and> le_ok (tty_line t)"

definition tty_abs :: "tty \<Rightarrow> u8 list \<times> u8 list" where
  "tty_abs t = (le_line (tty_line t), rb_contents (tty_input t))"

lemma tty_boot_ok: "tty_ok tty_boot" "tty_abs tty_boot = ([], [])"
  by (simp_all add: tty_ok_def tty_boot_def rb_new_ok le_ok_def le_new_def TTY_LINE_SIZE_def tty_abs_def le_line_def)

lemma le_clear_line: "le_ok l \<Longrightarrow> le_ok (le_clear l)" "le_line (le_clear l) = []"
  by (simp_all add: le_ok_def le_clear_def le_line_def)

lemma le_push_line:
  assumes "le_ok l"
  shows "le_ok (snd (le_push c l))" and "le_line (snd (le_push c l)) = (if length (le_line l) < 511 then le_line l @ [c] else le_line l)"
    and "fst (le_push c l) \<longleftrightarrow> length (le_line l) < 511"
  using assms by (auto simp: le_ok_def le_push_def le_line_def TTY_LINE_SIZE_def take_Suc_conv_app_nth)

lemma le_pop_line:
  assumes "le_ok l"
  shows "le_ok (snd (le_pop l))" and "le_line (snd (le_pop l)) = butlast (le_line l)"
  using assms by (auto simp: le_ok_def le_pop_def le_line_def butlast_take)

lemma emit_fields [simp]:
  "tty_input (emit es t) = tty_input t" "tty_line (emit es t) = tty_line t" "tty_raw (emit es t) = tty_raw t"
  "tty_waiting (emit es t) = tty_waiting t" "tty_events (emit es t) = tty_events t @ es"
  by (simp_all add: emit_def)

lemma echo_fields [simp]:
  "tty_input (echo es t) = tty_input t" "tty_line (echo es t) = tty_line t" "tty_raw (echo es t) = tty_raw t"
  "tty_events (echo es t) = tty_events t @ [Echo es]"
  by (simp_all add: echo_def)

lemma wake_fields [simp]:
  "tty_input (wake_input_waiters t) = tty_input t" "tty_line (wake_input_waiters t) = tty_line t"
  "tty_raw (wake_input_waiters t) = tty_raw t"
  by (simp_all add: wake_input_waiters_def)

lemma line_last:
  "le_ok l \<Longrightarrow> le_len l > 0 \<Longrightarrow> le_line l = butlast (le_line l) @ [le_buf l ! (le_len l - 1)]"
  by (auto simp: le_ok_def le_line_def butlast_take simp flip: take_Suc_conv_app_nth)

lemma erase_while_line:
  "le_ok (tty_line t) \<Longrightarrow> le_ok (tty_line (erase_while P t)) \<and>
    le_line (tty_line (erase_while P t)) = rev (dropWhile P (rev (le_line (tty_line t)))) \<and>
    tty_input (erase_while P t) = tty_input t \<and> tty_raw (erase_while P t) = tty_raw t"
proof (induction P t rule: erase_while.induct)
  case (1 P t)
  let ?l = "tty_line t"
  show ?case
  proof (cases "le_len ?l > 0 \<and> P (le_buf ?l ! (le_len ?l - 1))")
    case True
    have "rev (le_line ?l) = le_buf ?l ! (le_len ?l - 1) # rev (butlast (le_line ?l))"
      using line_last [OF 1(2)] True by (metis rev_eq_Cons_iff rev_rev_ident)
    then have drop: "dropWhile P (rev (le_line ?l)) = dropWhile P (rev (butlast (le_line ?l)))"
      using True by (metis dropWhile.simps(2))
    have "erase_while P t = erase_while P (echo ERASE (t\<lparr>tty_line := snd (le_pop ?l)\<rparr>))"
      using True by (subst erase_while.simps) simp
    with 1(1) [OF True] le_pop_line [OF 1(2)] show ?thesis by (simp add: drop)
  next
    case False
    then have "dropWhile P (rev (le_line ?l)) = rev (le_line ?l)"
    proof (cases "le_len ?l = 0")
      case pos: False
      have "rev (le_line ?l) = le_buf ?l ! (le_len ?l - 1) # rev (butlast (le_line ?l))"
        using line_last [OF 1(2)] pos by (metis gr0I rev_eq_Cons_iff rev_rev_ident)
      with False pos show ?thesis by (metis dropWhile.simps(2) gr0I)
    qed (simp add: le_line_def)
    moreover from False have "erase_while P t = t" by (subst erase_while.simps) (metis (full_types))
    ultimately show ?thesis using 1(2) by simp
  qed
qed

lemma enqueue_push: "rb_ok rb \<Longrightarrow> rb_contents (snd (rb_push b rb)) = enqueue [b] (rb_contents rb)"
  using tty_ring.fits [of rb] by (auto simp: rb_push_eq enqueue_def take_Cons' )

lemma enqueue_line:
  assumes "rb_ok rb"
  shows "rb_ok (snd (rb_push b (push_line bs rb)))"
    and "rb_contents (snd (rb_push b (push_line bs rb))) = enqueue (bs @ [b]) (rb_contents rb)"
proof -
  note p = push_line_fold [OF assms, of bs]
  then show "rb_ok (snd (rb_push b (push_line bs rb)))" by (simp add: rb_push_eq)
  show "rb_contents (snd (rb_push b (push_line bs rb))) = enqueue (bs @ [b]) (rb_contents rb)"
    using p tty_ring.fits [OF assms] by (simp add: enqueue_push enqueue_def min_def)
qed

lemma on_char_discipline:
  assumes "tty_ok t"
  shows "tty_ok (on_char c t) \<and> tty_abs (on_char c t) = discipline (tty_raw t) c (tty_abs t) \<and> tty_raw (on_char c t) = tty_raw t"
proof (cases "tty_raw t")
  case True
  obtain ok rb where p: "rb_push c (tty_input t) = (ok, rb)" by fastforce
  have "rb_ok rb" "rb_contents rb = enqueue [c] (rb_contents (tty_input t))"
    using assms enqueue_push [of "tty_input t" c] rb_push_eq(2) [of "tty_input t" c] p by (simp_all add: tty_ok_def)
  with True assms p show ?thesis
    by (simp add: on_char_def on_char_raw_def tty_ok_def tty_abs_def discipline_def Let_def)
next
  case False
  have rb: "rb_ok (tty_input t)" and le: "le_ok (tty_line t)" using assms by (simp_all add: tty_ok_def)
  have canon: "on_char c' t = on_char_canonical c' t" for c' using False by (simp add: on_char_def)
  consider "c = 0x03" | "c \<noteq> 0x03" "c = 0x08 \<or> c = 0x7F" | "c = 0x0D \<or> c = 0x0A" | "0x20 \<le> c" "c \<le> 0x7E"
    | "c = 0x17" | "c \<notin> {0x03, 0x08, 0x7F, 0x0D, 0x0A, 0x17}" "\<not> (0x20 \<le> c \<and> c \<le> 0x7E)"
    by auto
  then show ?thesis
  proof cases
    case 1
    then show ?thesis
      using False rb le by (simp add: canon on_char_canonical_def tty_ok_def tty_abs_def discipline_def enqueue_push rb_push_eq(2)
          le_clear_line)
  next
    case 2
    then show ?thesis
      using False rb le_pop_line [OF le]
      by (auto simp: canon on_char_canonical_def tty_ok_def tty_abs_def discipline_def Let_def split: prod.split)
  next
    case 3
    then show ?thesis
      using False rb le enqueue_line [OF rb]
      by (auto simp: canon on_char_canonical_def tty_ok_def tty_abs_def discipline_def le_clear_line Let_def
          simp flip: le_line_def [of "tty_line t"])
  next
    case 4
    then have "c \<notin> {0x03, 0x08, 0x7F, 0x0D, 0x0A}" by auto
    with 4 show ?thesis
      using False rb le_push_line [OF le, of c]
      by (simp add: canon on_char_canonical_def tty_ok_def tty_abs_def discipline_def Let_def split: prod.split) (auto split: prod.splits)
  next
    case 5
    then show ?thesis
      using False rb erase_while_line [OF le, of "\<lambda>b. b = 0x20"]
        erase_while_line [of "erase_while (\<lambda>b. b = 0x20) t" "\<lambda>b. b \<noteq> 0x20"]
      by (simp add: canon on_char_canonical_def tty_ok_def tty_abs_def discipline_def delete_word_def)
  next
    case 6
    then show ?thesis
      using False rb le by (simp add: canon on_char_canonical_def tty_ok_def tty_abs_def discipline_def le_clear_line) (auto simp: le_line_def le_clear_def)
  qed
qed

text \<open>
  C11: Every character, in both modes, changes the line and the queue of readable bytes as the line
  discipline specifies: control characters, erasing a character, a word or the line, the limit of
  511 characters, and the commit of the line, of which the queue takes what fits. The indices into
  both arrays stay inside them, and a character that is not delivered to the ring leaves the
  mode alone.
\<close>

theorem tty_refines_discipline:
  assumes "tty_ok t"
  shows "tty_ok (on_char c t) \<and> tty_abs (on_char c t) = discipline (tty_raw t) c (tty_abs t) \<and> tty_raw (on_char c t) = tty_raw t"
  using assms by (rule on_char_discipline)

lemma on_chars_discipline:
  "tty_ok t \<Longrightarrow> tty_ok (fold on_char cs t) \<and> tty_raw (fold on_char cs t) = tty_raw t \<and>
    tty_abs (fold on_char cs t) = fold (discipline (tty_raw t)) cs (tty_abs t)"
proof (induction cs arbitrary: t)
  case (Cons c cs)
  then show ?case using on_char_discipline [OF Cons.prems, of c] by simp
qed simp

section \<open>Reading standard input\<close>

lemma read_available_empty: "rb_ok rb \<Longrightarrow> rb_contents rb = [] \<Longrightarrow> read_available n rb = ([], rb)"
  by (cases n) (simp_all add: rb_pop_eq)

lemma tty_read_eq:
  assumes "tty_ok t" and "kbuf \<noteq> 0" and "len \<noteq> 0"
  shows "fst (tty_read kbuf len t) = take len (snd (tty_abs t))"
    and "snd (tty_abs t) = [] \<Longrightarrow> tty_read kbuf len t = ([], t)"
    and "tty_ok (snd (tty_read kbuf len t))"
    and "tty_abs (snd (tty_read kbuf len t)) = (fst (tty_abs t), drop len (snd (tty_abs t)))"
  using assms read_available_eq [of "tty_input t" len] read_available_empty [of "tty_input t" len]
  by (cases "read_available len (tty_input t)"; simp add: tty_read_def tty_ok_def tty_abs_def)+











lemma eof_chars: "set cs \<subseteq> {0x04} \<Longrightarrow> fold (discipline False) cs (line, q) = (line, q)"
  by (induction cs) (auto simp: discipline_def)

lemma stdin_read_eof:
  "stdin_read kbuf len others i t = Some r \<Longrightarrow> tty_ok t \<Longrightarrow> kbuf \<noteq> 0 \<Longrightarrow> len \<noteq> 0 \<Longrightarrow> \<not> tty_raw t \<Longrightarrow>
   tty_abs t = ([], []) \<Longrightarrow> \<forall>i. others i = fold on_char (env i) \<and> set (env i) \<subseteq> {0x04} \<Longrightarrow> False"
proof (induction rule: stdin_read.raw_induct [rotated 1, consumes 1, case_names 1])
  case (1 f kbuf len others i t r)
  let ?t = "fold on_char (env i) t"
  have "tty_ok ?t" "\<not> tty_raw ?t" "tty_abs ?t = ([], [])"
    using on_chars_discipline [OF 1(3), of "env i"] eof_chars [of "env i" "[]" "[]"] 1(6-8) by simp_all
  moreover have "f kbuf len others (i + 1) ?t = Some r"
    using 1(2) tty_read_eq(2) [OF 1(3-5)] 1(7,8) by simp
  ultimately show False using 1(1) 1(4,5,8) by blast
qed

text \<open>
  The end-of-file character does not end a read. On an empty line in canonical mode, a read of
  standard input to which only end-of-file characters arrive never returns, although the handler
  says that it returns 0.
\<close>

theorem eof_never_ends_read:
  assumes "tty_ok t" and "kbuf \<noteq> 0" and "len \<noteq> 0" and "\<not> tty_raw t" and "tty_abs t = ([], [])" and "\<forall>i. set (env i) \<subseteq> {0x04}"
  shows "stdin_read kbuf len (\<lambda>i. fold on_char (env i)) 0 t = None"
  using stdin_read_eof [of kbuf len "\<lambda>i. fold on_char (env i)" 0 t _ env, OF _ assms(1-5)] assms(6)
  by (cases "stdin_read kbuf len (\<lambda>i. fold on_char (env i)) 0 t") auto

section \<open>Witnesses\<close>

theorem tty_refines_discipline_witness: "tty_abs (on_char 0x61 tty_boot) = ([0x61], []) \<and> tty_ok (on_char 0x61 tty_boot)"
proof -
  have "\<not> tty_raw tty_boot" by (simp add: tty_boot_def)
  then show ?thesis
    using tty_refines_discipline [OF tty_boot_ok(1), of "0x61"] tty_boot_ok(2) by (simp add: discipline_def)
qed


theorem eof_never_ends_read_witness: "stdin_read 1 80 (\<lambda>i. fold on_char [0x04]) 0 tty_boot = None"
  using eof_never_ends_read [of tty_boot 1 80 "\<lambda>i. [0x04]"] tty_boot_ok by (simp add: tty_boot_def)

end
