(* ===== verification/Keyboard.thy ===== *)
theory Keyboard
  imports Tty
begin

text \<open>
  The PS/2 keyboard, \<open>kernel/src/driver/keyboard.rs\<close>: the translation of scancodes to characters with
  the state of the modifier keys, which feeds the terminal. Composed with the terminal this shows
  that a line typed on the keyboard is the line that a program reads.
\<close>

section \<open>Model\<close>

definition MOD_SHIFT :: u8 where "MOD_SHIFT = 0x01"
definition MOD_CTRL :: u8 where "MOD_CTRL = 0x02"
definition MOD_ALT :: u8 where "MOD_ALT = 0x04"
definition MOD_CAPS :: u8 where "MOD_CAPS = 0x08"
definition EXTENDED_PREFIX :: u8 where "EXTENDED_PREFIX = 0xE0"

definition SCANCODE_MAP :: "u8 list" where
  "SCANCODE_MAP =
    [0, 0x1B, 0x31, 0x32, 0x33, 0x34, 0x35, 0x36, 0x37, 0x38, 0x39, 0x30, 0x2D, 0x3D, 8,
     9, 0x71, 0x77, 0x65, 0x72, 0x74, 0x79, 0x75, 0x69, 0x6F, 0x70, 0x5B, 0x5D, 0x0D,
     0, 0x61, 0x73, 0x64, 0x66, 0x67, 0x68, 0x6A, 0x6B, 0x6C, 0x3B, 0x27, 0x60, 0,
     0x5C, 0x7A, 0x78, 0x63, 0x76, 0x62, 0x6E, 0x6D, 0x2C, 0x2E, 0x2F, 0,
     0x2A, 0, 0x20]"

definition SCANCODE_MAP_SHIFT :: "u8 list" where
  "SCANCODE_MAP_SHIFT =
    [0, 0x1B, 0x21, 0x40, 0x23, 0x24, 0x25, 0x5E, 0x26, 0x2A, 0x28, 0x29, 0x5F, 0x2B, 8,
     9, 0x51, 0x57, 0x45, 0x52, 0x54, 0x59, 0x55, 0x49, 0x4F, 0x50, 0x7B, 0x7D, 0x0D,
     0, 0x41, 0x53, 0x44, 0x46, 0x47, 0x48, 0x4A, 0x4B, 0x4C, 0x3A, 0x22, 0x7E, 0,
     0x7C, 0x5A, 0x58, 0x43, 0x56, 0x42, 0x4E, 0x4D, 0x3C, 0x3E, 0x3F, 0,
     0x2A, 0, 0x20]"

record keyboard =
  kb_modifiers :: u8
  kb_extended :: bool

definition kb_init :: keyboard where "kb_init = \<lparr>kb_modifiers = 0, kb_extended = False\<rparr>"

definition handle_extended_scancode :: "u8 \<Rightarrow> u8 option" where
  "handle_extended_scancode sc = (if sc = 0x1C then Some 0x0A else if sc = 0x35 then Some 0x2F else None)"

definition is_upper :: "u8 \<Rightarrow> bool" where "is_upper c \<longleftrightarrow> 0x41 \<le> c \<and> c \<le> 0x5A"
definition is_lower :: "u8 \<Rightarrow> bool" where "is_lower c \<longleftrightarrow> 0x61 \<le> c \<and> c \<le> 0x7A"
definition to_ascii_lowercase :: "u8 \<Rightarrow> u8" where "to_ascii_lowercase c = (if is_upper c then c + 0x20 else c)"
definition to_ascii_uppercase :: "u8 \<Rightarrow> u8" where "to_ascii_uppercase c = (if is_lower c then c - 0x20 else c)"

definition handle_make :: "u8 \<Rightarrow> keyboard \<Rightarrow> u8 option \<times> keyboard" where
  "handle_make sc kb =
    (let mods = kb_modifiers kb in
     if sc = 0x2A \<or> sc = 0x36 then (None, kb\<lparr>kb_modifiers := mods OR MOD_SHIFT\<rparr>)
     else if sc = 0x1D then (None, kb\<lparr>kb_modifiers := mods OR MOD_CTRL\<rparr>)
     else if sc = 0x38 then (None, kb\<lparr>kb_modifiers := mods OR MOD_ALT\<rparr>)
     else if sc = 0x3A then (None, kb\<lparr>kb_modifiers := mods XOR MOD_CAPS\<rparr>)
     else if unat sc < length SCANCODE_MAP then
       (let shifted = mods AND MOD_SHIFT \<noteq> 0; caps = mods AND MOD_CAPS \<noteq> 0;
            c = (if shifted then SCANCODE_MAP_SHIFT else SCANCODE_MAP) ! unat sc
        in if c = 0 then (None, kb)
           else if caps \<and> (is_upper c \<or> is_lower c)
             then (Some (if shifted then to_ascii_lowercase c else to_ascii_uppercase c), kb)
           else (Some c, kb))
     else (None, kb))"

definition handle_break :: "u8 \<Rightarrow> keyboard \<Rightarrow> keyboard" where
  "handle_break sc kb =
    (let mods = kb_modifiers kb in
     if sc = 0x2A \<or> sc = 0x36 then kb\<lparr>kb_modifiers := mods AND NOT MOD_SHIFT\<rparr>
     else if sc = 0x1D then kb\<lparr>kb_modifiers := mods AND NOT MOD_CTRL\<rparr>
     else if sc = 0x38 then kb\<lparr>kb_modifiers := mods AND NOT MOD_ALT\<rparr>
     else kb)"

definition handle_scancode :: "u8 \<Rightarrow> keyboard \<times> tty \<Rightarrow> keyboard \<times> tty" where
  "handle_scancode sc = (\<lambda>(kb, t).
    if sc = EXTENDED_PREFIX then (kb\<lparr>kb_extended := True\<rparr>, t)
    else if kb_extended kb then
      (let kb1 = kb\<lparr>kb_extended := False\<rparr> in
       if sc \<ge> 0x80 then (kb1, t)
       else (case handle_extended_scancode sc of Some c \<Rightarrow> (kb1, on_char c t) | None \<Rightarrow> (kb1, t)))
    else if sc \<ge> 0x80 then (handle_break (sc AND 0x7F) kb, t)
    else (case handle_make sc kb of (Some c, kb1) \<Rightarrow> (kb1, on_char c t) | (None, kb1) \<Rightarrow> (kb1, t)))"

section \<open>Typing a line\<close>

text \<open>
  The US layout of a PC keyboard in scancode set 1, independent of the driver: the rows of keys, each
  with the scancode of its first key, the characters without and those with the shift key. The
  characters written as numbers are the apostrophe, the quotation mark, the grave accent and the
  backslash.
\<close>

definition us_rows :: "(u8 \<times> string \<times> string) list" where
  "us_rows =
    [(0x02, ''1234567890-='', ''!@#$%^&*()_+''),
     (0x10, ''qwertyuiop[]'', ''QWERTYUIOP{}''),
     (0x1E, ''asdfghjkl;'' @ [CHR 0x27], ''ASDFGHJKL:'' @ [CHR 0x22]),
     (0x29, [CHR 0x60], ''~''),
     (0x2B, [CHR 0x5C], ''|''),
     (0x2C, ''zxcvbnm,./'', ''ZXCVBNM<>?''),
     (0x39, '' '', '' '')]"

definition row_key :: "u8 \<Rightarrow> u8 \<Rightarrow> string \<Rightarrow> u8 option" where
  "row_key c base row = map_option (\<lambda>i. base + of_nat i) (find (\<lambda>i. of_char (row ! i) = c) [0..<length row])"

text \<open>
  The keystrokes for a character, on a keyboard with no modifier held: its key, or its key between
  pressing and releasing the left shift key.
\<close>

fun keys_in :: "u8 \<Rightarrow> (u8 \<times> string \<times> string) list \<Rightarrow> u8 list" where
  "keys_in c [] = []"
| "keys_in c ((base, plain, shifted) # rows) =
    (case row_key c base plain of
       Some k \<Rightarrow> [k]
     | None \<Rightarrow> (case row_key c base shifted of Some k \<Rightarrow> [0x2A, k, 0xAA] | None \<Rightarrow> keys_in c rows))"

definition keys :: "u8 \<Rightarrow> u8 list" where "keys c = keys_in c us_rows"

definition printable :: "u8 list" where "printable = map of_nat [32..<127]"

text \<open>The character that a scancode produces, and those of a sequence of them.\<close>

definition scan :: "u8 \<Rightarrow> keyboard \<Rightarrow> u8 option \<times> keyboard" where
  "scan sc kb =
    (if sc = EXTENDED_PREFIX then (None, kb\<lparr>kb_extended := True\<rparr>)
     else if kb_extended kb then
       (if sc \<ge> 0x80 then None else handle_extended_scancode sc, kb\<lparr>kb_extended := False\<rparr>)
     else if sc \<ge> 0x80 then (None, handle_break (sc AND 0x7F) kb)
     else handle_make sc kb)"

fun decode :: "u8 list \<Rightarrow> keyboard \<Rightarrow> u8 list \<times> keyboard" where
  "decode [] kb = ([], kb)"
| "decode (sc # scs) kb =
    (let (cs, kb2) = decode scs (snd (scan sc kb))
     in (case fst (scan sc kb) of Some c \<Rightarrow> c # cs | None \<Rightarrow> cs, kb2))"

lemma handle_scancode_scan:
  "handle_scancode sc (kb, t) = (snd (scan sc kb), case fst (scan sc kb) of Some c \<Rightarrow> on_char c t | None \<Rightarrow> t)"
  by (simp add: handle_scancode_def scan_def Let_def split: prod.split option.split)

lemma handle_scancodes:
  "fold handle_scancode scs (kb, t) = (snd (decode scs kb), fold on_char (fst (decode scs kb)) t)"
proof (induction scs arbitrary: kb t)
  case (Cons sc scs)
  then show ?case
    by (cases "decode scs (snd (scan sc kb))"; cases "fst (scan sc kb)")
      (simp_all add: handle_scancode_scan)
qed simp

lemma decode_append:
  "decode (xs @ ys) kb = (let (cs, kb1) = decode xs kb; (ds, kb2) = decode ys kb1 in (cs @ ds, kb2))"
proof (induction xs arbitrary: kb)
  case Nil
  then show ?case by simp
next
  case (Cons sc xs)
  then show ?case
    by (cases "decode xs (snd (scan sc kb))"; cases "decode ys (snd (decode xs (snd (scan sc kb))))";
        cases "fst (scan sc kb)") simp_all
qed

lemma decode_keys_all: "list_all (\<lambda>c. decode (keys c) kb_init = ([c], kb_init)) printable"
  by code_simp

lemma set_printable: "c \<in> set printable \<longleftrightarrow> 0x20 \<le> c \<and> c \<le> (0x7E :: u8)"
proof
  assume "c \<in> set printable"
  then obtain n where "c = of_nat n" "32 \<le> n" "n < 127" unfolding printable_def set_map set_upt by auto
  then show "0x20 \<le> c \<and> c \<le> 0x7E" by (simp add: word_le_nat_alt unat_of_nat)
next
  assume "0x20 \<le> c \<and> c \<le> 0x7E"
  then have "unat c \<in> set [32..<127]" unfolding set_upt atLeastLessThan_iff by (simp add: word_le_nat_alt)
  then have "of_nat (unat c) \<in> set printable" unfolding printable_def by (metis image_eqI set_map)
  then show "c \<in> set printable" by simp
qed

lemma decode_keys: "0x20 \<le> c \<Longrightarrow> c \<le> 0x7E \<Longrightarrow> decode (keys c) kb_init = ([c], kb_init)"
  using decode_keys_all by (simp add: list_all_iff set_printable)

lemma decode_line:
  "\<forall>c \<in> set line. 0x20 \<le> c \<and> c \<le> 0x7E \<Longrightarrow> decode (concat (map keys line)) kb_init = (line, kb_init)"
  by (induction line) (simp_all add: decode_append decode_keys)

lemma type_line:
  "\<forall>c \<in> set line. 0x20 \<le> c \<and> c \<le> 0x7E \<Longrightarrow> length xs + length line \<le> 511 \<Longrightarrow>
   fold (discipline False) line (xs, q) = (xs @ line, q)"
proof (induction line arbitrary: xs)
  case (Cons c line)
  then have c: "0x20 \<le> c" "c \<le> 0x7E" by simp_all
  then have "c \<noteq> 0x03" "c \<noteq> 0x08" "c \<noteq> 0x7F" "c \<noteq> 0x0D" "c \<noteq> 0x0A" by auto
  then have "discipline False c (xs, q) = (xs @ [c], q)" using c Cons.prems(2) by (simp add: discipline_def)
  then show ?case using Cons.IH [of "xs @ [c]"] Cons.prems by simp
qed simp

text \<open>
  C12: A line typed on the keyboard is read back exactly. On a terminal in canonical mode with nothing
  pending, pressing the keys that the US layout has for any up to 511 printable characters, with the
  shift key around those that need it, and the Enter key, makes a read with a large enough buffer return exactly these
  characters and a newline, leaves nothing pending, and returns the keyboard to its initial state.
\<close>

theorem typed_line_is_read:
  assumes "tty_ok t" and "\<not> tty_raw t" and "tty_abs t = ([], [])"
    and "\<forall>c \<in> set line. 0x20 \<le> c \<and> c \<le> 0x7E" and "length line \<le> 511" and "length line < len" and "buf \<noteq> 0"
  shows "\<exists>t' t''. fold handle_scancode (concat (map keys line) @ [0x1C]) (kb_init, t) = (kb_init, t') \<and>
    tty_read buf len t' = (line @ [0x0A], t'') \<and> tty_abs t'' = ([], [])"
proof -
  have enter: "decode [0x1C] kb_init = ([0x0D], kb_init)" by code_simp
  let ?t = "fold on_char (line @ [0x0D]) t"
  have typed: "fold handle_scancode (concat (map keys line) @ [0x1C]) (kb_init, t) = (kb_init, ?t)"
    unfolding handle_scancodes decode_append decode_line [OF assms(4)] Let_def prod.case enter by simp
  note d = on_chars_discipline [OF assms(1), of "line @ [0x0D]"]
  have "fold (discipline False) (line @ [0x0D]) ([], []) = ([], line @ [0x0A])"
    using type_line [OF assms(4), of "[]" "[]"] assms(5) by (simp add: discipline_def enqueue_def)
  then have abs: "tty_abs ?t = ([], line @ [0x0A])" using d assms(2,3) by simp
  have len: "len \<noteq> 0" using assms(6) by simp
  note r = tty_read_eq [OF conjunct1 [OF d] assms(7) len]
  have "fst (tty_read buf len ?t) = line @ [0x0A]" "tty_abs (snd (tty_read buf len ?t)) = ([], [])"
    using r(1,4) abs assms(6) by simp_all
  then show ?thesis using typed by (intro exI [of _ ?t] exI [of _ "snd (tty_read buf len ?t)"]) (simp add: prod_eq_iff)
qed

lemma make_not_control_all:
  "list_all (\<lambda>c. c \<notin> {0x03, 0x04, 0x0C, 0x15, 0x17} \<and> to_ascii_lowercase c \<notin> {0x03, 0x04, 0x0C, 0x15, 0x17} \<and>
     to_ascii_uppercase c \<notin> {0x03, 0x04, 0x0C, 0x15, 0x17}) (SCANCODE_MAP @ SCANCODE_MAP_SHIFT)"
  by code_simp

lemma handle_make_char:
  assumes "handle_make sc kb = (Some c, kb')"
  defines "d \<equiv> (if kb_modifiers kb AND MOD_SHIFT \<noteq> 0 then SCANCODE_MAP_SHIFT else SCANCODE_MAP) ! unat sc"
  shows "unat sc < length SCANCODE_MAP \<and> (c = d \<or> c = to_ascii_lowercase d \<or> c = to_ascii_uppercase d)"
  using assms(1) unfolding handle_make_def Let_def d_def [symmetric]
  by (simp only: prod.inject option.distinct option.inject split: if_splits) blast+

lemma make_not_control:
  assumes "handle_make sc kb = (Some c, kb')"
  shows "c \<notin> {0x03, 0x04, 0x0C, 0x15, 0x17}"
proof -
  let ?m = "if kb_modifiers kb AND MOD_SHIFT \<noteq> 0 then SCANCODE_MAP_SHIFT else SCANCODE_MAP"
  note c = handle_make_char [OF assms]
  have "length ?m = length SCANCODE_MAP" by (simp add: SCANCODE_MAP_def SCANCODE_MAP_SHIFT_def)
  then have "?m ! unat sc \<in> set ?m" using c by (intro nth_mem) metis
  moreover have "set ?m \<subseteq> set (SCANCODE_MAP @ SCANCODE_MAP_SHIFT)" by (cases "kb_modifiers kb AND MOD_SHIFT \<noteq> 0") auto
  ultimately have "?m ! unat sc \<in> set (SCANCODE_MAP @ SCANCODE_MAP_SHIFT)" by blast
  then show ?thesis using make_not_control_all c unfolding list_all_iff by metis
qed

lemma extended_not_control:
  "handle_extended_scancode sc = Some c \<Longrightarrow> c \<notin> {0x03, 0x04, 0x0C, 0x15, 0x17}"
  by (cases "sc = 0x1C"; cases "sc = 0x35") (auto simp: handle_extended_scancode_def)

lemma scan_not_control:
  assumes "fst (scan sc kb) = Some c"
  shows "c \<notin> {0x03, 0x04, 0x0C, 0x15, 0x17}"
proof -
  have "handle_extended_scancode sc = Some c \<or> fst (handle_make sc kb) = Some c"
    using assms unfolding scan_def by (simp only: fst_conv option.distinct split: if_splits) simp_all
  then show ?thesis using extended_not_control make_not_control by (metis prod.collapse)
qed

lemma decode_not_control: "set (fst (decode scs kb)) \<inter> {0x03, 0x04, 0x0C, 0x15, 0x17} = {}"
proof (induction scs arbitrary: kb)
  case (Cons sc scs)
  then show ?case
    using Cons.IH [of "snd (scan sc kb)"] scan_not_control [of sc kb]
    by (cases "decode scs (snd (scan sc kb))"; cases "fst (scan sc kb)") simp_all
qed simp

text \<open>
  The keyboard cannot produce a control character of the line discipline: whatever keys are pressed
  with whatever modifiers held, the characters that reach the terminal contain no interrupt,
  end-of-file, clear-screen, kill-line or delete-word character. The state of the control key is
  tracked and never used.
\<close>

theorem keyboard_has_no_control_keys:
  "\<exists>cs. snd (fold handle_scancode scs (kb, t)) = fold on_char cs t \<and> set cs \<inter> {0x03, 0x04, 0x0C, 0x15, 0x17} = {}"
  using decode_not_control [of scs kb] by (intro exI [of _ "fst (decode scs kb)"]) (simp add: handle_scancodes)

section \<open>Witnesses\<close>

theorem typed_line_is_read_witness:
  "\<exists>t' t''. fold handle_scancode (concat (map keys [0x48, 0x69]) @ [0x1C]) (kb_init, tty_boot) = (kb_init, t') \<and>
    tty_read 1 16 t' = ([0x48, 0x69, 0x0A], t'') \<and> tty_abs t'' = ([], [])"
  using typed_line_is_read [OF tty_boot_ok(1) _ tty_boot_ok(2), of "[0x48, 0x69]" 16 1] by (simp add: tty_boot_def)

end
