(* ===== verification/Checksum.thy ===== *)
theory Checksum
  imports Karte_Prelude
begin

unbundle bit_operations_syntax

text \<open>
  The contract of a checksum that absorbs one byte after the other: each byte acts injectively on the
  state, and different bytes act differently. Then changing a byte of a message changes the
  checksum. The device images and the device manifests use two such checksums.
\<close>

lemma xor_right_cancel: "(a XOR c = b XOR c) = (a = (b :: 'a::len word))"
proof
  assume "a XOR c = b XOR c"
  then have "(a XOR c) XOR c = (b XOR c) XOR c" by simp
  then show "a = b" by (simp add: xor.assoc)
qed simp

lemma xor_left_cancel: "(c XOR a = c XOR b) = (a = (b :: 'a::len word))"
  using xor_right_cancel [of a c b] by (simp add: xor.commute)

lemma ucast_up_inj:
  assumes "(ucast (a :: u8) :: 'b::len word) = ucast b" and "8 \<le> LENGTH('b)"
  shows "a = b"
proof (rule bit_word_eqI)
  fix n assume "n < LENGTH(8)"
  then have "n < LENGTH('b)" using assms(2) by simp
  with assms(1) show "bit a n = bit b n" by (metis bit_ucast_iff possible_bit_word)
qed

locale byte_checksum =
  fixes absorb :: "u8 \<Rightarrow> 's \<Rightarrow> 's"
  assumes absorb_inj: "absorb b s = absorb b s' \<Longrightarrow> s = s'"
    and absorb_byte: "absorb b s = absorb b' s \<Longrightarrow> b = b'"
begin

lemma fold_inj: "fold absorb bs s = fold absorb bs s' \<Longrightarrow> s = s'"
  by (induction bs arbitrary: s s') (auto dest: absorb_inj)

lemma byte_change_detected:
  assumes "fold absorb (xs @ b # ys) s = fold absorb (xs @ b' # ys) s"
  shows "b = b'"
  using assms fold_inj [of ys] absorb_byte by (metis fold_append fold_simps(2) comp_apply)

lemma update_detected:
  assumes "i < length bs" and "fold absorb (bs[i := b]) s = fold absorb bs s"
  shows "b = bs ! i"
proof -
  have "bs[i := b] = take i bs @ b # drop (Suc i) bs" "bs = take i bs @ bs ! i # drop (Suc i) bs"
    using assms(1) by (simp_all add: upd_conv_take_nth_drop id_take_nth_drop)
  with assms(2) show ?thesis by (metis byte_change_detected)
qed

end

end
