(* ===== verification/Ota.thy ===== *)
theory Ota
  imports Checksum
begin

unbundle bit_operations_syntax

text \<open>
  Firmware images in two slots, \<open>kernel/src/ota.rs\<close>: the checksum, the header of an image, and the
  choice of the slot to boot. An image that was built parses back, a changed byte is detected, and
  the choice follows the documented rules.
\<close>

section \<open>Model\<close>

definition KOTA_MAGIC :: u32 where "KOTA_MAGIC = 0x41544F4B"
definition KOTA_HEADER_LEN :: usize where "KOTA_HEADER_LEN = 32"
definition KOTA_FLAG_TRIAL :: u32 where "KOTA_FLAG_TRIAL = 1"

datatype kota_err = BadMagic | BadCrc

definition crc_bit :: "u32 \<Rightarrow> u32" where
  "crc_bit crc = (let mask = - (crc AND 1) in drop_bit 1 crc XOR (0xEDB88320 AND mask))"

definition crc_byte :: "u8 \<Rightarrow> u32 \<Rightarrow> u32" where
  "crc_byte b crc = (crc_bit ^^ 8) (crc XOR ucast b)"

definition crc32 :: "u8 list \<Rightarrow> u32" where
  "crc32 data = NOT (fold crc_byte data 0xFFFFFFFF)"

definition rd32 :: "u8 list \<Rightarrow> usize \<Rightarrow> u32" where
  "rd32 slot_img off = le_word [slot_img ! off, slot_img ! (off + 1), slot_img ! (off + 2), slot_img ! (off + 3)]"

text \<open>\<open>xs[off..off + bs.len()].copy_from_slice(bs)\<close>\<close>

definition copy_at :: "usize \<Rightarrow> u8 list \<Rightarrow> u8 list \<Rightarrow> u8 list panicking" where
  "copy_at off bs xs =
    (if off + length bs \<le> length xs then Some (take off xs @ bs @ drop (off + length bs) xs) else None)"

definition parse_slot :: "u8 list \<Rightarrow> (kota_err + u32 \<times> u32 \<times> u32) panicking" where
  "parse_slot slot_img =
    (if length slot_img < KOTA_HEADER_LEN then Some (Inl BadMagic)
     else if rd32 slot_img 0 \<noteq> KOTA_MAGIC then Some (Inl BadMagic)
     else
       let version = rd32 slot_img 4; image_len = rd32 slot_img 8; crc = rd32 slot_img 12; flags = rd32 slot_img 28;
           len = min (unat image_len) (length slot_img)
       in do {
         probe \<leftarrow> copy_at 12 [0, 0, 0, 0] (take len slot_img);
         Some (if crc32 probe \<noteq> crc then Inl BadCrc else Inr (version, crc, flags)) })"

definition select_slot :: "u8 list \<Rightarrow> u8 list \<Rightarrow> usize panicking" where
  "select_slot a b = do {
     ra \<leftarrow> parse_slot a;
     rb \<leftarrow> parse_slot b;
     Some (case (ra, rb) of
       (Inr (va, _, fa), Inr (vb, _, fb)) \<Rightarrow>
         if va \<noteq> vb then (if vb > va then 1 else 0)
         else (if fa AND KOTA_FLAG_TRIAL \<noteq> 0 \<and> fb AND KOTA_FLAG_TRIAL = 0 then 1 else 0)
     | (Inr _, Inl _) \<Rightarrow> 0
     | (Inl _, Inr _) \<Rightarrow> 1
     | (Inl _, Inl _) \<Rightarrow> 0) }"

definition make_slot :: "u32 \<Rightarrow> u8 list \<Rightarrow> bool \<Rightarrow> u8 list panicking" where
  "make_slot version payload trial = do {
     let img = replicate (KOTA_HEADER_LEN + length payload) 0;
     img \<leftarrow> copy_at 0 (le_bytes 4 KOTA_MAGIC) img;
     img \<leftarrow> copy_at 4 (le_bytes 4 version) img;
     let len4 = (of_nat (length img) :: u32);
     img \<leftarrow> copy_at 8 (le_bytes 4 len4) img;
     img \<leftarrow> copy_at 28 (le_bytes 4 (if trial then KOTA_FLAG_TRIAL else 0)) img;
     img \<leftarrow> copy_at KOTA_HEADER_LEN payload img;
     copy_at 12 (le_bytes 4 (crc32 img)) img }"

section \<open>The checksum\<close>

text \<open>The bit step without its mask: the textbook step of the reflected polynomial.\<close>

lemma crc_bit_branch: "crc_bit c = (if odd c then drop_bit 1 c XOR 0xEDB88320 else drop_bit 1 c)"
proof -
  have "c AND 1 = of_bool (odd c)" by (simp add: and_one_eq mod_2_eq_odd)
  then show ?thesis by (simp add: crc_bit_def)
qed

lemma crc_bit_top: "bit (crc_bit c) 31 = odd c"
proof -
  have "\<not> bit (drop_bit 1 c) 31" by (auto simp: bit_drop_bit_eq dest: bit_imp_le_length)
  moreover have "bit (0xEDB88320 :: u32) 31" by simp
  ultimately show ?thesis by (simp add: crc_bit_branch bit_xor_iff)
qed

lemma crc_bit_inj: "crc_bit c = crc_bit d \<Longrightarrow> c = d"
proof -
  assume eq: "crc_bit c = crc_bit d"
  then have par: "odd c = odd d" using crc_bit_top [of c] crc_bit_top [of d] by simp
  then have "drop_bit 1 c = drop_bit 1 d"
    using eq by (cases "odd c") (simp_all add: crc_bit_branch xor_right_cancel)
  then have "bit (drop_bit 1 c) i = bit (drop_bit 1 d) i" for i by simp
  then have rest: "bit c (Suc i) = bit d (Suc i)" for i by (simp add: bit_drop_bit_eq)
  show "c = d"
  proof (rule bit_eqI)
    show "bit c n = bit d n" for n using rest par by (cases n) (simp_all add: bit_0)
  qed
qed

lemma crc_bits_inj: "(crc_bit ^^ n) c = (crc_bit ^^ n) d \<Longrightarrow> c = d"
  by (induction n) (auto dest: crc_bit_inj)

interpretation crc: byte_checksum crc_byte
proof
  show "s = s'" if "crc_byte b s = crc_byte b s'" for b s s'
    using crc_bits_inj [OF that [unfolded crc_byte_def]] by (simp add: xor_right_cancel)
  show "b = b'" if "crc_byte b s = crc_byte b' s" for b b' s
    using crc_bits_inj [OF that [unfolded crc_byte_def]] by (intro ucast_up_inj [where 'b = 32]) (simp_all add: xor_left_cancel)
qed

text \<open>
  CRC-32 as the standard describes it, with no code shared with the routine: the bits of the message,
  each byte from its lowest bit on, run through a 32-bit register that shifts towards its highest
  bit and divides by the generator \<open>x\<^sup>3\<^sup>2 + x\<^sup>2\<^sup>6 + x\<^sup>2\<^sup>3 + x\<^sup>2\<^sup>2 + x\<^sup>1\<^sup>6 + x\<^sup>1\<^sup>2 + x\<^sup>1\<^sup>1 + x\<^sup>1\<^sup>0 + x\<^sup>8 + x\<^sup>7 + x\<^sup>5 + x\<^sup>4 + x\<^sup>2 + x + 1\<close>;
  the register starts with all ones, and the result is its reflection, complemented.
\<close>

definition reflect :: "u32 \<Rightarrow> u32" where
  "reflect w = horner_sum of_bool 2 (map (\<lambda>n. bit w (31 - n)) [0..<32])"

definition generator :: u32 where
  "generator = sum_list (map ((^) 2) [26, 23, 22, 16, 12, 11, 10, 8, 7, 5, 4, 2, 1, 0])"

definition divide_step :: "bool \<Rightarrow> u32 \<Rightarrow> u32" where
  "divide_step i r = (if bit r 31 \<noteq> i then push_bit 1 r XOR generator else push_bit 1 r)"

definition crc32_spec :: "u8 list \<Rightarrow> u32" where
  "crc32_spec data = NOT (reflect (fold divide_step (concat (map (\<lambda>b. map (bit b) [0..<8]) data)) (- 1)))"

lemma crc_bit_linear: "crc_bit (a XOR b) = crc_bit a XOR crc_bit b"
proof -
  have "odd (a XOR b) \<longleftrightarrow> odd a \<noteq> odd b" by (simp add: even_xor_iff)
  moreover have "drop_bit 1 (a XOR b) = drop_bit 1 a XOR drop_bit 1 b" by (simp add: drop_bit_xor)
  ultimately show ?thesis
    by (cases "odd a"; cases "odd b") (simp_all only: crc_bit_branch if_True if_False not_True_eq_False not_False_eq_True
        xor.assoc xor.left_commute xor_self_eq xor.right_neutral xor.left_neutral ac_simps simp_thms)
qed

lemma crc_bits_linear: "(crc_bit ^^ n) (a XOR b) = (crc_bit ^^ n) a XOR (crc_bit ^^ n) b"
  by (induction n) (simp_all add: crc_bit_linear)

lemma bit_reflect: "bit (reflect w) n \<longleftrightarrow> n < 32 \<and> bit w (31 - n)"
  by (cases "n < 32") (simp_all add: reflect_def bit_horner_sum_bit_word_iff del: upt_rec_numeral)

lemma reflect_reflect: "reflect (reflect w) = w"
  by (rule bit_word_eqI) (auto simp: bit_reflect)

lemma bit_double: "bit (push_bit 1 w) n \<longleftrightarrow> n \<noteq> 0 \<and> n < 32 \<and> bit (w :: u32) (n - 1)"
  unfolding bit_push_bit_iff by auto

lemma reflect_generator: "reflect 0xEDB88320 = generator"
  by code_simp

lemma reflect_xor: "reflect (a XOR b) = reflect a XOR reflect b"
  by (rule bit_word_eqI) (auto simp: bit_reflect bit_xor_iff)

lemma reflect_shift: "reflect (drop_bit 1 w) = push_bit 1 (reflect w)"
proof (rule bit_word_eqI)
  fix n assume n: "n < LENGTH(32)"
  show "bit (reflect (drop_bit 1 w)) n = bit (push_bit 1 (reflect w)) n"
  proof (cases n)
    case 0
    then show ?thesis unfolding bit_double by (auto simp: bit_reflect bit_drop_bit_eq dest: bit_imp_le_length)
  next
    case (Suc m)
    then have "Suc (31 - n) = 31 - m" using n by simp
    then show ?thesis using n Suc unfolding bit_double by (simp add: bit_reflect bit_drop_bit_eq)
  qed
qed

text \<open>Feeding the bits one by one is the same as adding the byte first and then shifting.\<close>

definition feed :: "bool \<Rightarrow> u32 \<Rightarrow> u32" where "feed i c = crc_bit (c XOR of_bool i)"

lemma reflect_feed: "reflect (feed i c) = divide_step i (reflect c)"
proof -
  have "odd (c XOR of_bool i) \<longleftrightarrow> bit (reflect c) 31 \<noteq> i"
    by (cases i) (simp_all add: bit_reflect even_xor_iff bit_0)
  moreover have "drop_bit 1 (c XOR of_bool i) = drop_bit 1 c"
    by (rule bit_word_eqI) (auto simp: bit_drop_bit_eq bit_xor_iff bit_of_bool_iff)
  ultimately show ?thesis
    unfolding feed_def crc_bit_branch divide_step_def
    by (simp only: reflect_xor reflect_shift reflect_generator if_distrib [of reflect])
qed

lemma crc_bits_feed:
  "take_bit n x = x \<Longrightarrow> (crc_bit ^^ n) (c XOR x) = fold feed (map (bit x) [0..<n]) c"
proof (induction n arbitrary: c x)
  case (Suc n)
  let ?y = "drop_bit 1 x"
  have x: "x = of_bool (bit x 0) XOR push_bit 1 ?y"
  proof (rule bit_word_eqI)
    fix n assume "n < LENGTH(32)"
    then show "bit x n = bit (of_bool (bit x 0) XOR push_bit 1 ?y) n"
      unfolding bit_xor_iff bit_double by (cases n) (simp_all add: bit_of_bool_iff bit_drop_bit_eq)
  qed
  have "drop_bit 1 (push_bit 1 ?y) = ?y"
    by (rule bit_word_eqI) (unfold bit_drop_bit_eq bit_double, auto simp: bit_drop_bit_eq dest: bit_imp_le_length)
  then have "crc_bit (push_bit 1 ?y) = ?y" by (simp add: crc_bit_branch)
  then have "crc_bit (c XOR x) = feed (bit x 0) c XOR ?y"
    by (subst x) (simp add: feed_def crc_bit_linear xor.assoc [symmetric] del: push_bit_of_1)
  moreover have "take_bit n ?y = ?y"
    using Suc.prems by (simp add: take_bit_drop_bit)
  moreover have "map (bit ?y) [0..<n] = map (bit x) [1..<Suc n]"
    by (rule nth_equalityI) (simp_all add: bit_drop_bit_eq del: upt_Suc)
  ultimately show ?case
    using Suc.IH [of ?y "feed (bit x 0) c"] by (simp add: funpow_Suc_right upt_conv_Cons del: funpow.simps upt_Suc)
qed simp

lemma crc_byte_feed: "crc_byte b c = fold feed (map (bit b) [0..<8]) c"
proof -
  have "take_bit 8 (ucast b) = (ucast b :: u32)"
    by (rule bit_word_eqI) (auto simp: bit_take_bit_iff bit_ucast_iff dest: bit_imp_le_length)
  moreover have "map (bit (ucast b :: u32)) [0..<8] = map (bit b) [0..<8]"
    by (rule nth_equalityI) (simp_all add: bit_ucast_iff)
  ultimately show ?thesis using crc_bits_feed [of 8 "ucast b" c] by (simp only: crc_byte_def)
qed

lemma reflect_fold: "reflect (fold feed bs c) = fold divide_step bs (reflect c)"
  by (induction bs arbitrary: c) (simp_all add: reflect_feed)

lemma reflect_crc_bytes:
  "reflect (fold crc_byte data c) = fold divide_step (concat (map (\<lambda>b. map (bit b) [0..<8]) data)) (reflect c)"
  by (induction data arbitrary: c) (simp_all add: crc_byte_feed reflect_fold del: upt_rec_numeral)

text \<open>
  C19: The checksum of the kernel, which processes a byte at a time, shifts towards the lowest bit and uses
  a mask instead of a branch, is the standard CRC-32.
\<close>

theorem crc32_is_standard: "crc32 data = crc32_spec data"
proof -
  have "reflect (- 1) = - 1" by (rule bit_word_eqI) (simp add: bit_reflect)
  then have "reflect (fold crc_byte data (- 1)) = fold divide_step (concat (map (\<lambda>b. map (bit b) [0..<8]) data)) (- 1)"
    by (simp only: reflect_crc_bytes)
  then have "crc32_spec data = NOT (fold crc_byte data (- 1))"
    unfolding crc32_spec_def by (metis reflect_reflect)
  moreover have "(0xFFFFFFFF :: u32) = - 1" by simp
  ultimately show ?thesis by (simp only: crc32_def)
qed

section \<open>The layout of an image\<close>

lemma copy_at_append:
  "length pre = off \<Longrightarrow> length old = length bs \<Longrightarrow> copy_at off bs (pre @ old @ post) = Some (pre @ bs @ post)"
  by (simp add: copy_at_def)

lemma rd32_append:
  assumes "length pre = off" and "length w = 4"
  shows "rd32 (pre @ w @ post) off = le_word w"
proof -
  obtain a b c d where "w = [a, b, c, d]" using assms(2) by (auto simp: length_Suc_conv numeral_eq_Suc)
  then show ?thesis using assms(1) by (simp add: rd32_def nth_append numeral_eq_Suc)
qed

lemma le_word_inj: "length bs = 4 \<Longrightarrow> length cs = 4 \<Longrightarrow> (le_word bs :: u32) = le_word cs \<Longrightarrow> bs = cs"
  using le_bytes_le_word [of bs, where 'a = 32] le_bytes_le_word [of cs, where 'a = 32] by simp

definition layout :: "u8 list \<Rightarrow> u8 list \<Rightarrow> u8 list \<Rightarrow> u8 list \<Rightarrow> u8 list \<Rightarrow> u8 list" where
  "layout magic version len4 crc rest = magic @ version @ len4 @ crc @ rest"

lemma parse_layout:
  assumes "length magic = 4" and "length version = 4" and "length crc = 4" and "16 \<le> length rest" and "length rest < 2 ^ 32 - 16"
  shows "parse_slot (layout magic version (le_bytes 4 (of_nat (16 + length rest) :: u32)) crc rest) =
    Some (if le_word magic \<noteq> KOTA_MAGIC then Inl BadMagic
      else if crc32 (layout magic version (le_bytes 4 (of_nat (16 + length rest) :: u32)) [0, 0, 0, 0] rest) \<noteq> le_word crc then Inl BadCrc
      else Inr (le_word version, le_word crc, le_word (take 4 (drop 12 rest))))"
proof -
  let ?total = "le_bytes 4 (of_nat (16 + length rest) :: u32)"
  let ?img = "layout magic version ?total crc rest"
  have len: "length ?img = 16 + length rest" using assms(1-3) by (simp add: layout_def)
  have m: "rd32 ?img 0 = le_word magic"
    using rd32_append [of "[]" 0 magic "version @ ?total @ crc @ rest"] assms(1) by (simp add: layout_def)
  have v: "rd32 ?img 4 = le_word version"
    using rd32_append [of magic 4 version "?total @ crc @ rest"] assms(1,2) by (simp add: layout_def)
  have t: "rd32 ?img 8 = of_nat (16 + length rest)"
    using rd32_append [of "magic @ version" 8 ?total "crc @ rest"] assms(1,2) by (simp add: layout_def le_word_le_bytes)
  have c: "rd32 ?img 12 = le_word crc"
    using rd32_append [of "magic @ version @ ?total" 12 crc rest] assms(1-3) by (simp add: layout_def)
  have "rest = take 12 rest @ take 4 (drop 12 rest) @ drop 16 rest"
    using take_add [of 12 4 rest] append_take_drop_id [of 16 rest] by simp
  then have f: "rd32 ?img 28 = le_word (take 4 (drop 12 rest))"
    using rd32_append [of "magic @ version @ ?total @ crc @ take 12 rest" 28 "take 4 (drop 12 rest)" "drop 16 rest"] assms
    by (simp add: layout_def)
  have "unat (of_nat k :: u32) = k" if "k < 2 ^ 32" for k using that by (simp add: unat_of_nat)
  then have n: "unat (of_nat (16 + length rest) :: u32) = 16 + length rest" using assms(5) by (simp only:)
  have p: "copy_at 12 [0, 0, 0, 0] ?img = Some (layout magic version ?total [0, 0, 0, 0] rest)"
    using copy_at_append [of "magic @ version @ ?total" 12 crc "[0, 0, 0, 0]" rest] assms(1-3) by (simp add: layout_def)
  show ?thesis
    unfolding parse_slot_def KOTA_HEADER_LEN_def Let_def m v t c f n len
    using assms(4) p len by (simp add: KOTA_HEADER_LEN_def)
qed

lemma make_slot_eq:
  fixes version :: u32 and payload trial
  defines "tail \<equiv> replicate 12 0 @ le_bytes 4 (if trial then KOTA_FLAG_TRIAL else 0) @ payload"
  defines "len4 \<equiv> le_bytes 4 (of_nat (32 + length payload) :: u32)"
  shows "make_slot version payload trial = Some (layout (le_bytes 4 KOTA_MAGIC) (le_bytes 4 version) len4
    (le_bytes 4 (crc32 (layout (le_bytes 4 KOTA_MAGIC) (le_bytes 4 version) len4 [0, 0, 0, 0] tail))) tail)"
proof -
  let ?z = "\<lambda>n. replicate n (0 :: u8)"
  let ?m = "le_bytes 4 KOTA_MAGIC" and ?v = "le_bytes 4 version" and ?f = "le_bytes 4 (if trial then KOTA_FLAG_TRIAL else 0)"
  have z4: "[0, 0, 0, 0] = ?z 4" by (simp add: numeral_eq_Suc)
  have img: "?z (32 + length payload) = ?z 4 @ ?z 4 @ ?z 4 @ ?z 4 @ ?z 12 @ ?z 4 @ ?z (length payload)"
    by (simp add: replicate_add [symmetric] del: append_assoc)
  have c0: "copy_at 0 ?m (?z (32 + length payload)) = Some (?m @ ?z 4 @ ?z 4 @ ?z 4 @ ?z 12 @ ?z 4 @ ?z (length payload))"
    unfolding img using copy_at_append [of "[]" 0 "?z 4" ?m] by simp
  have c1: "copy_at 4 ?v (?m @ ?z 4 @ r) = Some (?m @ ?v @ r)" for r by (rule copy_at_append) simp_all
  have c2: "copy_at 8 len4 (?m @ ?v @ ?z 4 @ r) = Some (?m @ ?v @ len4 @ r)" for r
    using copy_at_append [of "?m @ ?v" 8 "?z 4" len4 r] by (simp add: len4_def)
  have c3: "copy_at 28 ?f (?m @ ?v @ len4 @ ?z 4 @ ?z 12 @ ?z 4 @ r) = Some (?m @ ?v @ len4 @ ?z 4 @ ?z 12 @ ?f @ r)" for r
    using copy_at_append [of "?m @ ?v @ len4 @ ?z 4 @ ?z 12" 28 "?z 4" ?f r] by (simp add: len4_def)
  have c4: "copy_at 32 payload (?m @ ?v @ len4 @ ?z 4 @ ?z 12 @ ?f @ ?z (length payload)) = Some (?m @ ?v @ len4 @ ?z 4 @ tail)"
    using copy_at_append [of "?m @ ?v @ len4 @ ?z 4 @ ?z 12 @ ?f" 32 "?z (length payload)" payload "[]"] by (simp add: len4_def tail_def)
  have c5: "copy_at 12 crc (?m @ ?v @ len4 @ ?z 4 @ tail) = Some (?m @ ?v @ len4 @ crc @ tail)" if "length crc = 4" for crc
    using copy_at_append [of "?m @ ?v @ len4" 12 "?z 4" crc tail] that by (simp add: len4_def)
  have len: "length (?m @ ?v @ ?z 4 @ ?z 4 @ ?z 12 @ ?z 4 @ ?z (length payload)) = 32 + length payload" by simp
  show ?thesis
    unfolding make_slot_def KOTA_HEADER_LEN_def Let_def c0 bind.bind_lunit c1 len len4_def [symmetric] c2 c3 c4 layout_def z4
    by (rule c5) simp
qed

text \<open>The parts of a built image and the checksum over it.\<close>

definition built :: "u32 \<Rightarrow> u8 list \<Rightarrow> u8 list \<Rightarrow> u8 list" where
  "built version crc rest =
    layout (le_bytes 4 KOTA_MAGIC) (le_bytes 4 version) (le_bytes 4 (of_nat (16 + length rest) :: u32)) crc rest"

lemma make_slot_parts:
  assumes "make_slot version payload trial = Some img"
  obtains rest crc where "img = built version crc rest" "length rest = 16 + length payload" "length crc = 4"
    "le_word crc = crc32 (built version [0, 0, 0, 0] rest)"
    "le_word (take 4 (drop 12 rest)) = (if trial then KOTA_FLAG_TRIAL else 0)"
proof (rule that)
  let ?rest = "replicate 12 0 @ le_bytes 4 (if trial then KOTA_FLAG_TRIAL else 0) @ payload"
  have "16 + length ?rest = 32 + length payload" by simp
  then show "img = built version (le_bytes 4 (crc32 (built version [0, 0, 0, 0] ?rest))) ?rest"
    using assms make_slot_eq [of version payload trial] by (simp only: built_def option.inject)
  show "length ?rest = 16 + length payload" by simp
  show "le_word (take 4 (drop 12 ?rest)) = (if trial then KOTA_FLAG_TRIAL else 0)" by (simp add: le_word_le_bytes)
qed (simp_all add: le_word_le_bytes)

lemma le_word_magic: "le_word (le_bytes 4 (w :: u32)) = w"
  by (simp add: le_word_le_bytes)

lemma parse_built:
  assumes "length crc = 4" and "16 \<le> length rest" and "length rest < 2 ^ 32 - 16"
  shows "parse_slot (built version crc rest) =
    Some (if crc32 (built version [0, 0, 0, 0] rest) \<noteq> le_word crc then Inl BadCrc
      else Inr (version, le_word crc, le_word (take 4 (drop 12 rest))))"
  using parse_layout [of "le_bytes 4 KOTA_MAGIC" "le_bytes 4 version" crc rest] assms
  by (simp only: built_def length_le_bytes le_word_magic simp_thms if_False)

lemma make_slot_parses:
  assumes "make_slot version payload trial = Some img" and "32 + length payload < 2 ^ 32"
  shows "\<exists>crc. parse_slot img = Some (Inr (version, crc, if trial then KOTA_FLAG_TRIAL else 0))"
proof -
  obtain rest crc where p: "img = built version crc rest" "length rest = 16 + length payload" "length crc = 4"
    "le_word crc = crc32 (built version [0, 0, 0, 0] rest)"
    "le_word (take 4 (drop 12 rest)) = (if trial then KOTA_FLAG_TRIAL else 0)"
    using make_slot_parts [OF assms(1)] .
  have "16 \<le> length rest" "length rest < 2 ^ 32 - 16" using p(2) assms(2) by simp_all
  then show ?thesis unfolding p(1) using parse_built [of crc rest version] p(3-5) by simp
qed

lemma crc32_update: "i < length bs \<Longrightarrow> crc32 (bs[i := b]) = crc32 bs \<Longrightarrow> b = bs ! i"
  using crc.update_detected [of i bs b] by (simp add: crc32_def)

lemma update_middle:
  "length pre \<le> i \<Longrightarrow> i < length pre + length f \<Longrightarrow> (pre @ f @ post)[i := b] = pre @ f[i - length pre := b] @ post"
  by (simp add: list_update_append less_diff_conv2)

lemma nth_middle: "length pre \<le> i \<Longrightarrow> i < length pre + length f \<Longrightarrow> (pre @ f @ post) ! i = f ! (i - length pre)"
  by (simp add: nth_append less_diff_conv2)

lemma changed_crc:
  assumes "i < length bs" and "b \<noteq> bs ! i"
  shows "crc32 (bs[i := b]) \<noteq> crc32 bs"
  using crc32_update [OF assms(1)] assms(2) by blast

text \<open>
  A change of the version or of anything after the checksum field changes the checksummed bytes in
  the same place; a change of the checksum field leaves them alone.
\<close>

lemma update_fields:
  assumes "length magic = 4" and "length version = 4" and "length l4 = 4" and "length crc = 4" and "i < 16 + length rest"
  defines "img \<equiv> layout magic version l4 crc rest"
  shows "i < 4 \<Longrightarrow> img[i := b] = layout (magic[i := b]) version l4 crc rest \<and> img ! i = magic ! i"
    and "12 \<le> i \<Longrightarrow> i < 16 \<Longrightarrow> img[i := b] = layout magic version l4 (crc[i - 12 := b]) rest \<and> img ! i = crc ! (i - 12)"
    and "4 \<le> i \<Longrightarrow> i < 8 \<Longrightarrow> img[i := b] = layout magic (version[i - 4 := b]) l4 crc rest \<and> img ! i = version ! (i - 4)"
    and "16 \<le> i \<Longrightarrow> img[i := b] = layout magic version l4 crc (rest[i - 16 := b]) \<and> img ! i = rest ! (i - 16)"
proof -
  show "i < 4 \<Longrightarrow> img[i := b] = layout (magic[i := b]) version l4 crc rest \<and> img ! i = magic ! i"
    using update_middle [of "[]" i magic "version @ l4 @ crc @ rest" b] nth_middle [of "[]" i magic "version @ l4 @ crc @ rest"] assms(1-4)
    by (simp add: img_def layout_def)
  show "12 \<le> i \<Longrightarrow> i < 16 \<Longrightarrow> img[i := b] = layout magic version l4 (crc[i - 12 := b]) rest \<and> img ! i = crc ! (i - 12)"
    using update_middle [of "magic @ version @ l4" i crc rest b] nth_middle [of "magic @ version @ l4" i crc rest] assms(1-4)
    by (simp add: img_def layout_def)
  show "4 \<le> i \<Longrightarrow> i < 8 \<Longrightarrow> img[i := b] = layout magic (version[i - 4 := b]) l4 crc rest \<and> img ! i = version ! (i - 4)"
    using update_middle [of magic i version "l4 @ crc @ rest" b] nth_middle [of magic i version "l4 @ crc @ rest"] assms(1-4)
    by (simp add: img_def layout_def)
  show "16 \<le> i \<Longrightarrow> img[i := b] = layout magic version l4 crc (rest[i - 16 := b]) \<and> img ! i = rest ! (i - 16)"
    using update_middle [of "magic @ version @ l4 @ crc" i rest "[]" b] nth_middle [of "magic @ version @ l4 @ crc" i rest "[]"] assms(1-5)
    by (simp add: img_def layout_def)
qed

lemma corrupted_slot:
  assumes "make_slot version payload trial = Some img" and "32 + length payload < 2 ^ 32"
    and "i < length img" and "i \<notin> {8..<12}" and "b \<noteq> img ! i"
  shows "parse_slot (img[i := b]) = Some (Inl (if i < 4 then BadMagic else BadCrc))"
proof -
  let ?m = "le_bytes 4 KOTA_MAGIC" and ?v = "le_bytes 4 version" and ?z = "[0, 0, 0, 0] :: u8 list"
  obtain rest crc where p: "img = built version crc rest" "length rest = 16 + length payload" "length crc = 4"
    "le_word crc = crc32 (built version ?z rest)"
    using make_slot_parts [OF assms(1)] .
  let ?l = "le_bytes 4 (of_nat (16 + length rest) :: u32)"
  have z: "length ?z = 4" by simp
  have r: "16 \<le> length rest" "length rest < 2 ^ 32 - 16" using p(2) assms(2) by simp_all
  have i: "i < 16 + length rest" using assms(3) p(1,3) by (simp add: built_def layout_def)
  note f = update_fields [of ?m ?v ?l crc i rest b, OF length_le_bytes length_le_bytes length_le_bytes p(3) i, folded built_def]
  note fz = update_fields [of ?m ?v ?l ?z i rest b, OF length_le_bytes length_le_bytes length_le_bytes z i, folded built_def]
  have len: "i < length (built version ?z rest)" using i by (simp add: built_def layout_def)
  consider "i < 4" | "4 \<le> i" "i < 8" | "12 \<le> i" "i < 16" | "16 \<le> i" using assms(4) by force
  then show ?thesis
  proof cases
    case 1
    then have "?m[i := b] \<noteq> ?m" using f(1) assms(5) p(1) by (auto simp: list_eq_iff_nth_eq)
    then have "le_word (?m[i := b]) \<noteq> KOTA_MAGIC"
      using le_word_inj [of "?m[i := b]" ?m] by (auto simp: le_word_magic)
    then show ?thesis using 1 f(1) parse_layout [of "?m[i := b]" ?v crc rest] p(1,3) r by simp
  next
    case 2
    have "crc32 (layout ?m (?v[i - 4 := b]) ?l ?z rest) \<noteq> le_word crc"
      using changed_crc [OF len, of b] fz(3) [OF 2] f(3) [OF 2] assms(5) p(1,4) by simp
    then show ?thesis using 2 f(3) parse_layout [of ?m "?v[i - 4 := b]" crc rest] p(1,3) r by (simp add: le_word_magic)
  next
    case 3
    then have "i - 12 < length crc" "b \<noteq> crc ! (i - 12)" using f(2) assms(5) p(1,3) by auto
    then have "crc[i - 12 := b] \<noteq> crc" by (metis nth_list_update_eq)
    then have "le_word (crc[i - 12 := b]) \<noteq> crc32 (built version ?z rest)"
      using le_word_inj [of "crc[i - 12 := b]" crc] p(3,4) by auto
    then show ?thesis using 3 f(2) parse_built [of "crc[i - 12 := b]" rest version] p(1,3) r by (simp add: built_def)
  next
    case 4
    have "crc32 (layout ?m ?v ?l ?z (rest[i - 16 := b])) \<noteq> le_word crc"
      using changed_crc [OF len, of b] fz(4) [OF 4] f(4) [OF 4] assms(5) p(1,4) by simp
    then show ?thesis using 4 f(4) parse_layout [of ?m ?v crc "rest[i - 16 := b]"] p(1,3) r by (simp add: le_word_magic)
  qed
qed

section \<open>Choosing a slot\<close>

text \<open>
  C16: An image built by \<open>make_slot\<close> parses back to its version and flags, and a change of any one byte
  outside the length field is detected: as a wrong magic number in the first four bytes, and as a
  wrong checksum anywhere else.
\<close>

theorem slot_roundtrip_and_integrity:
  assumes "make_slot version payload trial = Some img" and "32 + length payload < 2 ^ 32"
  shows "(\<exists>crc. parse_slot img = Some (Inr (version, crc, if trial then 1 else 0))) \<and>
    (\<forall>i b. i < length img \<and> i \<notin> {8..<12} \<and> b \<noteq> img ! i \<longrightarrow>
      parse_slot (img[i := b]) = Some (Inl (if i < 4 then BadMagic else BadCrc)))"
  using make_slot_parses [OF assms] corrupted_slot [OF assms] unfolding KOTA_FLAG_TRIAL_def by blast

lemma short_len_panics:
  "32 \<le> length img \<Longrightarrow> rd32 img 0 = KOTA_MAGIC \<Longrightarrow> unat (rd32 img 8) < 16 \<Longrightarrow> parse_slot img = None"
  by (simp add: parse_slot_def KOTA_HEADER_LEN_def copy_at_def Let_def)

text \<open>
  C36: Choosing between two built images takes the newer one, and of two with the same version the second
  one only if the first is on trial and the second is not. If one byte of one of them outside its
  length field is changed, the other one is chosen; if one such byte of each is, the first. The
  length field is not protected in this way: an image with the magic number whose length field
  is below 16 makes the choice panic, whichever slot it is in.
\<close>

theorem select_slot_falls_back:
  assumes "make_slot va pa ta = Some a" and "32 + length pa < 2 ^ 32" and "make_slot vb pb tb = Some b" and "32 + length pb < 2 ^ 32"
    and "i < length a" and "i \<notin> {8..<12}" and "x \<noteq> a ! i" and "j < length b" and "j \<notin> {8..<12}" and "y \<noteq> b ! j"
  shows "select_slot a b = Some (if va = vb then (if ta \<and> \<not> tb then 1 else 0) else (if vb > va then 1 else 0)) \<and>
    select_slot a (b[j := y]) = Some 0 \<and> select_slot (a[i := x]) b = Some 1 \<and> select_slot (a[i := x]) (b[j := y]) = Some 0 \<and>
    (\<forall>d. 32 \<le> length d \<and> rd32 d 0 = KOTA_MAGIC \<and> unat (rd32 d 8) < 16 \<longrightarrow> select_slot d b = None \<and> select_slot a d = None)"
proof -
  obtain ca where pa: "parse_slot a = Some (Inr (va, ca, if ta then KOTA_FLAG_TRIAL else 0))"
    using make_slot_parses [OF assms(1,2)] by blast
  obtain cb where pb: "parse_slot b = Some (Inr (vb, cb, if tb then KOTA_FLAG_TRIAL else 0))"
    using make_slot_parses [OF assms(3,4)] by blast
  note qa = corrupted_slot [OF assms(1,2,5,6,7)] and qb = corrupted_slot [OF assms(3,4,8,9,10)]
  show ?thesis unfolding select_slot_def pa pb qa qb by (auto simp: KOTA_FLAG_TRIAL_def short_len_panics)
qed

text \<open>
  An image with the right magic number whose length field is below 16 makes the parser panic: it
  clears the checksum field in a copy that is too short to have one.
\<close>

theorem short_image_len_panics:
  assumes "32 \<le> length img" and "rd32 img 0 = KOTA_MAGIC" and "unat (rd32 img 8) < 16"
  shows "parse_slot img = None"
  using assms by (rule short_len_panics)

section \<open>Witnesses\<close>

lemma demo_slot: "\<exists>img. make_slot v [1, 2, 3] t = Some img \<and> length img = 35"
  using make_slot_eq [of v "[1, 2, 3]" t] by (simp add: layout_def)

theorem slot_roundtrip_and_integrity_witness:
  "\<exists>img crc. make_slot 7 [1, 2, 3] False = Some img \<and> parse_slot img = Some (Inr (7, crc, 0)) \<and>
     parse_slot (img[33 := img ! 33 + 1]) = Some (Inl BadCrc)"
proof -
  obtain img where img: "make_slot 7 [1, 2, 3] False = Some img" "length img = 35" using demo_slot by blast
  have "img ! 33 + 1 \<noteq> img ! 33" by simp
  then show ?thesis using slot_roundtrip_and_integrity [OF img(1)] img by auto
qed

theorem select_slot_falls_back_witness:
  "\<exists>a b. make_slot 7 [1, 2, 3] False = Some a \<and> make_slot 8 [1, 2, 3] False = Some b \<and>
     select_slot a b = Some 1 \<and> select_slot a (b[33 := b ! 33 + 1]) = Some 0"
proof -
  obtain a where a: "make_slot 7 [1, 2, 3] False = Some a" "length a = 35" using demo_slot by blast
  obtain b where b: "make_slot 8 [1, 2, 3] False = Some b" "length b = 35" using demo_slot by blast
  have "a ! 33 + 1 \<noteq> a ! 33" "b ! 33 + 1 \<noteq> b ! 33" by simp_all
  then show ?thesis
    using select_slot_falls_back [OF a(1) _ b(1), of 33 "a ! 33 + 1" 33 "b ! 33 + 1"] a b by auto
qed

theorem short_image_len_panics_witness: "parse_slot ([0x4B, 0x4F, 0x54, 0x41] @ replicate 28 0) = None"
proof -
  have "rd32 ([0x4B, 0x4F, 0x54, 0x41] @ replicate 28 0) 0 = KOTA_MAGIC" by (simp add: rd32_def KOTA_MAGIC_def)
  moreover have "unat (rd32 ([0x4B, 0x4F, 0x54, 0x41] @ replicate 28 0) 8) < 16" by (simp add: rd32_def numeral_eq_Suc)
  ultimately show ?thesis using short_image_len_panics [of "[0x4B, 0x4F, 0x54, 0x41] @ replicate 28 0"] by simp
qed

end
