(* ===== verification/Ustr.thy ===== *)
theory Ustr
  imports Karte_Prelude
begin

unbundle bit_operations_syntax

text \<open>
  Strings of the device protocols as their UTF-8 bytes: the validity test, splitting at a separator,
  and decimal numbers, as far as the protocol code uses them of the standard library.
\<close>

type_synonym ustr = "u8 list"

definition bytes :: "string \<Rightarrow> ustr" where "bytes s = map of_char s"

text \<open>The test of \<open>core::str::from_utf8\<close>: shortest encodings of code points that are not surrogates.\<close>

definition cont :: "u8 \<Rightarrow> bool" where "cont b \<longleftrightarrow> 0x80 \<le> b \<and> b \<le> 0xBF"

text \<open>
  The length of a character by its first byte (0 if it cannot be one), the bytes that may follow, and
  the length of the character at the beginning if it is well-formed.
\<close>

definition utf8_lead :: "u8 \<Rightarrow> nat" where
  "utf8_lead a =
    (if a < 0x80 then 1 else if 0xC2 \<le> a \<and> a \<le> 0xDF then 2 else if 0xE0 \<le> a \<and> a \<le> 0xEF then 3
     else if 0xF0 \<le> a \<and> a \<le> 0xF4 then 4 else 0)"

definition utf8_second :: "u8 \<Rightarrow> u8 \<Rightarrow> bool" where
  "utf8_second a b \<longleftrightarrow> cont b \<and> (a = 0xE0 \<longrightarrow> 0xA0 \<le> b) \<and> (a = 0xED \<longrightarrow> b \<le> 0x9F) \<and>
     (a = 0xF0 \<longrightarrow> 0x90 \<le> b) \<and> (a = 0xF4 \<longrightarrow> b \<le> 0x8F)"

definition utf8_char :: "ustr \<Rightarrow> nat option" where
  "utf8_char xs =
    (if xs = [] then None
     else let n = utf8_lead (hd xs)
       in if 0 < n \<and> n \<le> length xs \<and> (2 \<le> n \<longrightarrow> utf8_second (hd xs) (xs ! 1)) \<and> list_all cont (take (n - 2) (drop 2 xs))
          then Some n else None)"

lemma utf8_char_bounds: "utf8_char xs = Some n \<Longrightarrow> 0 < n \<and> n \<le> length xs"
  by (auto simp: utf8_char_def Let_def split: if_splits)

function utf8_valid :: "ustr \<Rightarrow> bool" where
  "utf8_valid xs = (xs = [] \<or> (case utf8_char xs of Some n \<Rightarrow> utf8_valid (drop n xs) | None \<Rightarrow> False))"
  by auto
termination by (relation "measure length") (auto dest: utf8_char_bounds)

declare utf8_valid.simps [simp del]

text \<open>\<open>str::split\<close> at an ASCII character.\<close>

fun split_at :: "u8 \<Rightarrow> ustr \<Rightarrow> ustr list" where
  "split_at sep [] = [[]]"
| "split_at sep (b # bs) =
    (if b = sep then [] # split_at sep bs
     else (case split_at sep bs of [] \<Rightarrow> [[b]] | w # ws \<Rightarrow> (b # w) # ws))"

text \<open>The decimal digits that \<open>format!\<close> prints, and \<open>str::parse::<u64>\<close>.\<close>

fun decimal :: "nat \<Rightarrow> ustr" where
  "decimal n = (if n < 10 then [of_nat (48 + n)] else decimal (n div 10) @ [of_nat (48 + n mod 10)])"

declare decimal.simps [simp del]

definition is_digit :: "u8 \<Rightarrow> bool" where "is_digit b \<longleftrightarrow> 48 \<le> b \<and> b \<le> 57"

definition digits_value :: "ustr \<Rightarrow> nat" where
  "digits_value ds = foldl (\<lambda>v b. v * 10 + (unat b - 48)) 0 ds"

definition parse_u64 :: "ustr \<Rightarrow> u64 option" where
  "parse_u64 s =
    (let ds = (case s of [] \<Rightarrow> [] | b # bs \<Rightarrow> if b = 43 then bs else s)
     in if ds \<noteq> [] \<and> list_all is_digit ds \<and> digits_value ds < 2 ^ 64 then Some (of_nat (digits_value ds)) else None)"

lemma utf8_char_append: "utf8_char xs = Some n \<Longrightarrow> utf8_char (xs @ ys) = Some n"
proof -
  assume h: "utf8_char xs = Some n"
  then have n: "0 < n" "n \<le> length xs" by (simp_all add: utf8_char_bounds)
  then have "hd (xs @ ys) = hd xs" "xs \<noteq> []" "2 \<le> n \<Longrightarrow> (xs @ ys) ! 1 = xs ! 1"
    "take (n - 2) (drop 2 (xs @ ys)) = take (n - 2) (drop 2 xs)"
    by (auto simp: nth_append hd_append)
  with h n show ?thesis by (auto simp: utf8_char_def Let_def split: if_splits)
qed

lemma utf8_valid_append: "utf8_valid xs \<Longrightarrow> utf8_valid ys \<Longrightarrow> utf8_valid (xs @ ys)"
proof (induction xs rule: utf8_valid.induct)
  case (1 xs)
  show ?case
  proof (cases "xs = []")
    case False
    then obtain n where n: "utf8_char xs = Some n" "utf8_valid (drop n xs)"
      using 1(2) by (subst (asm) utf8_valid.simps) (auto split: option.splits)
    have "utf8_valid (drop n xs @ ys)" using 1(1) [OF n(1,2) 1(3)] .
    then have "utf8_valid (drop n (xs @ ys))" using utf8_char_bounds [OF n(1)] by simp
    then show ?thesis using utf8_char_append [OF n(1), of ys] by (subst utf8_valid.simps) simp
  qed (use 1(3) in simp)
qed

lemma utf8_valid_ascii: "\<forall>b \<in> set xs. b < 0x80 \<Longrightarrow> utf8_valid xs"
proof (induction xs)
  case (Cons b xs)
  then have "utf8_char (b # xs) = Some 1" by (simp add: utf8_char_def utf8_lead_def)
  then show ?case using Cons by (subst utf8_valid.simps) simp
qed (simp add: utf8_valid.simps)

lemma split_at_nonempty [simp]: "split_at sep xs \<noteq> []"
  by (induction xs) (auto split: list.split)

lemma split_at_word: "sep \<notin> set w \<Longrightarrow> split_at sep w = [w]"
  by (induction w) auto

lemma split_at_append: "sep \<notin> set w \<Longrightarrow> split_at sep (w @ sep # rest) = w # split_at sep rest"
  by (induction w) auto

lemma digit_byte:
  assumes "d < 10"
  shows "is_digit (of_nat (48 + d))" and "unat (of_nat (48 + d) :: u8) = 48 + d" and "(of_nat (48 + d) :: u8) < 0x80"
proof -
  have un: "unat (of_nat m :: u8) = m" if "m < 256" for m using that by (simp add: unat_of_nat)
  then show u: "unat (of_nat (48 + d) :: u8) = 48 + d" using assms by (simp only:)
  show "is_digit (of_nat (48 + d))" "(of_nat (48 + d) :: u8) < 0x80"
    using assms unfolding is_digit_def word_le_nat_alt word_less_nat_alt u by simp_all
qed

lemma decimal_facts:
  "decimal n \<noteq> [] \<and> list_all is_digit (decimal n) \<and> digits_value (decimal n) = n \<and> (\<forall>b \<in> set (decimal n). b < 0x80)"
proof (induction n rule: decimal.induct)
  case (1 n)
  show ?case
  proof (cases "n < 10")
    case True
    then show ?thesis using digit_byte [OF True] by (simp add: decimal.simps [of n] digits_value_def)
  next
    case False
    have d: "n mod 10 < 10" by simp
    have "n div 10 * 10 + n mod 10 = n" by simp
    then show ?thesis
      using 1 [OF False] False digit_byte [OF d] by (auto simp: decimal.simps [of n] digits_value_def)
  qed
qed

lemma digit_not: "is_digit b \<Longrightarrow> b \<noteq> 43 \<and> b \<noteq> 0x7C"
  by (auto simp: is_digit_def)

lemma parse_decimal: "n < 2 ^ 64 \<Longrightarrow> parse_u64 (decimal n) = Some (of_nat n)"
proof -
  assume n: "n < 2 ^ 64"
  obtain b bs where b: "decimal n = b # bs" using decimal_facts [of n] by (cases "decimal n") auto
  have f: "decimal n \<noteq> []" "list_all is_digit (decimal n)" "digits_value (decimal n) = n" using decimal_facts [of n] by simp_all
  then have "b \<noteq> 43" using b digit_not by auto
  then have "(case decimal n of [] \<Rightarrow> [] | b # bs \<Rightarrow> if b = 43 then bs else decimal n) = decimal n" using b by simp
  then show ?thesis using f n by (simp add: parse_u64_def)
qed

end
