(* ===== verification/Cap_Auth.thy ===== *)
theory Cap_Auth
  imports Checksum Ustr
begin

unbundle bit_operations_syntax

text \<open>
  Capability tokens and signed device manifests, \<open>kernel/src/capauth.rs\<close>. For every history of issuing,
  revoking and sweeping, a token is accepted exactly if the history granted it. The manifest hash
  notices a change of any byte. Strings are their UTF-8 bytes.
\<close>

section \<open>Model\<close>

record cap_token =
  token_id :: u64
  device_id :: ustr
  tool_name :: ustr
  perm_bits :: u8
  issued_ms :: u64
  expires_ms :: u64

datatype verify_result = VerifyOk | NoToken | Expired | Revoked | PermDenied

record token_manager =
  tm_tokens :: "cap_token list"
  tm_revoked :: "u64 list"
  tm_next_id :: u64

definition tm_new :: token_manager where "tm_new = \<lparr>tm_tokens = [], tm_revoked = [], tm_next_id = 1\<rparr>"

definition issue :: "ustr \<Rightarrow> ustr \<Rightarrow> u8 \<Rightarrow> u64 \<Rightarrow> u64 \<Rightarrow> token_manager \<Rightarrow> u64 \<times> token_manager" where
  "issue device tool perm now_ms ttl_ms tm =
    (let id = tm_next_id tm in
     (id, tm\<lparr>tm_next_id := tm_next_id tm + 1,
        tm_tokens := tm_tokens tm @ [\<lparr>token_id = id, device_id = device, tool_name = tool, perm_bits = perm,
          issued_ms = now_ms, expires_ms = now_ms + ttl_ms\<rparr>]\<rparr>))"

definition verify :: "u64 \<Rightarrow> ustr \<Rightarrow> ustr \<Rightarrow> u8 \<Rightarrow> u64 \<Rightarrow> token_manager \<Rightarrow> verify_result" where
  "verify tid device tool need_perm now_ms tm =
    (case find (\<lambda>t. token_id t = tid) (tm_tokens tm) of
       None \<Rightarrow> NoToken
     | Some t \<Rightarrow>
         if now_ms \<ge> expires_ms t then Expired
         else if tid \<in> set (tm_revoked tm) then Revoked
         else if device_id t \<noteq> device \<or> tool_name t \<noteq> tool then NoToken
         else if perm_bits t AND need_perm \<noteq> need_perm then PermDenied
         else VerifyOk)"

definition revoke :: "u64 \<Rightarrow> token_manager \<Rightarrow> bool \<times> token_manager" where
  "revoke tid tm =
    (if tid \<in> set (tm_revoked tm) then (False, tm) else (True, tm\<lparr>tm_revoked := tm_revoked tm @ [tid]\<rparr>))"

definition sweep :: "u64 \<Rightarrow> token_manager \<Rightarrow> usize \<times> token_manager" where
  "sweep now_ms tm =
    (let tokens = filter (\<lambda>t. expires_ms t > now_ms) (tm_tokens tm)
     in (length (tm_tokens tm) - length tokens, tm\<lparr>tm_tokens := tokens\<rparr>))"

definition fnv_byte :: "u8 \<Rightarrow> u64 \<Rightarrow> u64" where
  "fnv_byte b h = (h XOR ucast b) * 0x100000001b3"

definition fnv1a64 :: "u8 list \<Rightarrow> u64" where
  "fnv1a64 data = fold fnv_byte data 0xcbf29ce484222325"

definition registration_key :: "ustr \<Rightarrow> ustr option" where
  "registration_key device =
    (if device = bytes ''vfs0'' then Some (bytes ''kartevfs0key'')
     else if device = bytes ''timer0'' then Some (bytes ''kartetimer0key'')
     else if device = bytes ''gpio0'' then Some (bytes ''kartegpio0key'')
     else None)"

definition manifest_hash :: "ustr \<Rightarrow> ustr \<Rightarrow> u64" where
  "manifest_hash device key = fnv1a64 (device @ [0] @ key)"

definition verify_manifest :: "ustr \<Rightarrow> u64 \<Rightarrow> bool" where
  "verify_manifest device claimed_hash =
    (case registration_key device of None \<Rightarrow> False | Some key \<Rightarrow> manifest_hash device key = claimed_hash)"

section \<open>Histories of a token manager\<close>

datatype tm_op = Issue ustr ustr u8 u64 u64 | Revoke u64 | Sweep u64

fun tm_step :: "tm_op \<Rightarrow> token_manager \<Rightarrow> token_manager" where
  "tm_step (Issue d t p now ttl) tm = snd (issue d t p now ttl tm)"
| "tm_step (Revoke i) tm = snd (revoke i tm)"
| "tm_step (Sweep now) tm = snd (sweep now tm)"

definition tm_run :: "tm_op list \<Rightarrow> token_manager" where "tm_run ops = fold tm_step ops tm_new"

fun is_issue :: "tm_op \<Rightarrow> bool" where
  "is_issue (Issue d t p now ttl) = True"
| "is_issue _ = False"

definition issues :: "tm_op list \<Rightarrow> nat" where "issues ops = length (filter is_issue ops)"

text \<open>The tokens that a history has issued and not swept away.\<close>

definition token_of :: "nat \<Rightarrow> ustr \<Rightarrow> ustr \<Rightarrow> u8 \<Rightarrow> u64 \<Rightarrow> u64 \<Rightarrow> cap_token" where
  "token_of n d t p now ttl = \<lparr>token_id = of_nat n, device_id = d, tool_name = t, perm_bits = p,
     issued_ms = now, expires_ms = now + ttl\<rparr>"

definition granted :: "tm_op list \<Rightarrow> cap_token \<Rightarrow> bool" where
  "granted ops tok \<longleftrightarrow> (\<exists>pre d t p now ttl post. ops = pre @ Issue d t p now ttl # post \<and>
     tok = token_of (issues pre + 1) d t p now ttl \<and> (\<forall>s. Sweep s \<in> set post \<longrightarrow> s < expires_ms tok))"

lemma granted_snoc:
  "granted (ops @ [x]) tok \<longleftrightarrow> (granted ops tok \<and> (\<forall>s. x = Sweep s \<longrightarrow> s < expires_ms tok)) \<or>
    (\<exists>d t p now ttl. x = Issue d t p now ttl \<and> tok = token_of (issues ops + 1) d t p now ttl)" (is "?l \<longleftrightarrow> ?old \<or> ?new")
proof (intro iffI)
  assume ?l
  then obtain pre d t p now ttl post where g: "ops @ [x] = pre @ Issue d t p now ttl # post"
    "tok = token_of (issues pre + 1) d t p now ttl" "\<forall>s. Sweep s \<in> set post \<longrightarrow> s < expires_ms tok"
    unfolding granted_def by blast
  show "?old \<or> ?new"
  proof (cases post rule: rev_cases)
    case Nil
    with g show ?thesis by auto
  next
    case (snoc post' y)
    with g(1) have "y = x" "ops = pre @ Issue d t p now ttl # post'" by auto
    then have ?old using g(2,3) snoc unfolding granted_def by (metis in_set_conv_decomp append_Cons append_assoc list.set_intros(1) Un_iff set_append)
    then show ?thesis ..
  qed
next
  assume "?old \<or> ?new"
  then show ?l
  proof
    assume ?old
    then obtain pre d t p now ttl post where g: "ops = pre @ Issue d t p now ttl # post"
      "tok = token_of (issues pre + 1) d t p now ttl" "\<forall>s. Sweep s \<in> set post \<longrightarrow> s < expires_ms tok"
      "\<forall>s. x = Sweep s \<longrightarrow> s < expires_ms tok"
      unfolding granted_def by blast
    then have "ops @ [x] = pre @ Issue d t p now ttl # (post @ [x])" "\<forall>s. Sweep s \<in> set (post @ [x]) \<longrightarrow> s < expires_ms tok" by auto
    with g(2) show ?l unfolding granted_def by blast
  next
    assume ?new
    then obtain d t p now ttl where "x = Issue d t p now ttl" "tok = token_of (issues ops + 1) d t p now ttl" by blast
    then have "ops @ [x] = ops @ Issue d t p now ttl # []" "\<forall>s. Sweep s \<in> set [] \<longrightarrow> s < expires_ms tok" by simp_all
    with \<open>tok = _\<close> show ?l unfolding granted_def by blast
  qed
qed

lemma tm_run_inv:
  assumes "issues ops < 2 ^ 64 - 1"
  shows "tm_next_id (tm_run ops) = of_nat (issues ops + 1) \<and> set (tm_revoked (tm_run ops)) = {i. Revoke i \<in> set ops} \<and>
    set (tm_tokens (tm_run ops)) = {tok. granted ops tok} \<and> distinct (map token_id (tm_tokens (tm_run ops))) \<and>
    (\<forall>tok. granted ops tok \<longrightarrow> (\<exists>k \<in> {1..issues ops}. token_id tok = of_nat k))"
  using assms
proof (induction ops rule: rev_induct)
  case Nil
  then show ?case by (simp add: tm_run_def tm_new_def issues_def granted_def)
next
  case (snoc x ops)
  have run: "tm_run (ops @ [x]) = tm_step x (tm_run ops)" by (simp add: tm_run_def)
  have less: "issues ops < 2 ^ 64 - 1" using snoc.prems by (simp add: issues_def split: if_splits)
  note ih = snoc.IH [OF less]
  note ids = conjunct2 [OF conjunct2 [OF conjunct2 [OF conjunct2 [OF ih]]]]
  show ?case
  proof (cases x)
    case (Issue d t p now ttl)
    have n: "issues (ops @ [x]) = issues ops + 1" by (simp add: issues_def Issue)
    have fresh: "token_id tok \<noteq> of_nat (issues ops + 1)" if g: "granted ops tok" for tok
    proof
      assume "token_id tok = of_nat (issues ops + 1)"
      moreover obtain k where k: "k \<in> {1..issues ops}" "token_id tok = of_nat k" using ids g by metis
      ultimately have eq: "unat (of_nat k :: u64) = unat (of_nat (issues ops + 1) :: u64)" by simp
      have un: "unat (of_nat m :: u64) = m" if "m < 2 ^ 64" for m using that by (simp add: unat_of_nat)
      have "k < 2 ^ 64" "issues ops + 1 < 2 ^ 64" using k(1) less by auto
      then have "k = issues ops + 1" using eq by (simp only: un)
      then show False using k(1) by simp
    qed
    let ?new = "token_of (issues ops + 1) d t p now ttl"
    have id: "token_id ?new = of_nat (issues ops + 1)" by (simp add: token_of_def)
    have toks: "tm_tokens (tm_run (ops @ [x])) = tm_tokens (tm_run ops) @ [?new]"
      and rev: "tm_revoked (tm_run (ops @ [x])) = tm_revoked (tm_run ops)"
      and nid: "tm_next_id (tm_run (ops @ [x])) = tm_next_id (tm_run ops) + 1"
      using ih unfolding run by (simp_all add: Issue issue_def Let_def token_of_def)
    have gr: "granted (ops @ [x]) tok \<longleftrightarrow> granted ops tok \<or> tok = ?new" for tok
      unfolding granted_snoc by (simp add: Issue)
    have "\<exists>k \<in> {1..issues ops + 1}. token_id tok = of_nat k" if "granted ops tok \<or> tok = ?new" for tok
      using that
    proof
      assume "granted ops tok"
      then obtain k where "k \<in> {1..issues ops}" "token_id tok = of_nat k" using ids by metis
      then show ?thesis by (intro bexI [of _ k]) auto
    next
      assume "tok = ?new"
      then show ?thesis using id by (intro bexI [of _ "issues ops + 1"]) auto
    qed
    moreover have "distinct (map token_id (tm_tokens (tm_run (ops @ [x]))))"
      using ih fresh id unfolding toks by auto
    moreover have "set (tm_tokens (tm_run (ops @ [x]))) = {tok. granted (ops @ [x]) tok}"
      using ih unfolding toks gr by auto
    ultimately show ?thesis using ih unfolding gr n rev nid by (simp add: Issue)
  next
    case (Revoke i)
    have n: "issues (ops @ [x]) = issues ops" by (simp add: issues_def Revoke)
    have gr: "granted (ops @ [x]) tok \<longleftrightarrow> granted ops tok" for tok unfolding granted_snoc by (simp add: Revoke)
    show ?thesis using ih unfolding run gr n by (auto simp: Revoke revoke_def)
  next
    case (Sweep s)
    have n: "issues (ops @ [x]) = issues ops" by (simp add: issues_def Sweep)
    have gr: "granted (ops @ [x]) tok \<longleftrightarrow> granted ops tok \<and> s < expires_ms tok" for tok
      unfolding granted_snoc by (simp add: Sweep)
    show ?thesis using ih unfolding run gr n by (auto simp: Sweep sweep_def Let_def distinct_map_filter)
  qed
qed

lemma find_unique:
  assumes "distinct (map f xs)" and "x \<in> set xs" and "f x = k"
  shows "find (\<lambda>y. f y = k) xs = Some x"
proof -
  obtain y where y: "find (\<lambda>y. f y = k) xs = Some y" using assms(2,3) find_Some_iff_ex [of "\<lambda>y. f y = k" xs] by auto
  then have "y \<in> set xs" "f y = k" using find_SomeD [OF y] by simp_all
  then have "y = x" using assms by (metis distinct_map inj_onD)
  with y show ?thesis by simp
qed

text \<open>
  C8: After any history of fewer than \<open>2 ^ 64 - 1\<close> issued tokens, a token is accepted for a device, a
  tool, a set of permissions and a time exactly if the history issued it for that device and tool
  with at least these permissions, it has not expired at that time or at any later sweep, and
  nobody has ever revoked it. No forged, expired, revoked or foreign token is accepted, and sweeping
  and the issue of other tokens never take a right away.
\<close>

theorem token_accepted_iff_granted:
  assumes "issues ops < 2 ^ 64 - 1"
  shows "verify tid dev tool need now (tm_run ops) = VerifyOk \<longleftrightarrow>
    (\<exists>pre perm t ttl post. ops = pre @ Issue dev tool perm t ttl # post \<and> tid = of_nat (issues pre + 1) \<and>
       now < t + ttl \<and> (\<forall>s. Sweep s \<in> set post \<longrightarrow> s < t + ttl) \<and> perm AND need = need \<and> Revoke tid \<notin> set ops)"
proof -
  let ?tm = "tm_run ops"
  note inv = tm_run_inv [OF assms]
  then have rev: "tid \<in> set (tm_revoked ?tm) \<longleftrightarrow> Revoke tid \<in> set ops" and toks: "tok \<in> set (tm_tokens ?tm) \<longleftrightarrow> granted ops tok"
    and dist: "distinct (map token_id (tm_tokens ?tm))" for tok by simp_all
  have "verify tid dev tool need now ?tm = VerifyOk \<longleftrightarrow>
    (\<exists>tok. granted ops tok \<and> token_id tok = tid \<and> device_id tok = dev \<and> tool_name tok = tool \<and> now < expires_ms tok \<and>
      perm_bits tok AND need = need \<and> Revoke tid \<notin> set ops)" (is "_ \<longleftrightarrow> (\<exists>tok. ?P tok)")
  proof
    assume ok: "verify tid dev tool need now ?tm = VerifyOk"
    then obtain tok where f: "find (\<lambda>t. token_id t = tid) (tm_tokens ?tm) = Some tok"
      by (cases "find (\<lambda>t. token_id t = tid) (tm_tokens ?tm)") (simp_all add: verify_def)
    with ok show "\<exists>tok. ?P tok"
      using find_SomeD [OF f] toks rev by (intro exI [of _ tok]) (simp add: verify_def split: if_splits)
  next
    assume "\<exists>tok. ?P tok"
    then obtain tok where t: "?P tok" ..
    then have "find (\<lambda>t. token_id t = tid) (tm_tokens ?tm) = Some tok" using find_unique [OF dist] toks by blast
    with t show "verify tid dev tool need now ?tm = VerifyOk" using rev by (simp add: verify_def not_le)
  qed
  also have "\<dots> \<longleftrightarrow> (\<exists>pre perm t ttl post. ops = pre @ Issue dev tool perm t ttl # post \<and> tid = of_nat (issues pre + 1) \<and>
       now < t + ttl \<and> (\<forall>s. Sweep s \<in> set post \<longrightarrow> s < t + ttl) \<and> perm AND need = need \<and> Revoke tid \<notin> set ops)"
    (is "_ \<longleftrightarrow> ?R")
  proof
    assume "\<exists>tok. ?P tok"
    then obtain tok where t: "?P tok" ..
    then have "granted ops tok" ..
    then obtain pre d tl p s ttl post where "ops = pre @ Issue d tl p s ttl # post" "tok = token_of (issues pre + 1) d tl p s ttl"
      "\<forall>u. Sweep u \<in> set post \<longrightarrow> u < expires_ms tok"
      unfolding granted_def by blast
    with t show ?R by (intro exI [of _ pre] exI [of _ p] exI [of _ s] exI [of _ ttl] exI [of _ post]) (simp add: token_of_def)
  next
    assume ?R
    then obtain pre p t ttl post where r: "ops = pre @ Issue dev tool p t ttl # post" "tid = of_nat (issues pre + 1)"
      "now < t + ttl" "\<forall>u. Sweep u \<in> set post \<longrightarrow> u < t + ttl" "p AND need = need" "Revoke tid \<notin> set ops"
      by blast
    let ?tok = "token_of (issues pre + 1) dev tool p t ttl"
    have "granted ops ?tok"
      unfolding granted_def using r(1,4)
      by (intro exI [of _ pre] exI [of _ dev] exI [of _ tool] exI [of _ p] exI [of _ t] exI [of _ ttl] exI [of _ post]) (simp add: token_of_def)
    then show "\<exists>tok. ?P tok" using r by (intro exI [of _ ?tok]) (simp add: token_of_def)
  qed
  finally show ?thesis .
qed

text \<open>
  The expiry time of a token wraps around: a token issued at a time after 0 with the largest possible
  lifetime is rejected as expired from its time of issue on.
\<close>

theorem longest_lifetime_expires_at_once:
  assumes "issues ops < 2 ^ 64 - 2" and "0 < t" and "t \<le> now"
  shows "verify (of_nat (issues ops + 1)) dev tool need now (tm_run (ops @ [Issue dev tool perm t (- 1)])) = Expired"
proof -
  let ?ops = "ops @ [Issue dev tool perm t (- 1)]" and ?tok = "token_of (issues ops + 1) dev tool perm t (- 1)"
  have "issues ?ops < 2 ^ 64 - 1" using assms(1) by (simp add: issues_def)
  note inv = tm_run_inv [OF this]
  have "?tok \<in> set (tm_tokens (tm_run ?ops))" using inv by (simp add: granted_snoc)
  then have f: "find (\<lambda>t. token_id t = of_nat (issues ops + 1)) (tm_tokens (tm_run ?ops)) = Some ?tok"
    using inv by (intro find_unique) (auto simp: token_of_def)
  have "expires_ms ?tok = t - 1" by (simp add: token_of_def)
  moreover have "t \<noteq> 0" using assms(2) by auto
  then have "t - 1 < t" using unat_minus_one [of t] by (simp add: word_less_nat_alt unat_gt_0)
  then have "t - 1 \<le> now" using assms(3) by (meson less_imp_le order_trans)
  ultimately have "expires_ms ?tok \<le> now" by (simp only:)
  then show ?thesis unfolding verify_def f by simp
qed

section \<open>Manifests\<close>

lemma fnv_prime_inverse: "(0x100000001b3 :: u64) * 0xce965057aff6957b = 1"
  by simp

interpretation fnv: byte_checksum fnv_byte
proof
  have mult: "x = y" if "x * 0x100000001b3 = y * 0x100000001b3" for x y :: u64
  proof -
    have "x * (0x100000001b3 * 0xce965057aff6957b) = y * (0x100000001b3 * 0xce965057aff6957b)"
      using arg_cong [OF that, of "\<lambda>w. w * 0xce965057aff6957b"] by (simp only: mult.assoc)
    then show ?thesis by (simp only: fnv_prime_inverse mult_1_right)
  qed
  show "s = s'" if "fnv_byte b s = fnv_byte b s'" for b s s'
    using mult [OF that [unfolded fnv_byte_def]] by (simp only: xor_right_cancel)
  show "b = b'" if "fnv_byte b s = fnv_byte b' s" for b b' s
    using mult [OF that [unfolded fnv_byte_def]] by (intro ucast_up_inj [where 'b = 64]) (simp_all only: xor_left_cancel, simp)
qed

text \<open>
  A device registers exactly with the hash of its own identity and its registration key. A hash
  made with a key that differs from the registered one in one byte is refused, and so is every
  hash for a device without a key.
\<close>

theorem manifest_needs_key:
  "(registration_key d = None \<longrightarrow> \<not> verify_manifest d h) \<and>
   (registration_key d = Some key \<longrightarrow> verify_manifest d (manifest_hash d key) \<and>
     (\<forall>i b. i < length key \<and> b \<noteq> key ! i \<longrightarrow> \<not> verify_manifest d (manifest_hash d (key[i := b]))))"
proof -
  have "manifest_hash d key \<noteq> manifest_hash d (key[i := b])" if "i < length key" "b \<noteq> key ! i" for i b
  proof -
    have "fold fnv_byte key s \<noteq> fold fnv_byte (key[i := b]) s" for s
      using fnv.update_detected [OF that(1), of b s] that(2) by metis
    then show ?thesis by (simp add: manifest_hash_def fnv1a64_def)
  qed
  then show ?thesis by (auto simp: verify_manifest_def)
qed

section \<open>Witnesses\<close>

theorem token_accepted_iff_granted_witness:
  "verify 1 [1] [2] 4 50 (tm_run [Issue [1] [2] 6 10 100, Sweep 20, Issue [3] [2] 1 30 5]) = VerifyOk"
proof -
  let ?ops = "[Issue [1] [2] 6 10 100, Sweep 20, Issue [3] [2] 1 30 5]"
  have "?ops = [] @ Issue [1] [2] 6 10 100 # [Sweep 20, Issue [3] [2] 1 30 5] \<and> 1 = of_nat (issues [] + 1) \<and>
      (50 :: u64) < 10 + 100 \<and> (\<forall>s. Sweep s \<in> set [Sweep 20, Issue [3] [2] 1 30 5] \<longrightarrow> s < 10 + 100) \<and>
      (6 :: u8) AND 4 = 4 \<and> Revoke 1 \<notin> set ?ops"
    by (simp add: issues_def)
  moreover have "issues ?ops < 2 ^ 64 - 1" by (simp add: issues_def)
  ultimately show ?thesis using token_accepted_iff_granted [of ?ops 1 "[1]" "[2]" 4 50] by blast
qed

theorem longest_lifetime_expires_at_once_witness: "verify 1 [1] [2] 4 50 (tm_run [Issue [1] [2] 6 50 (- 1)]) = Expired"
  using longest_lifetime_expires_at_once [of "[]" 50 50 "[1]" "[2]" 4 6] by (simp add: issues_def)

theorem manifest_needs_key_witness:
  "verify_manifest (bytes ''vfs0'') (manifest_hash (bytes ''vfs0'') (bytes ''kartevfs0key'')) \<and>
   \<not> verify_manifest (bytes ''vfs0'') (manifest_hash (bytes ''vfs0'') ((bytes ''kartevfs0key'')[0 := 0]))"
proof -
  have "registration_key (bytes ''vfs0'') = Some (bytes ''kartevfs0key'')" by (simp add: registration_key_def)
  moreover have "0 < length (bytes ''kartevfs0key'')" "0 \<noteq> bytes ''kartevfs0key'' ! 0" by (simp_all add: bytes_def)
  ultimately show ?thesis
    using manifest_needs_key [of "bytes ''vfs0''" 0 "bytes ''kartevfs0key''"] by blast
qed

end
