(* ===== verification/Mqtt.thy ===== *)
theory Mqtt
  imports Ustr
begin

unbundle bit_operations_syntax

text \<open>
  The packets of the messaging protocol, \<open>kernel/src/mqtt.rs\<close>: the variable-length remaining length,
  the packets a client sends, and the parser of the packets it receives. Encoding and parsing are
  inverse wherever the format can represent the data. Strings are their UTF-8 bytes.
\<close>

section \<open>Model\<close>

function encode_remaining_len :: "usize \<Rightarrow> u8 list" where
  "encode_remaining_len n =
    (let b = of_nat (n mod 128); n' = n div 128
     in if n' > 0 then (b OR 0x80) # encode_remaining_len n' else [b])"
  by auto
termination by (relation "measure id") (auto simp: div_greater_zero_iff)

declare encode_remaining_len.simps [simp del]

fun decode_from :: "usize \<Rightarrow> usize \<Rightarrow> usize \<Rightarrow> u8 list \<Rightarrow> (usize \<times> usize) option" where
  "decode_from i mult val [] = None"
| "decode_from i mult val (b # bs) =
    (let val' = wadd val (wmul (unat b AND 0x7F) mult); mult' = wmul mult 128
     in if b AND 0x80 = 0 then Some (val', i + 1)
        else if mult' > 128 * 128 * 128 then None
        else decode_from (i + 1) mult' val' bs)"

definition decode_remaining_len :: "u8 list \<Rightarrow> (usize \<times> usize) option" where
  "decode_remaining_len buf = decode_from 0 1 0 buf"

definition u16_be :: "u16 \<Rightarrow> u8 list" where "u16_be w = [ucast (drop_bit 8 w), ucast w]"

definition u16_from_be :: "u8 \<Rightarrow> u8 \<Rightarrow> u16" where "u16_from_be a b = push_bit 8 (ucast a) OR ucast b"

definition push_str :: "u8 list \<Rightarrow> u8 list" where "push_str s = u16_be (of_nat (length s)) @ s"

definition frame :: "u8 \<Rightarrow> u8 list \<Rightarrow> u8 list" where
  "frame first body = [first] @ encode_remaining_len (length body) @ body"

definition connect :: "u8 list \<Rightarrow> u8 list" where
  "connect client_id = frame 0x10 (push_str [0x4D, 0x51, 0x54, 0x54] @ [4] @ [0x02] @ u16_be 60 @ push_str client_id)"

definition publish :: "u8 list \<Rightarrow> u8 list \<Rightarrow> u16 \<Rightarrow> u8 list" where
  "publish topic payload pid = frame 0x32 (push_str topic @ u16_be pid @ payload)"

definition subscribe :: "u8 list \<Rightarrow> u16 \<Rightarrow> u8 \<Rightarrow> u8 list" where
  "subscribe topic_filter pid max_qos = frame 0x82 (u16_be pid @ push_str topic_filter @ [min max_qos 1])"

datatype pkt =
  ConnAck u8
| Publish u8 "u16 option" "u8 list" "u8 list"
| PubAck u16
| SubAck u16 "u8 list"
| PingResp
| Other

definition get_or :: "u8 \<Rightarrow> u8 list \<Rightarrow> nat \<Rightarrow> u8" where
  "get_or d xs i = (if i < length xs then xs ! i else d)"

definition parse_pkt :: "u8 \<Rightarrow> u8 list \<Rightarrow> pkt" where
  "parse_pkt first body =
    (let kind = drop_bit 4 first in
     if kind = 2 then ConnAck (get_or 0xFF body 1)
     else if kind = 3 then
       (let qos = drop_bit 1 first AND 0x3 in
        if length body < 2 then Other
        else (let tlen = unat (u16_from_be (body ! 0) (body ! 1)) in
          if length body < 2 + tlen then Other
          else (let raw = take tlen (drop 2 body); topic = (if utf8_valid raw then raw else []); off = 2 + tlen in
            if qos > 0 \<and> length body \<ge> off + 2
            then Publish qos (Some (u16_from_be (body ! off) (body ! (off + 1)))) topic (drop (off + 2) body)
            else Publish qos None topic (drop off body))))
     else if kind = 4 then PubAck (u16_from_be (get_or 0 body 0) (get_or 0 body 1))
     else if kind = 9 then SubAck (u16_from_be (get_or 0 body 0) (get_or 0 body 1)) (drop 2 body)
     else if kind = 13 then PingResp
     else Other)"

section \<open>The remaining length\<close>

lemma and_7F: "n AND 0x7F = (n :: nat) mod 128"
  using take_bit_eq_mask [of 7 n] by (simp add: take_bit_eq_mod mask_eq_exp_minus_1)

text \<open>The two bytes that a digit is encoded as.\<close>

lemma digit_bytes:
  assumes "n < 128"
  shows "unat (of_nat n :: u8) AND 0x7F = n" and "(of_nat n :: u8) AND 0x80 = 0"
    and "unat (of_nat n OR 0x80 :: u8) AND 0x7F = n" and "(of_nat n OR 0x80 :: u8) AND 0x80 \<noteq> 0"
proof -
  have high: "(0x80 :: u8) = push_bit 7 1" and low: "(0x7F :: nat) = mask 7" by (simp_all add: mask_eq_exp_minus_1)
  have "take_bit 7 n = n" using assms by (simp add: take_bit_nat_eq_self)
  then have n: "bit n i \<Longrightarrow> i < 7" for i by (metis bit_take_bit_iff)
  have w: "bit (of_nat n :: u8) i \<longleftrightarrow> bit n i" for i using n [of i] by (auto simp: bit_simps)
  have h: "bit (0x80 :: u8) i \<longleftrightarrow> i = 7" for i
    unfolding high bit_push_bit_iff bit_1_iff by (auto simp: possible_bit_word)
  show "unat (of_nat n :: u8) AND 0x7F = n"
    unfolding low by (rule bit_eqI) (auto simp: bit_and_iff bit_unsigned_iff bit_mask_iff w dest: n)
  show "unat (of_nat n OR 0x80 :: u8) AND 0x7F = n"
    unfolding low by (rule bit_eqI, unfold bit_and_iff bit_unsigned_iff bit_or_iff bit_mask_iff w h) (auto dest: n)
  show "(of_nat n :: u8) AND 0x80 = 0" by (rule bit_eqI, unfold bit_and_iff w h bit_0_eq) (auto dest: n)
  have "bit ((of_nat n OR 0x80 :: u8) AND 0x80) 7" unfolding bit_and_iff bit_or_iff h by simp
  then show "(of_nat n OR 0x80 :: u8) AND 0x80 \<noteq> 0" by (metis bit_0_eq bot_fun_def bot_bool_def)
qed

text \<open>Decoding the digits of \<open>n\<close> from place \<open>j\<close> on, with three places after the first at most.\<close>

lemma decode_encode:
  assumes "j \<le> 3" and "val < 128 ^ j"
  shows "decode_from j (128 ^ j) val (encode_remaining_len n @ rest) =
    (if n < 128 ^ (4 - j) then Some (val + n * 128 ^ j, j + length (encode_remaining_len n)) else None)"
  using assms
proof (induction n arbitrary: j val rule: encode_remaining_len.induct)
  case (1 n)
  let ?d = "n mod 128" and ?n = "n div 128"
  have d: "?d < 128" by simp
  have pow: "(128 :: nat) ^ j \<le> 128 ^ 3" using 1(2) by (intro power_increasing) auto
  have wd: "?d * 128 ^ j < 128 ^ Suc j" using d by simp
  have "?d * 128 ^ j \<le> 127 * 128 ^ j" by (intro mult_right_mono) auto
  then have sum: "val + ?d * 128 ^ j < 128 ^ Suc j" using 1(3) unfolding power_Suc by linarith
  then have small: "val + ?d * 128 ^ j < 2 ^ 64" using pow unfolding power_Suc by simp
  have w: "wmul ?d (128 ^ j) = ?d * 128 ^ j" "wadd val (?d * 128 ^ j) = val + ?d * 128 ^ j"
    "wmul (128 ^ j) 128 = 128 ^ Suc j"
    using small pow by (simp_all add: wmul_eq wadd_eq)
  note dig = digit_bytes [OF d]
  show ?case
  proof (cases "?n > 0")
    case False
    then have n: "n < 128" by (simp add: div_greater_zero_iff)
    moreover have "(128 :: nat) \<le> 128 ^ (4 - j)" using 1(2) power_increasing [of 1 "4 - j" "128 :: nat"] by simp
    ultimately show ?thesis using w dig by (simp add: encode_remaining_len.simps [of n] Let_def)
  next
    case True
    show ?thesis
    proof (cases "j = 3")
      case True
      then have "\<not> n < 128 ^ (4 - j)" using \<open>?n > 0\<close> by (simp add: div_greater_zero_iff)
      with True \<open>?n > 0\<close> w dig show ?thesis by (simp add: encode_remaining_len.simps [of n] Let_def)
    next
      case False
      then have j: "Suc j \<le> 3" using 1(2) by simp
      have step: "decode_from j (128 ^ j) val (encode_remaining_len n @ rest) =
        decode_from (Suc j) (128 ^ Suc j) (val + ?d * 128 ^ j) (encode_remaining_len ?n @ rest)"
        using \<open>?n > 0\<close> w dig power_increasing [OF j, of "128 :: nat"]
        by (simp add: encode_remaining_len.simps [of n] Let_def)
      have ih: "decode_from (Suc j) (128 ^ Suc j) (val + ?d * 128 ^ j) (encode_remaining_len ?n @ rest) =
        (if ?n < 128 ^ (4 - Suc j) then Some (val + ?d * 128 ^ j + ?n * 128 ^ Suc j, Suc j + length (encode_remaining_len ?n)) else None)"
        using 1(1) [OF refl refl \<open>?n > 0\<close> j sum] .
      have "128 ^ (4 - j) = 128 * (128 :: nat) ^ (4 - Suc j)" using j by (simp flip: power_Suc add: Suc_diff_Suc)
      then have "?n < 128 ^ (4 - Suc j) \<longleftrightarrow> n < 128 ^ (4 - j)" by (simp add: div_less_iff_less_mult mult.commute)
      moreover have tot: "val + ?d * 128 ^ j + ?n * 128 ^ Suc j = val + n * 128 ^ j"
      proof -
        have "val + r * 128 ^ j + q * 128 ^ Suc j = val + (q * 128 + r) * 128 ^ j" for q r :: nat
          by (simp add: algebra_simps)
        then show ?thesis by (simp only: div_mult_mod_eq)
      qed
      moreover have "length (encode_remaining_len n) = Suc (length (encode_remaining_len ?n))"
        using \<open>?n > 0\<close> by (simp add: encode_remaining_len.simps [of n] Let_def)
      ultimately show ?thesis unfolding step ih tot by simp
    qed
  qed
qed

lemma encode_length: "n < 128 ^ Suc k \<Longrightarrow> length (encode_remaining_len n) \<le> Suc k"
proof (induction k arbitrary: n)
  case 0
  then show ?case by (simp add: encode_remaining_len.simps [of n] Let_def)
next
  case (Suc k)
  then have "n div 128 < 128 ^ Suc k" by (simp add: div_less_iff_less_mult mult.commute)
  from Suc.IH [OF this] show ?case by (simp add: encode_remaining_len.simps [of n] Let_def)
qed

text \<open>
  The remaining length survives encoding and decoding, whatever follows it, exactly when it is below
  128 to the power of 4, and then takes at most four bytes; the encoding of a larger number is
  refused by the decoder.
\<close>

theorem remaining_len_roundtrip:
  "decode_remaining_len (encode_remaining_len n @ rest) =
    (if n < 128 ^ 4 then Some (n, length (encode_remaining_len n)) else None) \<and>
   (n < 128 ^ 4 \<longrightarrow> length (encode_remaining_len n) \<le> 4)"
  using decode_encode [of 0 0 n rest] encode_length [of n 3] by (simp add: decode_remaining_len_def)

lemma decode_from_bounds:
  assumes "decode_from j (128 ^ j) val buf = Some (v, k)" and "j \<le> 3" and "val < 128 ^ j"
  shows "v < 128 ^ 4 \<and> j < k \<and> k \<le> 4 \<and> k \<le> j + length buf \<and> (\<forall>i < k - j - 1. buf ! i AND 0x80 \<noteq> 0) \<and> buf ! (k - j - 1) AND 0x80 = 0"
  using assms
proof (induction buf arbitrary: j val)
  case (Cons b buf)
  let ?d = "unat b AND 0x7F"
  have d: "?d < 128" by (simp add: and_7F)
  have pow: "(128 :: nat) ^ j \<le> 128 ^ 3" using Cons(3) by (intro power_increasing) auto
  have "?d * 128 ^ j \<le> 127 * 128 ^ j" using d by (intro mult_right_mono) auto
  then have sum: "val + ?d * 128 ^ j < 128 ^ Suc j" using Cons(4) unfolding power_Suc by linarith
  have le: "(128 :: nat) ^ Suc j \<le> 128 ^ 4" using Cons(3) by (intro power_increasing) auto
  have small: "val + ?d * 128 ^ j < 2 ^ 64" using sum le by simp
  have w: "wmul ?d (128 ^ j) = ?d * 128 ^ j" "wadd val (?d * 128 ^ j) = val + ?d * 128 ^ j"
    "wmul (128 ^ j) 128 = 128 ^ Suc j"
    using small pow by (simp_all add: wmul_eq wadd_eq)
  show ?case
  proof (cases "b AND 0x80 = 0")
    case True
    then show ?thesis using Cons(2,3) w sum le by simp
  next
    case False
    then have j: "Suc j \<le> 3"
      using Cons(2,3) w by (cases "j = 3") (auto split: if_splits)
    have "decode_from (Suc j) (128 ^ Suc j) (val + ?d * 128 ^ j) buf = Some (v, k)"
      using Cons(2) w False by (simp split: if_splits)
    note ih = Cons.IH [OF this j sum]
    then obtain m where "k = Suc (Suc j) + m" by (metis less_imp_Suc_add add_Suc)
    with ih False show ?thesis by (simp add: All_less_Suc2)
  qed
qed simp

text \<open>
  C18: A decoded remaining length is below 128 to the power of 4 and never wraps around; it ends at the
  first byte without a continuation bit, which is one of the first four and inside the buffer.
\<close>

theorem remaining_len_bounds:
  assumes "decode_remaining_len buf = Some (v, k)"
  shows "v < 128 ^ 4 \<and> 0 < k \<and> k \<le> 4 \<and> k \<le> length buf \<and>
    (\<forall>i < k - 1. buf ! i AND 0x80 \<noteq> 0) \<and> buf ! (k - 1) AND 0x80 = 0"
  using decode_from_bounds [of 0 0 buf v k] assms by (simp add: decode_remaining_len_def)

section \<open>Packets\<close>

lemma u16_be_roundtrip: "u16_be w = [a, b] \<Longrightarrow> u16_from_be a b = w"
  by (auto simp: u16_be_def u16_from_be_def intro!: bit_word_eqI) (auto simp: bit_simps)

lemma parse_publish:
  assumes "length topic < 2 ^ 16" and "utf8_valid topic"
  shows "parse_pkt 0x32 (push_str topic @ u16_be pid @ payload) = Publish 1 (Some pid) topic payload"
proof -
  obtain a b where ab: "u16_be (of_nat (length topic)) = [a, b]" by (simp add: u16_be_def)
  obtain c d where cd: "u16_be pid = [c, d]" by (simp add: u16_be_def)
  have t: "unat (u16_from_be a b) = length topic"
    using u16_be_roundtrip [OF ab] assms(1) by (simp add: unat_of_nat)
  have k: "drop_bit 4 (0x32 :: u8) = 3" "drop_bit 1 (0x32 :: u8) AND 3 = 1" by simp_all
  let ?body = "a # b # topic @ c # d # payload"
  have "?body ! (2 + length topic) = c" "?body ! (2 + length topic + 1) = d"
    "take (length topic) (drop 2 ?body) = topic" "drop (2 + length topic + 2) ?body = payload"
    by (simp_all add: nth_append)
  then have "parse_pkt 0x32 ?body = Publish 1 (Some (u16_from_be c d)) topic payload"
    using t assms(2) by (simp add: parse_pkt_def k Let_def)
  then show ?thesis using u16_be_roundtrip [OF cd] by (simp add: push_str_def ab cd)
qed

text \<open>
  C17: A published message survives the wire. For a valid topic shorter than 65536 bytes and a packet
  that the remaining length can express, the receiver that reads the first byte, decodes the
  remaining length and takes that many bytes gets exactly the body, nothing is left, and
  parsing it gives the topic, the packet id and the payload.
\<close>

theorem publish_roundtrip:
  assumes "length topic < 2 ^ 16" and "utf8_valid topic" and "4 + length topic + length payload < 128 ^ 4"
  shows "\<exists>n k. hd (publish topic payload pid) = 0x32 \<and>
    decode_remaining_len (tl (publish topic payload pid)) = Some (n, k) \<and>
    length (publish topic payload pid) = 1 + k + n \<and>
    parse_pkt 0x32 (drop (1 + k) (publish topic payload pid)) = Publish 1 (Some pid) topic payload"
proof -
  let ?body = "push_str topic @ u16_be pid @ payload"
  let ?k = "length (encode_remaining_len (length ?body))"
  have len: "length ?body = 4 + length topic + length payload" by (simp add: push_str_def u16_be_def)
  have "decode_remaining_len (encode_remaining_len (length ?body) @ ?body) = Some (length ?body, ?k)"
    using decode_encode [of 0 0 "length ?body" ?body] assms(3) unfolding len by (simp add: decode_remaining_len_def)
  then show ?thesis
    using parse_publish [OF assms(1,2), of pid payload]
    by (intro exI [of _ "length ?body"] exI [of _ ?k]) (simp add: publish_def frame_def)
qed

text \<open>
  The length of a topic is stored in 16 bits without a check: a topic of exactly 65536 bytes is
  published with length 0, and the receiver sees an empty topic and the bytes of the topic in the
  packet id and the payload.
\<close>

theorem long_topic_is_lost:
  assumes "length topic = 2 ^ 16" and "topic = a # b # rest"
  shows "parse_pkt 0x32 (push_str topic @ u16_be pid @ payload) =
    Publish 1 (Some (u16_from_be a b)) [] (rest @ u16_be pid @ payload)"
proof -
  have "push_str topic = 0 # 0 # topic" using assms(1) by (simp add: push_str_def u16_be_def)
  moreover have "unat (u16_from_be 0 0) = 0" by (simp add: u16_from_be_def)
  moreover have k: "drop_bit 4 (0x32 :: u8) = 3" "drop_bit 1 (0x32 :: u8) AND 3 = 1" by simp_all
  ultimately show ?thesis by (simp add: parse_pkt_def k Let_def assms(2))
qed

text \<open>Acknowledgements are parsed for every packet id.\<close>

lemma parse_acks:
  "parse_pkt 0x40 (u16_be pid) = PubAck pid" "parse_pkt 0x90 (u16_be pid @ codes) = SubAck pid codes"
proof -
  obtain a b where ab: "u16_be pid = [a, b]" by (simp add: u16_be_def)
  have "drop_bit 4 (0x40 :: u8) = 4" "drop_bit 4 (0x90 :: u8) = 9" by simp_all
  then show "parse_pkt 0x40 (u16_be pid) = PubAck pid" "parse_pkt 0x90 (u16_be pid @ codes) = SubAck pid codes"
    using u16_be_roundtrip [OF ab] by (simp_all add: parse_pkt_def ab get_or_def Let_def)
qed

section \<open>Witnesses\<close>

theorem remaining_len_roundtrip_witness: "length (encode_remaining_len 321) \<le> 4 \<and> decode_remaining_len (encode_remaining_len 321 @ [7]) = Some (321, length (encode_remaining_len 321))"
  using remaining_len_roundtrip [of 321 "[7]"] by simp

theorem remaining_len_bounds_witness: "decode_remaining_len [0xC1, 0x02, 9] = Some (321, 2) \<and> (2 :: nat) \<le> 4"
proof -
  have d: "decode_remaining_len [0xC1, 0x02, 9] = Some (321, 2)" by (simp add: decode_remaining_len_def wadd_def wmul_def)
  with remaining_len_bounds [OF d] show ?thesis by simp
qed

theorem publish_roundtrip_witness:
  "\<exists>n k. decode_remaining_len (tl (publish [0x74] [0x31] 5)) = Some (n, k) \<and>
    parse_pkt 0x32 (drop (1 + k) (publish [0x74] [0x31] 5)) = Publish 1 (Some 5) [0x74] [0x31]"
  using publish_roundtrip [of "[0x74]" "[0x31]" 5] utf8_valid_ascii [of "[0x74]"] by auto

theorem long_topic_is_lost_witness:
  "parse_pkt 0x32 (push_str (1 # 2 # replicate 65534 0) @ u16_be 5 @ []) =
    Publish 1 (Some (u16_from_be 1 2)) [] (replicate 65534 0 @ u16_be 5 @ [])"
proof -
  have "length ((1 :: u8) # 2 # replicate 65534 0) = 2 ^ 16" unfolding list.size length_replicate by simp
  from long_topic_is_lost [OF this refl, of 5 "[]"] show ?thesis .
qed

end
