(* ===== verification/Drt.thy ===== *)
theory Drt
  imports Ustr
begin

unbundle bit_operations_syntax

text \<open>
  The device registry, \<open>kernel/src/capability.rs\<close>, and the table of devices seen on the network,
  \<open>kernel/src/drt.rs\<close>: registration, lookup, the messages and their text format, the time-outs, and
  the table of tools that is given to the planner. Both tables are keyed by device id. Strings are
  their UTF-8 bytes.
\<close>

section \<open>Model: the registry of capabilities\<close>

datatype ty = TyBool | TyI32 | TyI64 | TyF64 | TyStr | TyBytes | TyJson

record field_desc =
  fd_name :: ustr
  fd_type :: ty
  fd_desc :: ustr
  fd_required :: bool

definition PERM_EXEC :: u8 where "PERM_EXEC = 1"
definition PERM_READ :: u8 where "PERM_READ = 2"
definition PERM_WRITE :: u8 where "PERM_WRITE = 4"
definition PERM_CONFIG :: u8 where "PERM_CONFIG = 8"

record tool_desc =
  td_name :: ustr
  td_desc :: ustr
  td_inputs :: "field_desc list"
  td_outputs :: "field_desc list"
  td_perm :: u8

record cap_desc =
  cd_device_id :: ustr
  cd_device_type :: ustr
  cd_version :: u32
  cd_tools :: "tool_desc list"

type_synonym registry = "(cap_desc \<times> bool) list"

definition registered :: "ustr \<Rightarrow> cap_desc \<times> bool \<Rightarrow> bool" where
  "registered device e \<longleftrightarrow> cd_device_id (fst e) = device"

definition register_device :: "cap_desc \<Rightarrow> registry \<Rightarrow> (string + unit) \<times> registry" where
  "register_device desc reg =
    (if \<exists>e \<in> set reg. registered (cd_device_id desc) e then (Inl ''device already registered'', reg)
     else (Inr (), reg @ [(desc, True)]))"

definition set_online :: "ustr \<Rightarrow> bool \<Rightarrow> registry \<Rightarrow> bool \<times> registry" where
  "set_online device online reg =
    (if \<exists>e \<in> set reg. registered device e
     then (True, upd_first (registered device) (\<lambda>(d, _). (d, online)) reg) else (False, reg))"

definition online_devices :: "registry \<Rightarrow> usize" where "online_devices reg = length (filter snd reg)"

definition lookup_desc :: "ustr \<Rightarrow> registry \<Rightarrow> cap_desc option" where
  "lookup_desc device reg = map_option fst (find (registered device) reg)"

definition device_count :: "registry \<Rightarrow> usize" where "device_count reg = length reg"

text \<open>\<open>format!("{}_{}", device_type, name)\<close>, and the order of strings, which is that of their bytes.\<close>

definition tool_label :: "ustr \<Rightarrow> ustr \<Rightarrow> ustr" where "tool_label device_type name = device_type @ [0x5F] @ name"

fun ustr_le :: "ustr \<Rightarrow> ustr \<Rightarrow> bool" where
  "ustr_le [] ys = True"
| "ustr_le (x # xs) [] = False"
| "ustr_le (x # xs) (y # ys) = (x < y \<or> (x = y \<and> ustr_le xs ys))"

fun insert_sorted :: "ustr \<Rightarrow> ustr list \<Rightarrow> ustr list" where
  "insert_sorted x [] = [x]"
| "insert_sorted x (y # ys) = (if ustr_le x y then x # y # ys else y # insert_sorted x ys)"

definition sort_strs :: "ustr list \<Rightarrow> ustr list" where "sort_strs xs = foldr insert_sorted xs []"

definition tool_names :: "registry \<Rightarrow> ustr list" where
  "tool_names reg =
    sort_strs (concat (map (\<lambda>(d, _). map (\<lambda>t. tool_label (cd_device_type d) (td_name t)) (cd_tools d)) reg))"

fun json_kind :: "ty \<Rightarrow> ustr" where
  "json_kind TyBool = bytes ''boolean''"
| "json_kind TyI32 = bytes ''integer''"
| "json_kind TyI64 = bytes ''integer''"
| "json_kind TyF64 = bytes ''number''"
| "json_kind TyStr = bytes ''string''"
| "json_kind TyBytes = bytes ''string''"
| "json_kind TyJson = bytes ''object''"

text \<open>A comma before every item but the first.\<close>

fun comma_separated :: "ustr list \<Rightarrow> ustr" where
  "comma_separated [] = []"
| "comma_separated [x] = x"
| "comma_separated (x # y # zs) = x @ [0x2C] @ comma_separated (y # zs)"

definition quoted :: "ustr \<Rightarrow> ustr" where "quoted s = [0x22] @ s @ [0x22]"

definition write_fields :: "field_desc list \<Rightarrow> ustr" where
  "write_fields fs = comma_separated (map (\<lambda>f.
     quoted (fd_name f) @ [0x3A, 0x7B] @ quoted (bytes ''type'') @ [0x3A] @ quoted (json_kind (fd_type f)) @ [0x2C] @
     quoted (bytes ''description'') @ [0x3A] @ quoted (fd_desc f) @ [0x7D]) fs)"

definition write_required :: "field_desc list \<Rightarrow> ustr" where
  "write_required fs = comma_separated (map (\<lambda>f. quoted (fd_name f)) (filter fd_required fs))"

definition tool_json :: "ustr \<Rightarrow> tool_desc \<Rightarrow> ustr" where
  "tool_json device_type tool =
    [0x7B] @ quoted (bytes ''name'') @ [0x3A] @ quoted (tool_label device_type (td_name tool)) @ [0x2C] @
    quoted (bytes ''description'') @ [0x3A] @ quoted (td_desc tool) @ [0x2C] @
    quoted (bytes ''inputSchema'') @ [0x3A, 0x7B] @ quoted (bytes ''type'') @ [0x3A] @ quoted (bytes ''object'') @ [0x2C] @
    quoted (bytes ''properties'') @ [0x3A, 0x7B] @ write_fields (td_inputs tool) @ [0x7D, 0x2C] @
    quoted (bytes ''required'') @ [0x3A, 0x5B] @ write_required (td_inputs tool) @ [0x5D, 0x7D, 0x2C] @
    quoted (bytes ''outputSchema'') @ [0x3A, 0x7B] @ quoted (bytes ''type'') @ [0x3A] @ quoted (bytes ''object'') @ [0x2C] @
    quoted (bytes ''properties'') @ [0x3A, 0x7B] @ write_fields (td_outputs tool) @ [0x7D, 0x7D, 0x2C] @
    quoted (bytes ''perm'') @ [0x3A] @ decimal (unat (td_perm tool)) @ [0x7D]"

definition field :: "string \<Rightarrow> ty \<Rightarrow> string \<Rightarrow> bool \<Rightarrow> field_desc" where
  "field n t d r = \<lparr>fd_name = bytes n, fd_type = t, fd_desc = bytes d, fd_required = r\<rparr>"

definition tool :: "string \<Rightarrow> string \<Rightarrow> field_desc list \<Rightarrow> field_desc list \<Rightarrow> u8 \<Rightarrow> tool_desc" where
  "tool n d i out p = \<lparr>td_name = bytes n, td_desc = bytes d, td_inputs = i, td_outputs = out, td_perm = p\<rparr>"

definition VFS_TOOLS :: "tool_desc list" where
  "VFS_TOOLS =
    [tool ''read'' ''read bytes from a file''
       [field ''path'' TyStr ''absolute path'' True, field ''len'' TyI32 ''max bytes'' False]
       [field ''data'' TyBytes ''file bytes'' True] (PERM_READ OR PERM_EXEC),
     tool ''write'' ''write bytes to a file (create if missing)''
       [field ''path'' TyStr ''absolute path'' True, field ''data'' TyBytes ''bytes to write'' True]
       [field ''written'' TyI32 ''bytes written'' True] PERM_WRITE,
     tool ''ls'' ''list directory entries''
       [field ''path'' TyStr ''directory path'' False] [field ''entries'' TyJson ''name list'' True] PERM_READ]"

definition TIMER_TOOLS :: "tool_desc list" where
  "TIMER_TOOLS =
    [tool ''sleep_until'' ''yield until wallclock reaches unix_ms''
       [field ''unix_ms'' TyI64 ''target time'' True] [field ''woke'' TyBool ''always true on return'' True] PERM_EXEC,
     tool ''sleep_ms'' ''relative delay in milliseconds''
       [field ''ms'' TyI32 ''delay'' True] [field ''woke'' TyBool ''always true on return'' True] PERM_EXEC]"

definition GPIO_TOOLS :: "tool_desc list" where
  "GPIO_TOOLS =
    [tool ''write'' ''set virtual gpio level''
       [field ''pin'' TyI32 ''pin number'' True, field ''value'' TyBool ''level'' True] [] PERM_WRITE,
     tool ''read'' ''read virtual gpio level''
       [field ''pin'' TyI32 ''pin number'' True] [field ''value'' TyBool ''level'' True] PERM_READ]"

definition builtin :: "string \<Rightarrow> string \<Rightarrow> tool_desc list \<Rightarrow> cap_desc" where
  "builtin i t tools = \<lparr>cd_device_id = bytes i, cd_device_type = bytes t, cd_version = 1, cd_tools = tools\<rparr>"

definition register_builtin_devices :: "registry \<Rightarrow> registry" where
  "register_builtin_devices reg =
    snd (register_device (builtin ''gpio0'' ''gpio'' GPIO_TOOLS)
      (snd (register_device (builtin ''timer0'' ''timer'' TIMER_TOOLS)
        (snd (register_device (builtin ''vfs0'' ''vfs'' VFS_TOOLS) reg)))))"

section \<open>Model: the device table\<close>

datatype dev_state = Online | Stale | Offline

record drt_entry =
  de_desc :: cap_desc
  de_state :: dev_state
  de_last_seen :: u64

definition HEARTBEAT_TIMEOUT_MS :: u64 where "HEARTBEAT_TIMEOUT_MS = 1500"
definition STALE_TIMEOUT_MS :: u64 where "STALE_TIMEOUT_MS = 3000"

type_synonym drt = "drt_entry list"

definition known :: "ustr \<Rightarrow> drt_entry \<Rightarrow> bool" where "known device e \<longleftrightarrow> cd_device_id (de_desc e) = device"

definition announce :: "cap_desc \<Rightarrow> u64 \<Rightarrow> drt \<Rightarrow> bool \<times> drt" where
  "announce desc now_ms t =
    (if \<exists>e \<in> set t. known (cd_device_id desc) e
     then (False, upd_first (known (cd_device_id desc)) (\<lambda>e. e\<lparr>de_state := Online, de_last_seen := now_ms\<rparr>) t)
     else (True, t @ [\<lparr>de_desc = desc, de_state = Online, de_last_seen = now_ms\<rparr>]))"

definition heartbeat :: "ustr \<Rightarrow> u64 \<Rightarrow> drt \<Rightarrow> bool \<times> drt" where
  "heartbeat device now_ms t =
    (case find (known device) t of
       Some e \<Rightarrow> (de_state e \<noteq> Online, upd_first (known device) (\<lambda>e. e\<lparr>de_state := Online, de_last_seen := now_ms\<rparr>) t)
     | None \<Rightarrow> (False, t))"

definition bye :: "ustr \<Rightarrow> drt \<Rightarrow> bool \<times> drt" where
  "bye device t =
    (case find (known device) t of
       Some e \<Rightarrow> (de_state e \<noteq> Offline, upd_first (known device) (\<lambda>e. e\<lparr>de_state := Offline\<rparr>) t)
     | None \<Rightarrow> (False, t))"

definition saturating_sub :: "u64 \<Rightarrow> u64 \<Rightarrow> u64" where "saturating_sub a b = (if a < b then 0 else a - b)"

definition tick_entry :: "u64 \<Rightarrow> drt_entry \<Rightarrow> bool \<times> drt_entry" where
  "tick_entry now_ms e =
    (let age = saturating_sub now_ms (de_last_seen e) in
     case de_state e of
       Online \<Rightarrow> if age \<ge> HEARTBEAT_TIMEOUT_MS then (True, e\<lparr>de_state := Stale\<rparr>) else (False, e)
     | Stale \<Rightarrow> if age \<ge> HEARTBEAT_TIMEOUT_MS + STALE_TIMEOUT_MS then (True, e\<lparr>de_state := Offline\<rparr>) else (False, e)
     | Offline \<Rightarrow> (False, e))"

definition tick :: "u64 \<Rightarrow> drt \<Rightarrow> usize \<times> drt" where
  "tick now_ms t = (length (filter (\<lambda>e. fst (tick_entry now_ms e)) t), map (\<lambda>e. snd (tick_entry now_ms e)) t)"

definition discoverable :: "drt \<Rightarrow> ustr list" where
  "discoverable t = map (\<lambda>e. cd_device_id (de_desc e)) (filter (\<lambda>e. de_state e \<noteq> Offline) t)"

definition offline_devices :: "drt \<Rightarrow> ustr list" where
  "offline_devices t = map (\<lambda>e. cd_device_id (de_desc e)) (filter (\<lambda>e. de_state e = Offline) t)"

definition parse_wire :: "u8 list \<Rightarrow> (u8 \<times> ustr) option" where
  "parse_wire msg =
    (if \<not> utf8_valid msg then None
     else (case split_at 0x7C msg of
       [tag, verb, device, sq] \<Rightarrow>
         if tag \<noteq> bytes ''KRT1'' then None
         else if verb = bytes ''A'' \<or> verb = bytes ''H'' \<or> verb = bytes ''B'' then
           (case parse_u64 sq of Some _ \<Rightarrow> Some (hd verb, device) | None \<Rightarrow> None)
         else None
     | _ \<Rightarrow> None))"

text \<open>\<open>verb as char\<close> printed as UTF-8.\<close>

definition char_utf8 :: "u8 \<Rightarrow> ustr" where
  "char_utf8 v = (if v < 0x80 then [v] else [0xC0 OR drop_bit 6 v, 0x80 OR (v AND 0x3F)])"

definition make_wire :: "u8 \<Rightarrow> ustr \<Rightarrow> u64 \<Rightarrow> u8 list" where
  "make_wire verb device sq = bytes ''KRT1|'' @ char_utf8 verb @ [0x7C] @ device @ [0x7C] @ decimal (unat sq)"

definition ends_with :: "ustr \<Rightarrow> ustr \<Rightarrow> bool" where
  "ends_with s suffix \<longleftrightarrow> length suffix \<le> length s \<and> drop (length s - length suffix) s = suffix"

record drt_world =
  dw_registry :: registry
  dw_table :: drt
  dw_seq :: u64

definition bump_table_seq :: "drt_world \<Rightarrow> drt_world" where "bump_table_seq w = w\<lparr>dw_seq := dw_seq w + 1\<rparr>"

definition REMOTE_DESC :: cap_desc where
  "REMOTE_DESC = \<lparr>cd_device_id = bytes ''remote'', cd_device_type = bytes ''remote'', cd_version = 1, cd_tools = []\<rparr>"

definition handle_wire :: "u8 list \<Rightarrow> u64 \<Rightarrow> drt_world \<Rightarrow> bool \<times> drt_world" where
  "handle_wire msg now_ms w =
    (case parse_wire msg of
       None \<Rightarrow> (False, w)
     | Some (verb, device) \<Rightarrow>
         if verb = 0x41 then
           (case (case lookup_desc device (dw_registry w) of
                    Some d \<Rightarrow> Some d
                  | None \<Rightarrow> if \<not> ends_with device (bytes ''-node'') then None else Some REMOTE_DESC) of
              None \<Rightarrow> (False, w)
            | Some desc \<Rightarrow>
                let (is_new, t) = announce desc now_ms (dw_table w); w1 = w\<lparr>dw_table := t\<rparr>
                in (is_new, if is_new then bump_table_seq w1 else w1))
         else if verb = 0x48 then
           (let (ch, t) = heartbeat device now_ms (dw_table w); w1 = w\<lparr>dw_table := t\<rparr>
            in if ch then (True, bump_table_seq w1) else (False, w1))
         else if verb = 0x42 then
           (let (ch, t) = bye device (dw_table w); w1 = w\<lparr>dw_table := t\<rparr>
            in if ch then (True, bump_table_seq w1) else (False, w1))
         else (False, w))"

record tool_table_snapshot =
  ts_seq :: u64
  ts_tools :: "ustr list"
  ts_devices :: "ustr list"

definition tool_table :: "drt_world \<Rightarrow> tool_table_snapshot" where
  "tool_table w =
    (let es = filter (\<lambda>e. de_state e \<noteq> Offline) (dw_table w)
     in \<lparr>ts_seq = dw_seq w,
         ts_tools = sort_strs (concat (map (\<lambda>e. map (\<lambda>t. tool_label (cd_device_type (de_desc e)) (td_name t)) (cd_tools (de_desc e))) es)),
         ts_devices = remdups_adj (sort_strs (map (\<lambda>e. cd_device_type (de_desc e)) es))\<rparr>)"

section \<open>Both tables are keyed by device id\<close>

interpretation devices: keyed_table registered
  by unfold_locales (simp add: registered_def)

interpretation seen: keyed_table known
  by unfold_locales (simp add: known_def)

definition drt_map :: "drt \<Rightarrow> ustr \<Rightarrow> (dev_state \<times> u64) option" where
  "drt_map t dev = map_option (\<lambda>e. (de_state e, de_last_seen e)) (find (known dev) t)"

definition tick_state :: "u64 \<Rightarrow> dev_state \<times> u64 \<Rightarrow> dev_state \<times> u64" where
  "tick_state now = (\<lambda>(s, seen).
    let age = saturating_sub now seen in
    (if s = Online \<and> age \<ge> 1500 then Stale else if s = Stale \<and> age \<ge> 4500 then Offline else s, seen))"

lemma known_update [simp]:
  "known dev (e\<lparr>de_state := s\<rparr>) = known dev e" "known dev (e\<lparr>de_last_seen := l\<rparr>) = known dev e"
  by (simp_all add: known_def)

lemma tick_entry_known: "known dev (snd (tick_entry now e)) = known dev e"
  by (simp add: tick_entry_def Let_def split: dev_state.split)

lemma tick_entry_state:
  "(de_state (snd (tick_entry now e)), de_last_seen (snd (tick_entry now e))) = tick_state now (de_state e, de_last_seen e)"
  by (simp add: tick_entry_def tick_state_def HEARTBEAT_TIMEOUT_MS_def STALE_TIMEOUT_MS_def Let_def split: dev_state.split)

lemma find_map_keyed: "(\<And>x. P (f x) = P x) \<Longrightarrow> find P (map f xs) = map_option f (find P xs)"
  by (induction xs) auto

lemma drt_map_announce:
  "drt_map (snd (announce desc now t)) = (drt_map t)(cd_device_id desc \<mapsto> (Online, now))"
  "fst (announce desc now t) \<longleftrightarrow> drt_map t (cd_device_id desc) = None"
proof -
  let ?k = "cd_device_id desc" and ?f = "\<lambda>e. e\<lparr>de_state := Online, de_last_seen := now\<rparr>"
  have ex: "(\<exists>e \<in> set t. known ?k e) \<longleftrightarrow> find (known ?k) t \<noteq> None" by (simp only: find_Some_iff_ex)
  show "fst (announce desc now t) \<longleftrightarrow> drt_map t ?k = None" unfolding announce_def ex by (simp add: drt_map_def)
  show "drt_map (snd (announce desc now t)) = (drt_map t)(?k \<mapsto> (Online, now))"
  proof (cases "find (known ?k) t")
    case None
    then show ?thesis
      using seen.get_push [of ?k "\<lparr>de_desc = desc, de_state = Online, de_last_seen = now\<rparr>" t]
      unfolding announce_def ex by (auto simp: fun_eq_iff drt_map_def known_def)
  next
    case (Some e)
    then show ?thesis
      using seen.get_upd_kept [of ?f _ ?k t] unfolding announce_def ex by (auto simp: fun_eq_iff drt_map_def)
  qed
qed

lemma drt_map_heartbeat:
  "drt_map (snd (heartbeat dev now t)) = (drt_map t)(dev := map_option (\<lambda>_. (Online, now)) (drt_map t dev))"
  "fst (heartbeat dev now t) \<longleftrightarrow> (\<exists>s seen. drt_map t dev = Some (s, seen) \<and> s \<noteq> Online)"
  using seen.get_upd_kept [of "\<lambda>e. e\<lparr>de_state := Online, de_last_seen := now\<rparr>" _ dev t]
  by (cases "find (known dev) t"; auto simp: heartbeat_def fun_eq_iff drt_map_def)+

lemma drt_map_bye:
  "drt_map (snd (bye dev t)) = (drt_map t)(dev := map_option (\<lambda>(_, seen). (Offline, seen)) (drt_map t dev))"
  "fst (bye dev t) \<longleftrightarrow> (\<exists>s seen. drt_map t dev = Some (s, seen) \<and> s \<noteq> Offline)"
  using seen.get_upd_kept [of "\<lambda>e. e\<lparr>de_state := Offline\<rparr>" _ dev t]
  by (cases "find (known dev) t"; auto simp: bye_def fun_eq_iff drt_map_def)+

lemma drt_map_tick: "drt_map (snd (tick now t)) = (\<lambda>dev. map_option (tick_state now) (drt_map t dev))"
proof
  fix dev
  have "find (known dev) (map (\<lambda>e. snd (tick_entry now e)) t) = map_option (\<lambda>e. snd (tick_entry now e)) (find (known dev) t)"
    by (rule find_map_keyed) (simp add: tick_entry_known)
  then show "drt_map (snd (tick now t)) dev = map_option (tick_state now) (drt_map t dev)"
    by (cases "find (known dev) t") (simp_all add: tick_def drt_map_def tick_entry_state)
qed

text \<open>
  C34: The device table is a map from device ids to a state and a time. An announcement puts its device
  online at the current time and reports whether it is new; a heartbeat does so only for a known
  device and reports whether it was not online; a goodbye puts a known device offline; a tick moves
  every device along its time-outs. No operation touches another device.
\<close>

theorem drt_refines_map:
  "drt_map (snd (announce desc now t)) = (drt_map t)(cd_device_id desc \<mapsto> (Online, now)) \<and>
   (fst (announce desc now t) \<longleftrightarrow> drt_map t (cd_device_id desc) = None) \<and>
   drt_map (snd (heartbeat dev now t)) = (drt_map t)(dev := map_option (\<lambda>_. (Online, now)) (drt_map t dev)) \<and>
   (fst (heartbeat dev now t) \<longleftrightarrow> (\<exists>s seen. drt_map t dev = Some (s, seen) \<and> s \<noteq> Online)) \<and>
   drt_map (snd (bye dev t)) = (drt_map t)(dev := map_option (\<lambda>(_, seen). (Offline, seen)) (drt_map t dev)) \<and>
   (fst (bye dev t) \<longleftrightarrow> (\<exists>s seen. drt_map t dev = Some (s, seen) \<and> s \<noteq> Offline)) \<and>
   drt_map (snd (tick now t)) = (\<lambda>dev. map_option (tick_state now) (drt_map t dev))"
  by (intro conjI drt_map_announce drt_map_heartbeat drt_map_bye drt_map_tick)

section \<open>Time-outs\<close>

lemma saturating_sub_unat: "unat (saturating_sub a b) = unat a - unat b"
  by (auto simp: saturating_sub_def word_less_nat_alt unat_sub not_less word_le_nat_alt)

definition age :: "u64 \<Rightarrow> u64 \<Rightarrow> nat" where "age seen now = unat now - unat seen"

lemma tick_state_eq:
  "tick_state now (s, seen) =
    (if s = Online \<and> age seen now \<ge> 1500 then Stale else if s = Stale \<and> age seen now \<ge> 4500 then Offline else s, seen)"
  by (simp add: tick_state_def Let_def word_le_nat_alt saturating_sub_unat age_def)

lemma ticks_from_stale:
  "fst (fold tick_state ts (Stale, seen)) = (if \<exists>u \<in> set ts. age seen u \<ge> 4500 then Offline else Stale)
   \<and> fst (fold tick_state ts (Offline, seen)) = Offline"
  by (induction ts) (auto simp: tick_state_eq)

lemma ticks_from_online:
  "fst (fold tick_state ts (Online, seen)) =
    (case dropWhile (\<lambda>u. age seen u < 1500) ts of
       [] \<Rightarrow> Online
     | _ # later \<Rightarrow> if \<exists>u \<in> set later. age seen u \<ge> 4500 then Offline else Stale)"
  by (induction ts) (auto simp: tick_state_eq ticks_from_stale)

lemma drt_map_ticks: "drt_map (fold (\<lambda>now t. snd (tick now t)) ts t) dev = map_option (fold tick_state ts) (drt_map t dev)"
  by (induction ts arbitrary: t) (simp_all add: drt_map_tick option.map_comp comp_def option.map_ident id_def)

lemma dropWhile_split:
  "(\<exists>i j. i < j \<and> j < length ts \<and> \<not> P (ts ! i) \<and> Q (ts ! j)) \<longleftrightarrow>
   (case dropWhile P ts of [] \<Rightarrow> False | _ # later \<Rightarrow> \<exists>u \<in> set later. Q u)"
proof (induction ts)
  case (Cons a ts)
  show ?case
  proof (cases "P a")
    case True
    have "(\<exists>i j. i < j \<and> j < length (a # ts) \<and> \<not> P ((a # ts) ! i) \<and> Q ((a # ts) ! j)) \<longleftrightarrow>
      (\<exists>i j. i < j \<and> j < length ts \<and> \<not> P (ts ! i) \<and> Q (ts ! j))" (is "?l \<longleftrightarrow> ?r")
    proof
      assume ?l
      then obtain i j where "i < j" "j < length (a # ts)" "\<not> P ((a # ts) ! i)" "Q ((a # ts) ! j)" by blast
      with True show ?r by (intro exI [of _ "i - 1"] exI [of _ "j - 1"]) (cases i; cases j; simp)
    next
      assume ?r
      then obtain i j where "i < j" "j < length ts" "\<not> P (ts ! i)" "Q (ts ! j)" by blast
      then show ?l by (intro exI [of _ "Suc i"] exI [of _ "Suc j"]) simp
    qed
    with True Cons.IH show ?thesis by simp
  next
    case False
    have "(\<exists>i j. i < j \<and> j < length (a # ts) \<and> \<not> P ((a # ts) ! i) \<and> Q ((a # ts) ! j)) \<longleftrightarrow> (\<exists>u \<in> set ts. Q u)"
    proof
      assume "\<exists>i j. i < j \<and> j < length (a # ts) \<and> \<not> P ((a # ts) ! i) \<and> Q ((a # ts) ! j)"
      then obtain i j where "i < j" "j < length (a # ts)" "Q ((a # ts) ! j)" by blast
      then show "\<exists>u \<in> set ts. Q u" by (cases j) auto
    next
      assume "\<exists>u \<in> set ts. Q u"
      then obtain k where "k < length ts" "Q (ts ! k)" by (auto simp: in_set_conv_nth)
      with False show "\<exists>i j. i < j \<and> j < length (a # ts) \<and> \<not> P ((a # ts) ! i) \<and> Q ((a # ts) ! j)"
        by (intro exI [of _ 0] exI [of _ "Suc k"]) simp
    qed
    with False show ?thesis by simp
  qed
qed simp

lemma offline_after_ticks:
  assumes "drt_map t dev = Some (Online, seen)"
  shows "(\<exists>l. drt_map (fold (\<lambda>now t. snd (tick now t)) ts t) dev = Some (Offline, l)) \<longleftrightarrow>
    (\<exists>i j. i < j \<and> j < length ts \<and> 1500 \<le> unat (ts ! i) - unat seen \<and> 4500 \<le> unat (ts ! j) - unat seen)"
proof -
  have "(\<exists>l. drt_map (fold (\<lambda>now t. snd (tick now t)) ts t) dev = Some (Offline, l)) \<longleftrightarrow>
    fst (fold tick_state ts (Online, seen)) = Offline"
    using assms by (cases "fold tick_state ts (Online, seen)") (simp add: drt_map_ticks)
  also have "\<dots> \<longleftrightarrow> (case dropWhile (\<lambda>u. age seen u < 1500) ts of [] \<Rightarrow> False | _ # later \<Rightarrow> \<exists>u \<in> set later. age seen u \<ge> 4500)"
    unfolding ticks_from_online by (cases "dropWhile (\<lambda>u. age seen u < 1500) ts") (simp_all del: dropWhile_eq_Nil_conv)
  also have "\<dots> \<longleftrightarrow> (\<exists>i j. i < j \<and> j < length ts \<and> \<not> age seen (ts ! i) < 1500 \<and> age seen (ts ! j) \<ge> 4500)"
    using dropWhile_split [of ts "\<lambda>u. age seen u < 1500" "\<lambda>u. age seen u \<ge> 4500"] by simp
  finally show ?thesis by (simp add: age_def not_less)
qed

text \<open>
  C35: The loss of a device is reported later than the comments and a test of the registry promise. The
  timeouts are 1.5 seconds from online to stale and 3 more from stale to offline, and one tick
  makes at most one of these changes. So a device that was last seen online and then is silent
  is offline after a series of ticks exactly if a tick has come at least 1.5 seconds and a later one
  at least 4.5 seconds after it was seen. Ticks within the promised 3 seconds never take it
  offline, and neither does a single tick, however late.
\<close>

theorem silence_reported_late:
  assumes "drt_map t dev = Some (Online, seen)"
  shows "((\<exists>l. drt_map (fold (\<lambda>now t. snd (tick now t)) ts t) dev = Some (Offline, l)) \<longleftrightarrow>
      (\<exists>i j. i < j \<and> j < length ts \<and> 1500 \<le> unat (ts ! i) - unat seen \<and> 4500 \<le> unat (ts ! j) - unat seen)) \<and>
    ((\<forall>now \<in> set ts. unat now \<le> unat seen + 3000) \<longrightarrow>
      \<not> (\<exists>l. drt_map (fold (\<lambda>now t. snd (tick now t)) ts t) dev = Some (Offline, l))) \<and>
    \<not> (\<exists>l. drt_map (snd (tick now t)) dev = Some (Offline, l))"
proof (intro conjI impI)
  note off = offline_after_ticks [OF assms]
  show "(\<exists>l. drt_map (fold (\<lambda>now t. snd (tick now t)) ts t) dev = Some (Offline, l)) \<longleftrightarrow>
      (\<exists>i j. i < j \<and> j < length ts \<and> 1500 \<le> unat (ts ! i) - unat seen \<and> 4500 \<le> unat (ts ! j) - unat seen)"
    by (rule off)
  assume "\<forall>now \<in> set ts. unat now \<le> unat seen + 3000"
  then show "\<not> (\<exists>l. drt_map (fold (\<lambda>now t. snd (tick now t)) ts t) dev = Some (Offline, l))"
    unfolding off by (auto dest!: bspec [OF _ nth_mem])
next
  show "\<not> (\<exists>l. drt_map (snd (tick now t)) dev = Some (Offline, l))"
    using offline_after_ticks [OF assms, of "[now]"] by simp
qed

section \<open>Messages\<close>

lemma wire_tag: "bytes ''KRT1|'' = bytes ''KRT1'' @ [0x7C]" "0x7C \<notin> set (bytes ''KRT1'')" "utf8_valid (bytes ''KRT1|'')"
proof -
  show "bytes ''KRT1|'' = bytes ''KRT1'' @ [0x7C]" "0x7C \<notin> set (bytes ''KRT1'')" by (simp_all add: bytes_def)
  show "utf8_valid (bytes ''KRT1|'')" by (rule utf8_valid_ascii) (simp add: bytes_def)
qed

lemma parse_make_wire:
  assumes "verb \<in> {0x41, 0x48, 0x42}" and "utf8_valid dev" and "0x7C \<notin> set dev"
  shows "parse_wire (make_wire verb dev sq) = Some (verb, dev)"
proof -
  let ?d = "decimal (unat sq)"
  have v: "verb < 0x80" "char_utf8 verb = [verb]" "0x7C \<notin> set [verb]" using assms(1) by (auto simp: char_utf8_def)
  have d: "0x7C \<notin> set ?d" "utf8_valid ?d"
    using decimal_facts [of "unat sq"] digit_not by (auto simp: list_all_iff intro: utf8_valid_ascii)
  have "utf8_valid [verb]" "utf8_valid [0x7C]" using v(1) by (auto intro!: utf8_valid_ascii)
  then have valid: "utf8_valid (make_wire verb dev sq)"
    unfolding make_wire_def v(2) using wire_tag(3) assms(2) d(2) by (intro utf8_valid_append)
  have "make_wire verb dev sq = bytes ''KRT1'' @ 0x7C # [verb] @ 0x7C # dev @ 0x7C # ?d"
    by (simp add: make_wire_def wire_tag(1) v(2))
  then have split: "split_at 0x7C (make_wire verb dev sq) = [bytes ''KRT1'', [verb], dev, ?d]"
    by (simp only: split_at_append [OF wire_tag(2)] split_at_append [OF v(3)] split_at_append [OF assms(3)] split_at_word [OF d(1)])
  have "parse_u64 ?d \<noteq> None" by (subst parse_decimal) (use unsigned_less [of sq] in simp_all)
  moreover have "[verb] = bytes ''A'' \<or> [verb] = bytes ''H'' \<or> [verb] = bytes ''B''" using assms(1) by (auto simp: bytes_def)
  ultimately show ?thesis unfolding parse_wire_def split using valid by (cases "parse_u64 ?d") simp_all
qed

text \<open>
  A message of the three kinds for any device id without the separator parses back to its kind and
  device id, for every sequence number.
\<close>

theorem wire_roundtrip:
  assumes "verb \<in> {0x41, 0x48, 0x42}" and "utf8_valid dev" and "0x7C \<notin> set dev"
  shows "parse_wire (make_wire verb dev sq) = Some (verb, dev)"
  using assms by (rule parse_make_wire)

text \<open>
  A peer node is entered under the id \<open>remote\<close> and not under its own: its announcement is accepted,
  but its heartbeats and its goodbye change nothing, and the announcement of a second node only
  refreshes the entry of the first.
\<close>

theorem remote_nodes_share_entry:
  assumes "utf8_valid dev" and "0x7C \<notin> set dev" and "ends_with dev (bytes ''-node'')" and "lookup_desc dev (dw_registry w) = None"
    and "drt_map (dw_table w) dev = None" and "drt_map (dw_table w) (bytes ''remote'') = None" and "dev \<noteq> bytes ''remote''"
    and "utf8_valid dev'" and "0x7C \<notin> set dev'" and "ends_with dev' (bytes ''-node'')" and "lookup_desc dev' (dw_registry w) = None"
    and "w1 = snd (handle_wire (make_wire 0x41 dev sq) now w)"
  shows "fst (handle_wire (make_wire 0x41 dev sq) now w) \<and> drt_map (dw_table w1) dev = None \<and>
    handle_wire (make_wire 0x48 dev sq') now' w1 = (False, w1) \<and> handle_wire (make_wire 0x42 dev sq') now' w1 = (False, w1) \<and>
    \<not> fst (handle_wire (make_wire 0x41 dev' sq') now' w1) \<and>
    drt_map (dw_table (snd (handle_wire (make_wire 0x41 dev' sq') now' w1))) = (drt_map (dw_table w1))(bytes ''remote'' \<mapsto> (Online, now'))"
proof -
  note p = parse_make_wire [OF _ assms(1,2)] and p' = parse_make_wire [OF _ assms(8,9)]
  let ?t = "snd (announce REMOTE_DESC now (dw_table w))"
  have id: "cd_device_id REMOTE_DESC = bytes ''remote''" by (simp add: REMOTE_DESC_def)
  have new: "fst (announce REMOTE_DESC now (dw_table w))" using assms(6) by (simp add: drt_map_announce id)
  have m: "drt_map ?t = (drt_map (dw_table w))(bytes ''remote'' \<mapsto> (Online, now))" by (simp add: drt_map_announce id)
  have h: "handle_wire (make_wire 0x41 dev sq) now w = (True, bump_table_seq (w\<lparr>dw_table := ?t\<rparr>))"
    using new assms(3,4) by (cases "announce REMOTE_DESC now (dw_table w)") (simp add: handle_wire_def p)
  then have w1: "dw_table w1 = ?t" "dw_registry w1 = dw_registry w" by (simp_all add: assms(12) bump_table_seq_def)
  have "drt_map ?t dev = None" using m assms(5,7) by simp
  then have none: "find (known dev) ?t = None" by (simp add: drt_map_def)
  have old: "\<not> fst (announce REMOTE_DESC now' ?t)" using m by (simp add: drt_map_announce id)
  have again: "drt_map (snd (announce REMOTE_DESC now' ?t)) = (drt_map ?t)(bytes ''remote'' \<mapsto> (Online, now'))"
    by (simp add: drt_map_announce id)
  have keep: "w1\<lparr>dw_table := ?t\<rparr> = w1" using w1(1) by simp
  show ?thesis
    using h none old again keep w1 m assms(5,7,10,11)
    by (cases "announce REMOTE_DESC now' ?t")
      (simp add: handle_wire_def p p' heartbeat_def bye_def Let_def)
qed

text \<open>
  The version of the tool table misses changes of the table: when a device that is offline announces
  itself again, it becomes discoverable, but the announcement reports nothing new and the version
  number stays, although every change is said to increase it.
\<close>

theorem return_of_device_not_counted:
  assumes "utf8_valid dev" and "0x7C \<notin> set dev" and "lookup_desc dev (dw_registry w) = Some desc" and "cd_device_id desc = dev"
    and "drt_map (dw_table w) dev = Some (Offline, seen)" and "handle_wire (make_wire 0x41 dev sq) now w = (r, w')"
  shows "\<not> r \<and> dw_seq w' = dw_seq w \<and> drt_map (dw_table w') dev = Some (Online, now)"
proof -
  have "\<not> fst (announce desc now (dw_table w))" using assms(4,5) by (simp add: drt_map_announce)
  moreover have "drt_map (snd (announce desc now (dw_table w))) dev = Some (Online, now)" using assms(4) by (simp add: drt_map_announce)
  ultimately show ?thesis
    using assms(3,6) parse_make_wire [OF _ assms(1,2), of "0x41" sq]
    by (cases "announce desc now (dw_table w)") (auto simp: handle_wire_def)
qed

section \<open>Registration\<close>

lemma registered_eq: "registered dev (d, b) \<longleftrightarrow> cd_device_id d = dev"
  by (simp add: registered_def)

text \<open>
  Registration keeps one entry per device id: a first registration is found under its id and leaves
  every other lookup alone, a second one is refused and changes nothing, and switching a device on
  or off changes no description.
\<close>

theorem registry_lookup:
  assumes "devices.one_per_key reg"
  shows "(case register_device desc reg of
       (Inr _, reg') \<Rightarrow> lookup_desc (cd_device_id desc) reg = None \<and> devices.one_per_key reg' \<and>
         lookup_desc dev reg' = (if dev = cd_device_id desc then Some desc else lookup_desc dev reg)
     | (Inl _, reg') \<Rightarrow> lookup_desc (cd_device_id desc) reg \<noteq> None \<and> reg' = reg) \<and>
    devices.one_per_key (snd (set_online dev' b reg)) \<and> lookup_desc dev (snd (set_online dev' b reg)) = lookup_desc dev reg"
proof -
  let ?k = "cd_device_id desc"
  have ex: "(\<exists>e \<in> set reg. registered k e) \<longleftrightarrow> find (registered k) reg \<noteq> None" for k by (simp only: find_Some_iff_ex)
  have one: "devices.one_per_key (reg @ [(desc, True)])" if "find (registered ?k) reg = None"
    using that by (intro devices.one_per_key_push [OF assms]) (simp add: registered_eq)
  have up: "devices.one_per_key (upd_first (registered dev') (\<lambda>(d, _). (d, b)) reg)"
    by (rule devices.one_per_key_upd [OF assms]) (auto simp: registered_def)
  have "map_option fst (find (registered dev) (upd_first (registered dev') (\<lambda>(d, _). (d, b)) reg)) = lookup_desc dev reg"
    using devices.get_upd_kept [of "\<lambda>(d, _). (d, b)" dev dev' reg]
    by (cases "find (registered dev') reg") (auto simp: registered_def lookup_desc_def)
  with up have "devices.one_per_key (snd (set_online dev' b reg)) \<and> lookup_desc dev (snd (set_online dev' b reg)) = lookup_desc dev reg"
    using assms by (simp add: set_online_def lookup_desc_def)
  moreover have "map_option fst (find (registered dev) (reg @ [(desc, True)])) =
      (if dev = ?k then Some desc else lookup_desc dev reg)" if "find (registered ?k) reg = None"
    using devices.get_push [of ?k "(desc, True)" reg dev] that by (simp add: registered_eq lookup_desc_def)
  ultimately show ?thesis
    unfolding register_device_def ex using one by (cases "find (registered ?k) reg") (simp_all add: lookup_desc_def)
qed

section \<open>Witnesses\<close>

definition demo_devices :: registry where "demo_devices = register_builtin_devices []"

lemma demo_devices_lookup:
  "lookup_desc (bytes ''vfs0'') demo_devices = Some (builtin ''vfs0'' ''vfs'' VFS_TOOLS)"
  "lookup_desc (bytes ''b-node'') demo_devices = None" "lookup_desc (bytes ''c-node'') demo_devices = None"
  by (simp_all add: demo_devices_def register_builtin_devices_def register_device_def registered_def builtin_def lookup_desc_def
      bytes_def)

lemma demo_names: "utf8_valid (bytes ''b-node'')" "utf8_valid (bytes ''c-node'')" "utf8_valid (bytes ''vfs0'')"
  by (rule utf8_valid_ascii; simp add: bytes_def)+

definition demo_entry :: drt_entry where
  "demo_entry = \<lparr>de_desc = builtin ''vfs0'' ''vfs'' VFS_TOOLS, de_state = Offline, de_last_seen = 7\<rparr>"

theorem silence_reported_late_witness:
  "(\<exists>l. drt_map (fold (\<lambda>now t. snd (tick now t)) [2000, 5000] [demo_entry\<lparr>de_state := Online\<rparr>]) (bytes ''vfs0'') = Some (Offline, l)) \<and>
   \<not> (\<exists>l. drt_map (snd (tick 9000 [demo_entry\<lparr>de_state := Online\<rparr>])) (bytes ''vfs0'') = Some (Offline, l))"
proof -
  have m: "drt_map [demo_entry\<lparr>de_state := Online\<rparr>] (bytes ''vfs0'') = Some (Online, 7)"
    by (simp add: drt_map_def known_def demo_entry_def builtin_def)
  have "\<exists>i j. i < j \<and> j < length [2000, 5000 :: u64] \<and> 1500 \<le> unat ([2000, 5000 :: u64] ! i) - unat (7 :: u64) \<and>
      4500 \<le> unat ([2000, 5000 :: u64] ! j) - unat (7 :: u64)"
    by (intro exI [of _ 0] exI [of _ 1]) simp
  then show ?thesis using silence_reported_late [OF m, of "[2000, 5000]" 9000] by blast
qed

theorem wire_roundtrip_witness: "parse_wire (make_wire 0x48 (bytes ''vfs0'') 3) = Some (0x48, bytes ''vfs0'')"
  using wire_roundtrip [OF _ demo_names(3), of "0x48" 3] by (simp add: bytes_def)

theorem remote_nodes_share_entry_witness:
  "\<exists>w1. w1 = snd (handle_wire (make_wire 0x41 (bytes ''b-node'') 1) 5 \<lparr>dw_registry = demo_devices, dw_table = [], dw_seq = 0\<rparr>) \<and>
     handle_wire (make_wire 0x48 (bytes ''b-node'') 2) 6 w1 = (False, w1)"
  using remote_nodes_share_entry [OF demo_names(1), of "\<lparr>dw_registry = demo_devices, dw_table = [], dw_seq = 0\<rparr>" "bytes ''c-node''" _ 1 5 2 6]
    demo_devices_lookup demo_names
  by (simp add: bytes_def ends_with_def drt_map_def)

theorem return_of_device_not_counted_witness:
  "\<exists>r w'. handle_wire (make_wire 0x41 (bytes ''vfs0'') 1) 50 \<lparr>dw_registry = demo_devices, dw_table = [demo_entry], dw_seq = 9\<rparr> = (r, w') \<and>
     \<not> r \<and> dw_seq w' = 9"
proof -
  let ?w = "\<lparr>dw_registry = demo_devices, dw_table = [demo_entry], dw_seq = 9\<rparr>"
  obtain r w' where h: "handle_wire (make_wire 0x41 (bytes ''vfs0'') 1) 50 ?w = (r, w')" by fastforce
  have m: "drt_map (dw_table ?w) (bytes ''vfs0'') = Some (Offline, 7)" by (simp add: drt_map_def known_def demo_entry_def builtin_def)
  have l: "lookup_desc (bytes ''vfs0'') (dw_registry ?w) = Some (builtin ''vfs0'' ''vfs'' VFS_TOOLS)" using demo_devices_lookup(1) by simp
  have b: "0x7C \<notin> set (bytes ''vfs0'')" by (simp add: bytes_def)
  show ?thesis
    using return_of_device_not_counted [OF demo_names(3) b l _ m h] h by (auto simp: builtin_def)
qed

theorem registry_lookup_witness:
  "lookup_desc (bytes ''vfs0'') (snd (set_online (bytes ''vfs0'') False demo_devices)) = Some (builtin ''vfs0'' ''vfs'' VFS_TOOLS)"
proof -
  have "devices.one_per_key demo_devices"
    by (auto simp: devices.one_per_key_def demo_devices_def register_builtin_devices_def register_device_def registered_def
        builtin_def bytes_def)
  then show ?thesis using registry_lookup [of demo_devices] demo_devices_lookup(1) by simp
qed

end
