(* ===== verification/Elf.thy ===== *)
theory Elf
  imports Karte_Prelude
begin

unbundle bit_operations_syntax

text \<open>
  The two parsers of executables, \<open>kernel/src/process/elf.rs\<close>: \<open>ElfInfo\<close>, which needs only the
  beginning of a file, and \<open>ElfFile\<close>. Both read headers through raw pointers. A parser returns
  \<open>None\<close> where such a read leaves the buffer, which Rust leaves undefined, and otherwise an error
  or a value. Alignment of the pointers is not modelled; the machine type is that of x86-64.
\<close>

section \<open>Model\<close>

definition ELF_MAGIC :: u32 where "ELF_MAGIC = 0x464c457f"
definition EM_MACHINE :: u16 where "EM_MACHINE = 62"
definition PT_LOAD :: u32 where "PT_LOAD = 1"
definition PT_PHDR :: u32 where "PT_PHDR = 6"

record elf_header =
  eh_ident :: "u8 list"
  eh_type :: u16
  eh_machine :: u16
  eh_version :: u32
  eh_entry :: u64
  eh_phoff :: u64
  eh_shoff :: u64
  eh_flags :: u32
  eh_ehsize :: u16
  eh_phentsize :: u16
  eh_phnum :: u16
  eh_shentsize :: u16
  eh_shnum :: u16
  eh_shstrndx :: u16

record program_header =
  ph_type :: u32
  ph_flags :: u32
  ph_offset :: u64
  ph_vaddr :: u64
  ph_paddr :: u64
  ph_file_size :: u64
  ph_mem_size :: u64
  ph_align :: u64

record segment =
  sg_vaddr :: usize
  sg_offset :: usize
  sg_file_size :: usize
  sg_mem_size :: usize
  sg_flags :: usize

record elf_segment_info =
  si_vaddr :: usize
  si_mem_size :: usize
  si_file_size :: usize
  si_offset :: usize
  si_flags :: u32

record elf_info =
  ei_entry :: usize
  ei_segments :: "elf_segment_info option list"
  ei_num_segments :: usize
  ei_phdr_vaddr :: usize
  ei_phent :: usize
  ei_phnum :: usize

record elf_file =
  ef_entry :: usize
  ef_loadable_segments :: "segment list"

text \<open>The fields of the two \<open>repr(C)\<close> structures, at their offsets, and their sizes.\<close>

definition le_at :: "u8 list \<Rightarrow> nat \<Rightarrow> nat \<Rightarrow> 'a::len word" where
  "le_at data off n = le_word (take n (drop off data))"

definition HEADER_SIZE :: nat where "HEADER_SIZE = 64"
definition PHDR_SIZE :: nat where "PHDR_SIZE = 56"

definition header_of :: "u8 list \<Rightarrow> elf_header" where
  "header_of d =
    \<lparr>eh_ident = take 16 d, eh_type = le_at d 16 2, eh_machine = le_at d 18 2, eh_version = le_at d 20 4,
     eh_entry = le_at d 24 8, eh_phoff = le_at d 32 8, eh_shoff = le_at d 40 8, eh_flags = le_at d 48 4,
     eh_ehsize = le_at d 52 2, eh_phentsize = le_at d 54 2, eh_phnum = le_at d 56 2,
     eh_shentsize = le_at d 58 2, eh_shnum = le_at d 60 2, eh_shstrndx = le_at d 62 2\<rparr>"

definition phdr_at :: "u8 list \<Rightarrow> usize \<Rightarrow> program_header option" where
  "phdr_at data off =
    (if off + PHDR_SIZE \<le> length data
     then let d = drop off data in
       Some \<lparr>ph_type = le_at d 0 4, ph_flags = le_at d 4 4, ph_offset = le_at d 8 8, ph_vaddr = le_at d 16 8,
         ph_paddr = le_at d 24 8, ph_file_size = le_at d 32 8, ph_mem_size = le_at d 40 8, ph_align = le_at d 48 8\<rparr>
     else None)"

definition ident_error :: "elf_header \<Rightarrow> string option" where
  "ident_error h =
    (if le_word (take 4 (eh_ident h)) \<noteq> ELF_MAGIC then Some ''ELF: bad magic''
     else if eh_ident h ! 4 \<noteq> 2 then Some ''ELF: not 64-bit''
     else if eh_ident h ! 5 \<noteq> 1 then Some ''ELF: not little-endian''
     else if eh_machine h \<noteq> EM_MACHINE then Some ''ELF: wrong machine type''
     else None)"

definition seg_info :: "program_header \<Rightarrow> elf_segment_info" where
  "seg_info ph = \<lparr>si_vaddr = unat (ph_vaddr ph), si_mem_size = unat (ph_mem_size ph), si_file_size = unat (ph_file_size ph),
     si_offset = unat (ph_offset ph), si_flags = ph_flags ph\<rparr>"

definition seg_of :: "program_header \<Rightarrow> segment" where
  "seg_of ph = \<lparr>sg_vaddr = unat (ph_vaddr ph), sg_offset = unat (ph_offset ph), sg_file_size = unat (ph_file_size ph),
     sg_mem_size = unat (ph_mem_size ph), sg_flags = unat (ph_flags ph)\<rparr>"

text \<open>The program header of one round of the loops: out of bounds, or read through the pointer.\<close>

definition nth_phdr :: "u8 list \<Rightarrow> elf_header \<Rightarrow> usize \<Rightarrow> (string + program_header) option" where
  "nth_phdr data h i =
    (let off = wadd (unat (eh_phoff h)) (wmul i (unat (eh_phentsize h)))
     in if wadd off (unat (eh_phentsize h)) > length data then Some (Inl ''ELF: program header out of bounds'')
        else map_option Inr (phdr_at data off))"

type_synonym info_state = "elf_segment_info option list \<times> usize \<times> usize"

definition info_phdr :: "program_header \<Rightarrow> info_state \<Rightarrow> info_state" where
  "info_phdr ph st =
    (case st of (segs, n, pv) \<Rightarrow>
      let pv' = (if ph_type ph = PT_PHDR then unat (ph_vaddr ph) else pv)
      in if ph_type ph = PT_LOAD then (segs[n := Some (seg_info ph)], n + 1, pv') else (segs, n, pv'))"

fun info_loop :: "u8 list \<Rightarrow> elf_header \<Rightarrow> usize list \<Rightarrow> info_state \<Rightarrow> (string + info_state) option" where
  "info_loop data h [] st = Some (Inr st)"
| "info_loop data h (i # is) st =
    (if fst (snd st) \<ge> 16 then Some (Inr st)
     else case nth_phdr data h i of
         None \<Rightarrow> None
       | Some (Inl e) \<Rightarrow> Some (Inl e)
       | Some (Inr ph) \<Rightarrow> info_loop data h is (info_phdr ph st))"

definition guess_phdr_vaddr :: "elf_header \<Rightarrow> elf_segment_info option list \<Rightarrow> usize \<Rightarrow> usize" where
  "guess_phdr_vaddr h segs pv =
    (if pv = 0 then
       (case segs ! 0 of
          Some s \<Rightarrow> if unat (eh_phoff h) \<ge> si_offset s \<and> si_file_size s > 0
                    then wadd (si_vaddr s) (unat (eh_phoff h) - si_offset s) else pv
        | None \<Rightarrow> pv)
     else pv)"

definition parse_header_only :: "u8 list \<Rightarrow> (string + elf_info) option" where
  "parse_header_only data =
    (if length data < HEADER_SIZE then Some (Inl ''ELF: too small for header'')
     else let h = header_of data in
       case ident_error h of
         Some e \<Rightarrow> Some (Inl e)
       | None \<Rightarrow>
          (case info_loop data h [0..<unat (eh_phnum h)] (replicate 16 None, 0, 0) of
             None \<Rightarrow> None
           | Some (Inl e) \<Rightarrow> Some (Inl e)
           | Some (Inr (segs, n, pv)) \<Rightarrow>
               if n = 0 then Some (Inl ''ELF: no loadable segments'')
               else Some (Inr \<lparr>ei_entry = unat (eh_entry h), ei_segments = segs, ei_num_segments = n,
                  ei_phdr_vaddr = guess_phdr_vaddr h segs pv, ei_phent = unat (eh_phentsize h), ei_phnum = unat (eh_phnum h)\<rparr>)))"

fun file_loop :: "u8 list \<Rightarrow> elf_header \<Rightarrow> usize list \<Rightarrow> segment list \<Rightarrow> (string + segment list) option" where
  "file_loop data h [] acc = Some (Inr acc)"
| "file_loop data h (i # is) acc =
    (case nth_phdr data h i of
       None \<Rightarrow> None
     | Some (Inl e) \<Rightarrow> Some (Inl e)
     | Some (Inr ph) \<Rightarrow> file_loop data h is (if ph_type ph = PT_LOAD then acc @ [seg_of ph] else acc))"

definition elf_parse :: "u8 list \<Rightarrow> (string + elf_file) option" where
  "elf_parse data =
    (if length data < HEADER_SIZE then Some (Inl ''ELF: too small'')
     else let h = header_of data in
       case ident_error h of
         Some e \<Rightarrow> Some (Inl e)
       | None \<Rightarrow>
          (case file_loop data h [0..<unat (eh_phnum h)] [] of
             None \<Rightarrow> None
           | Some (Inl e) \<Rightarrow> Some (Inl e)
           | Some (Inr segs) \<Rightarrow>
               if segs = [] then Some (Inl ''ELF: no loadable segments'')
               else Some (Inr \<lparr>ef_entry = unat (eh_entry h), ef_loadable_segments = segs\<rparr>)))"

section \<open>Well-formed results\<close>

definition elf_info_wf :: "elf_info \<Rightarrow> bool" where
  "elf_info_wf i \<longleftrightarrow> length (ei_segments i) = 16 \<and> 1 \<le> ei_num_segments i \<and> ei_num_segments i \<le> 16 \<and>
     (\<forall>k < 16. ei_segments i ! k \<noteq> None \<longleftrightarrow> k < ei_num_segments i)"

definition info_state_ok :: "info_state \<Rightarrow> bool" where
  "info_state_ok st \<longleftrightarrow> (case st of (segs, n, _) \<Rightarrow> length segs = 16 \<and> n \<le> 16 \<and> (\<forall>k < 16. segs ! k \<noteq> None \<longleftrightarrow> k < n))"

lemma info_phdr_ok: "info_state_ok st \<Longrightarrow> fst (snd st) < 16 \<Longrightarrow> info_state_ok (info_phdr ph st)"
  by (auto simp: info_state_ok_def info_phdr_def Let_def nth_list_update split: prod.splits if_splits)

lemma info_loop_ok: "info_state_ok st \<Longrightarrow> info_loop data h is st = Some (Inr st') \<Longrightarrow> info_state_ok st'"
  by (induction data h "is" st rule: info_loop.induct) (auto simp: info_phdr_ok split: if_splits option.splits sum.splits)

text \<open>
  C10: Every result of the parser for the beginning of a file is well-formed: between 1 and 16 of the 16
  slots are filled, they are the first ones, and their number is the recorded one. The loaders, which
  unwrap the slots up to that number, cannot panic.
\<close>

theorem parse_header_only_wf:
  assumes "parse_header_only data = Some (Inr i)"
  shows "elf_info_wf i"
proof -
  have "info_state_ok (replicate 16 None, 0, 0)" by (simp add: info_state_ok_def)
  note loop = info_loop_ok [OF this]
  from assms obtain segs n pv where "info_loop data (header_of data) [0..<unat (eh_phnum (header_of data))] (replicate 16 None, 0, 0) = Some (Inr (segs, n, pv))"
    and "n \<noteq> 0" and "ei_segments i = segs" "ei_num_segments i = n"
    by (auto simp: parse_header_only_def Let_def split: if_splits option.splits sum.splits)
  with loop show ?thesis by (fastforce simp: elf_info_wf_def info_state_ok_def)
qed

section \<open>Reads inside the buffer\<close>

lemma nth_phdr_defined:
  assumes "PHDR_SIZE \<le> unat (eh_phentsize h)" and "i < n" and "unat (eh_phoff h) + n * unat (eh_phentsize h) < 2 ^ 64"
  shows "nth_phdr data h i \<noteq> None"
proof -
  let ?e = "unat (eh_phentsize h)" and ?o = "unat (eh_phoff h)"
  have "Suc i * ?e \<le> n * ?e" using assms(2) by (intro mult_le_mono1) simp
  then have b: "?o + i * ?e + ?e < 2 ^ 64" using assms(3) by simp
  then have "wmul i ?e = i * ?e" "wadd ?o (i * ?e) = ?o + i * ?e" "wadd (?o + i * ?e) ?e = ?o + i * ?e + ?e"
    by (simp_all add: wrap_simps)
  then show ?thesis using assms(1) by (simp add: nth_phdr_def phdr_at_def Let_def)
qed

lemma info_loop_defined: "\<forall>i \<in> set is. nth_phdr data h i \<noteq> None \<Longrightarrow> info_loop data h is st \<noteq> None"
  by (induction data h "is" st rule: info_loop.induct) (auto split: option.splits sum.splits)

lemma file_loop_defined: "\<forall>i \<in> set is. nth_phdr data h i \<noteq> None \<Longrightarrow> file_loop data h is acc \<noteq> None"
  by (induction data h "is" acc rule: file_loop.induct) (auto split: option.splits sum.splits)

text \<open>
  C21: Both parsers stay inside the buffer for any file whose header declares program headers of at
  least the size the code reads and whose program header table does not wrap around the address
  space, however short or damaged the file is.
\<close>

theorem elf_parsers_stay_inside:
  assumes "PHDR_SIZE \<le> unat (eh_phentsize (header_of data))"
    and "unat (eh_phoff (header_of data)) + unat (eh_phnum (header_of data)) * unat (eh_phentsize (header_of data)) < 2 ^ 64"
  shows "parse_header_only data \<noteq> None \<and> elf_parse data \<noteq> None"
proof -
  let ?h = "header_of data"
  have "\<forall>i \<in> set [0..<unat (eh_phnum ?h)]. nth_phdr data ?h i \<noteq> None"
    using nth_phdr_defined [OF assms(1) _ assms(2)] by simp
  then obtain r f where "info_loop data ?h [0..<unat (eh_phnum ?h)] (replicate 16 None, 0, 0) = Some r"
    "file_loop data ?h [0..<unat (eh_phnum ?h)] [] = Some f"
    using info_loop_defined [of _ data ?h "(replicate 16 None, 0, 0)"] file_loop_defined [of _ data ?h "[]"] by blast
  then show ?thesis
    by (auto simp: parse_header_only_def elf_parse_def Let_def split: option.splits sum.splits)
qed

text \<open>
  C38: The bounds check uses the declared size of a program header, not the size that is read, and its
  additions wrap around. A header that declares smaller entries near the end of the file, or a table
  offset at the top of the address space, passes the check, and both parsers read outside the buffer.
\<close>

theorem elf_parsers_read_outside:
  assumes "HEADER_SIZE \<le> length data" and "ident_error (header_of data) = None" and "eh_phnum (header_of data) \<noteq> 0"
    and "wadd (unat (eh_phoff (header_of data))) (unat (eh_phentsize (header_of data))) \<le> length data"
    and "length data < unat (eh_phoff (header_of data)) + PHDR_SIZE"
  shows "parse_header_only data = None \<and> elf_parse data = None"
proof -
  let ?h = "header_of data"
  have "unat (eh_phoff ?h) < 2 ^ 64" using unsigned_less [of "eh_phoff ?h"] by simp
  then have first: "nth_phdr data ?h 0 = None" using assms(4,5) by (simp add: nth_phdr_def phdr_at_def Let_def wmul_def wadd_eq)
  have up: "[0..<unat (eh_phnum ?h)] = 0 # [1..<unat (eh_phnum ?h)]" using assms(3) by (simp add: upt_conv_Cons unat_gt_0)
  show ?thesis using assms(1,2) by (simp add: parse_header_only_def elf_parse_def Let_def up first)
qed

section \<open>The two parsers agree\<close>

definition info_of_seg :: "segment \<Rightarrow> elf_segment_info" where
  "info_of_seg s = \<lparr>si_vaddr = sg_vaddr s, si_mem_size = sg_mem_size s, si_file_size = sg_file_size s,
     si_offset = sg_offset s, si_flags = of_nat (sg_flags s)\<rparr>"

lemma info_of_seg_of [simp]: "info_of_seg (seg_of ph) = seg_info ph"
  by (simp add: info_of_seg_def seg_of_def seg_info_def)

definition seen_segs :: "info_state \<Rightarrow> elf_segment_info option list" where
  "seen_segs st = take (fst (snd st)) (fst st)"

lemma file_loop_extends: "file_loop data h is acc = Some (Inr segs) \<Longrightarrow> \<exists>more. segs = acc @ more"
  by (induction data h "is" acc rule: file_loop.induct) (fastforce split: option.splits sum.splits if_splits)+

lemma seen_segs_phdr:
  assumes "info_state_ok st" and "fst (snd st) < 16"
  shows "seen_segs (info_phdr ph st) = seen_segs st @ (if ph_type ph = PT_LOAD then [Some (seg_info ph)] else [])"
  using assms by (auto simp: seen_segs_def info_phdr_def info_state_ok_def Let_def take_Suc_conv_app_nth split: prod.splits)

lemma loops_agree:
  assumes "info_state_ok st" and "seen_segs st = map (Some \<circ> info_of_seg) acc"
    and "file_loop data h is acc = Some (Inr segs)"
  shows "\<exists>st'. info_loop data h is st = Some (Inr st') \<and> seen_segs st' = map (Some \<circ> info_of_seg) (take 16 segs)"
  using assms
proof (induction "is" arbitrary: st acc)
  case Nil
  have "length acc = length (seen_segs st)" using Nil.prems(2) by simp
  also have "\<dots> \<le> 16" using Nil.prems(1) by (auto simp: seen_segs_def info_state_ok_def)
  finally have "length acc \<le> 16" .
  with Nil show ?case by simp
next
  case (Cons i "is")
  obtain s n pv where st: "st = (s, n, pv)" by (cases st)
  have len: "length acc = n" and n: "n \<le> 16"
    using Cons.prems(1) arg_cong [OF Cons.prems(2), of length] by (auto simp: st seen_segs_def info_state_ok_def)
  show ?case
  proof (cases "n < 16")
    case False
    then obtain more where "segs = acc @ more" using file_loop_extends [OF Cons.prems(3)] by blast
    with False n len Cons.prems(2) show ?thesis by (simp add: st)
  next
    case True
    from Cons.prems(3) obtain ph where ph: "nth_phdr data h i = Some (Inr ph)"
      and rest: "file_loop data h is (if ph_type ph = PT_LOAD then acc @ [seg_of ph] else acc) = Some (Inr segs)"
      by (auto split: option.splits sum.splits)
    have "info_state_ok (info_phdr ph st)" using Cons.prems(1) True by (intro info_phdr_ok) (simp_all add: st)
    moreover have "seen_segs (info_phdr ph st) = map (Some \<circ> info_of_seg) (if ph_type ph = PT_LOAD then acc @ [seg_of ph] else acc)"
      using seen_segs_phdr [OF Cons.prems(1), of ph] True Cons.prems(2) by (simp add: st)
    ultimately show ?thesis using Cons.IH [OF _ _ rest] True ph by (simp add: st)
  qed
qed

text \<open>
  C15: The two parsers agree: a file that the full parser accepts is accepted by the parser for the
  beginning of a file, with the same entry point and the same segments in the same order, of which it
  keeps the first 16.
\<close>

theorem elf_parsers_agree:
  assumes "elf_parse data = Some (Inr f)"
  shows "\<exists>i. parse_header_only data = Some (Inr i) \<and> ei_entry i = ef_entry f \<and>
    take (ei_num_segments i) (ei_segments i) = map (Some \<circ> info_of_seg) (take 16 (ef_loadable_segments f))"
proof -
  let ?h = "header_of data"
  from assms obtain segs where h: "\<not> length data < HEADER_SIZE" "ident_error ?h = None" "segs \<noteq> []"
    and loop: "file_loop data ?h [0..<unat (eh_phnum ?h)] [] = Some (Inr segs)"
    and f: "f = \<lparr>ef_entry = unat (eh_entry ?h), ef_loadable_segments = segs\<rparr>"
    by (auto simp: elf_parse_def Let_def split: if_splits option.splits sum.splits)
  obtain st' where l: "info_loop data ?h [0..<unat (eh_phnum ?h)] (replicate 16 None, 0, 0) = Some (Inr st')"
    and s: "seen_segs st' = map (Some \<circ> info_of_seg) (take 16 segs)"
    using loops_agree [OF _ _ loop, of "(replicate 16 None, 0, 0)"] by (auto simp: info_state_ok_def seen_segs_def)
  obtain sg n pv where st': "st' = (sg, n, pv)" by (cases st')
  have "n \<noteq> 0" using s h(3) by (cases n) (auto simp: st' seen_segs_def)
  with h(1,2) l s show ?thesis by (simp add: parse_header_only_def Let_def st' f seen_segs_def)
qed

section \<open>Well-formed files\<close>

definition phdr_bytes :: "program_header \<Rightarrow> u8 list" where
  "phdr_bytes ph = le_bytes 4 (ph_type ph) @ le_bytes 4 (ph_flags ph) @ le_bytes 8 (ph_offset ph) @ le_bytes 8 (ph_vaddr ph) @
     le_bytes 8 (ph_paddr ph) @ le_bytes 8 (ph_file_size ph) @ le_bytes 8 (ph_mem_size ph) @ le_bytes 8 (ph_align ph)"

definition ident_bytes :: "u8 list" where
  "ident_bytes = [0x7F, 0x45, 0x4C, 0x46, 2, 1, 1, 0, 0, 0, 0, 0, 0, 0, 0, 0]"

definition header_bytes :: "u64 \<Rightarrow> u64 \<Rightarrow> u16 \<Rightarrow> u16 \<Rightarrow> u8 list" where
  "header_bytes entry phoff phentsize phnum = ident_bytes @ le_bytes 2 (2 :: u16) @ le_bytes 2 EM_MACHINE @ le_bytes 4 (1 :: u32) @
     le_bytes 8 entry @ le_bytes 8 phoff @ le_bytes 8 (0 :: u64) @ le_bytes 4 (0 :: u32) @ le_bytes 2 (64 :: u16) @
     le_bytes 2 phentsize @ le_bytes 2 phnum @ le_bytes 2 (0 :: u16) @ le_bytes 2 (0 :: u16) @ le_bytes 2 (0 :: u16)"

definition elf_image :: "u64 \<Rightarrow> program_header list \<Rightarrow> u8 list" where
  "elf_image entry phs = header_bytes entry 64 56 (of_nat (length phs)) @ concat (map phdr_bytes phs)"

lemma le_at_skip: "length xs \<le> off \<Longrightarrow> le_at (xs @ ys) off n = le_at ys (off - length xs) n"
  by (simp add: le_at_def)

lemma le_at_here: "LENGTH('a::len) \<le> 8 * n \<Longrightarrow> le_at (le_bytes n (w :: 'a word) @ ys) 0 n = w"
  by (simp add: le_at_def le_word_le_bytes)

lemma le_at_last: "LENGTH('a::len) \<le> 8 * n \<Longrightarrow> le_at (le_bytes n (w :: 'a word)) 0 n = w"
  using le_at_here [of n w "[]"] by simp

lemma length_header_bytes [simp]: "length (header_bytes e po pe n) = 64"
  by (simp add: header_bytes_def ident_bytes_def)

lemma length_phdr_bytes [simp]: "length (phdr_bytes ph) = 56"
  by (simp add: phdr_bytes_def)

lemma length_ident_bytes: "length ident_bytes = 16"
  by (simp add: ident_bytes_def)

lemmas le_at_simps = le_at_skip le_at_here le_at_last length_ident_bytes

lemma header_of_bytes:
  "eh_ident (header_of (header_bytes e po pe n @ ys)) = ident_bytes" "eh_machine (header_of (header_bytes e po pe n @ ys)) = EM_MACHINE"
  "eh_entry (header_of (header_bytes e po pe n @ ys)) = e" "eh_phoff (header_of (header_bytes e po pe n @ ys)) = po"
  "eh_phentsize (header_of (header_bytes e po pe n @ ys)) = pe" "eh_phnum (header_of (header_bytes e po pe n @ ys)) = n"
  by (simp_all add: header_of_def header_bytes_def le_at_simps)

lemma phdr_at_bytes: "phdr_at (phdr_bytes ph @ ys) 0 = Some ph"
  by (cases ph) (simp add: phdr_at_def PHDR_SIZE_def phdr_bytes_def le_at_simps)

lemma phdr_at_skip: "phdr_at (xs @ ys) (length xs + k) = phdr_at ys k"
  by (simp add: phdr_at_def Let_def)

lemma phdr_at_table:
  "i < length phs \<Longrightarrow> phdr_at (concat (map phdr_bytes phs) @ ys) (i * 56) = Some (phs ! i)"
proof (induction phs arbitrary: i)
  case (Cons ph phs)
  show ?case
  proof (cases i)
    case 0
    then show ?thesis by (simp add: phdr_at_bytes)
  next
    case (Suc k)
    with Cons show ?thesis using phdr_at_skip [of "phdr_bytes ph" "concat (map phdr_bytes phs) @ ys" "k * 56"] by simp
  qed
qed simp

lemma length_phdr_table: "length (concat (map phdr_bytes phs)) = length phs * 56"
  by (induction phs) simp_all

lemma nth_phdr_image:
  assumes "i < length phs" and "length phs < 2 ^ 16"
  shows "nth_phdr (elf_image e phs @ ys) (header_of (elf_image e phs @ ys)) i = Some (Inr (phs ! i))"
proof -
  have off: "wadd 64 (wmul i 56) = 64 + i * 56" "wadd (64 + i * 56) 56 = 64 + i * 56 + 56" "64 + i * 56 + 56 \<le> 64 + length phs * 56"
    using assms by (simp_all add: wadd_def wmul_def)
  have "phdr_at (elf_image e phs @ ys) (64 + i * 56) = Some (phs ! i)"
    using phdr_at_skip [of "header_bytes e 64 56 (of_nat (length phs))" "concat (map phdr_bytes phs) @ ys" "i * 56"]
      phdr_at_table [OF assms(1), of ys] by (simp add: elf_image_def)
  with off show ?thesis by (simp add: nth_phdr_def elf_image_def header_of_bytes length_phdr_table)
qed

lemma file_loop_image:
  assumes "\<forall>i \<in> set is. nth_phdr data h i = Some (Inr (phs ! i))"
  shows "file_loop data h is acc = Some (Inr (acc @ map seg_of (filter (\<lambda>ph. ph_type ph = PT_LOAD) (map ((!) phs) is))))"
  using assms by (induction "is" arbitrary: acc) auto

lemma ident_error_image: "ident_error (header_of (header_bytes e po pe n @ ys)) = None"
  by (simp add: ident_error_def header_of_bytes) (simp add: ident_bytes_def ELF_MAGIC_def)

text \<open>
  C13: A file that begins with the header of an executable for this machine, without sections, and, directly behind it, fewer
  than 65536 program headers of 56 bytes of which one is loadable, parses to its entry point and to
  exactly its loadable segments, in their order, whatever follows the headers.
\<close>

theorem elf_parse_roundtrip:
  assumes "length phs < 2 ^ 16" and "\<exists>ph \<in> set phs. ph_type ph = PT_LOAD"
  shows "elf_parse (elf_image entry phs @ rest) =
    Some (Inr \<lparr>ef_entry = unat entry, ef_loadable_segments = map seg_of (filter (\<lambda>ph. ph_type ph = PT_LOAD) phs)\<rparr>)"
proof -
  let ?d = "elf_image entry phs @ rest"
  have n: "unat (eh_phnum (header_of ?d)) = length phs"
    using assms(1) by (simp add: elf_image_def header_of_bytes unat_of_nat)
  have "\<forall>i \<in> set [0..<length phs]. nth_phdr ?d (header_of ?d) i = Some (Inr (phs ! i))"
    using nth_phdr_image [OF _ assms(1)] by simp
  from file_loop_image [OF this] have loop: "file_loop ?d (header_of ?d) [0..<unat (eh_phnum (header_of ?d))] [] =
      Some (Inr (map seg_of (filter (\<lambda>ph. ph_type ph = PT_LOAD) phs)))"
    by (simp add: n map_nth)
  have "filter (\<lambda>ph. ph_type ph = PT_LOAD) phs \<noteq> []" using assms(2) by (auto simp: filter_empty_conv)
  moreover have "ident_error (header_of ?d) = None" "eh_entry (header_of ?d) = entry" "HEADER_SIZE \<le> length ?d"
    by (simp_all add: elf_image_def ident_error_image header_of_bytes HEADER_SIZE_def)
  ultimately show ?thesis using loop by (simp add: elf_parse_def Let_def)
qed

section \<open>Witnesses\<close>

definition demo_phdr :: program_header where
  "demo_phdr = \<lparr>ph_type = 1, ph_flags = 5, ph_offset = 0, ph_vaddr = 0x400000, ph_paddr = 0, ph_file_size = 64, ph_mem_size = 4096, ph_align = 4096\<rparr>"

definition demo_file :: "u8 list" where "demo_file = elf_image 0x400000 [demo_phdr] @ [7]"

lemma demo_file_facts:
  "nth_phdr demo_file (header_of demo_file) 0 = Some (Inr demo_phdr)" "ident_error (header_of demo_file) = None"
  "eh_entry (header_of demo_file) = 0x400000" "HEADER_SIZE \<le> length demo_file" "eh_phnum (header_of demo_file) = 1"
proof -
  show "nth_phdr demo_file (header_of demo_file) 0 = Some (Inr demo_phdr)"
    using nth_phdr_image [of 0 "[demo_phdr]" "0x400000" "[7]"] by (simp add: demo_file_def)
qed (simp_all add: demo_file_def elf_image_def ident_error_image header_of_bytes HEADER_SIZE_def)

lemma demo_file_parses: "elf_parse demo_file = Some (Inr \<lparr>ef_entry = 0x400000, ef_loadable_segments = [seg_of demo_phdr]\<rparr>)"
  using demo_file_facts by (simp add: elf_parse_def Let_def demo_phdr_def PT_LOAD_def)

lemma demo_file_info: "\<exists>i. parse_header_only demo_file = Some (Inr i)"
  using demo_file_facts by (simp add: parse_header_only_def Let_def demo_phdr_def PT_LOAD_def info_phdr_def)

theorem elf_parse_roundtrip_witness:
  "elf_parse (elf_image 0x400000 [demo_phdr] @ [7]) = Some (Inr \<lparr>ef_entry = 0x400000, ef_loadable_segments = [seg_of demo_phdr]\<rparr>)"
  using elf_parse_roundtrip [of "[demo_phdr]" "0x400000" "[7]"] by (simp add: demo_phdr_def PT_LOAD_def)

theorem elf_parsers_agree_witness: "\<exists>i. parse_header_only demo_file = Some (Inr i) \<and> ei_entry i = 0x400000"
  using elf_parsers_agree [OF demo_file_parses] by auto

theorem parse_header_only_wf_witness: "\<exists>i. parse_header_only demo_file = Some (Inr i) \<and> elf_info_wf i"
  using demo_file_info parse_header_only_wf by blast

theorem elf_parsers_stay_inside_witness:
  "parse_header_only (header_bytes 0 64 56 9 @ [7]) \<noteq> None \<and> elf_parse (header_bytes 0 64 56 9 @ [7]) \<noteq> None"
  using elf_parsers_stay_inside [of "header_bytes 0 64 56 9 @ [7]"] by (simp add: header_of_bytes PHDR_SIZE_def)

theorem elf_parsers_read_outside_witness:
  "elf_parse (header_bytes 0 64 0 1 @ [7]) = None \<and> parse_header_only (header_bytes 0 (- 56) 56 1 @ [7]) = None"
  using elf_parsers_read_outside [of "header_bytes 0 64 0 1 @ [7]"] elf_parsers_read_outside [of "header_bytes 0 (- 56) 56 1 @ [7]"]
  by (simp add: header_of_bytes ident_error_image PHDR_SIZE_def HEADER_SIZE_def wadd_def)

end
