(* ===== verification/Spec2Isabelle.thy ===== *)
theory Spec2Isabelle
  imports Frame Vma Pipe Kernel_Log Token_Pipe Fd_Table File_Locks Fd_Calls Ram_Fs Keyboard Ota Cap_Auth Mqtt Drt Elf
begin

text \<open>
  KarteOS is an operating system kernel in Rust for x86-64 and RISC-V. This development models the
  parts of it that are deterministic programs over kernel data structures, and proves what they
  promise each other. The sources are under \<open>src/kernel/src\<close>; the names of definitions are those of
  the Rust functions, with a prefix where several types have a method of the same name.

  \<^bold>\<open>Parts and how they interact.\<close> The physical memory manager hands out frames; typed frames own them.
  Each address space has a table of virtual memory areas. The scheduler keeps tasks in a table and
  the ready ones in a queue of 32 levels; pipes and file locks block and wake tasks through it. A
  process reaches pipes, files and the terminal through its descriptor table, which the descriptor
  calls keep consistent with the reference counts of the pipes. The keyboard feeds the terminal.
  Rings carry the bytes of pipes, of the terminal and of the log, and the tokens of the token pipe.
  The device fabric stands beside these: devices register their capabilities and are followed on the
  network by announcements and heartbeats; capability tokens grant the use of a tool for a time;
  MQTT packets carry messages; and a machine boots from one of two image slots, each guarded by a
  checksum.

  \<^bold>\<open>Conventions.\<close> The kernel is built in release mode for 64-bit machines, so \<open>usize\<close> is a natural
  number with the wrap-around written out (\<open>wadd\<close>, \<open>wsub\<close>, \<open>wmul\<close>), and other integers are words of
  their width. A panic is \<open>None\<close> of \<open>'a panicking\<close>. Statics are the fields of a state record that
  every operation takes and returns. The model has one processor, on which a system call runs until
  it blocks, yields or returns; what it does up to there is one step, also where it drops a lock and
  takes it again (as \<open>pipe_read\<close> does before it blocks), and what other tasks do in between is an
  argument or another step. Where the two architectures differ, the x86-64 configuration is
  modelled.

  \<^bold>\<open>Theories.\<close>
  \<^item> \<open>Karte_Prelude\<close>: types, wrap-around and page arithmetic, little-endian bytes, bit maps, first-match tables, the locale \<open>keyed_table\<close>.
  \<^item> \<open>Pmm\<close>: \<open>mm/pmm.rs\<close>. The bitmap allocator: allocation takes the first clear frame and no other, contiguous
    allocation is first fit, freeing clears exactly one bit, indices never panic.
  \<^item> \<open>Frame\<close>: \<open>mm/addr.rs\<close>, \<open>mm/frame.rs\<close>. Typed addresses and owning frames: every live owner has its own frame, and
    a dropped frame can be allocated again.
  \<^item> \<open>Vma\<close>: \<open>mm/vma.rs\<close>. The regions of an address space, related to a function from addresses to protections:
    mapping, unmapping, protecting, reserving, copying at a fork, isolation of address spaces.
  \<^item> \<open>Ready_Queue\<close>: \<open>sched/class.rs\<close>, \<open>sched/ready_queue.rs\<close>. The levels with their bitmap: the next task is the first one of
    the highest level that is not empty, after the promotion of a starved batch task.
  \<^item> \<open>Scheduler\<close>: \<open>sched/mod.rs\<close>, \<open>sched/task.rs\<close>. The invariant of the task table, the queues and the process map under
    the scheduling operations (unless a process removes its own task), work conservation, fresh slots.
  \<^item> \<open>Ring\<close>: windows of ring buffers and the queue contracts.
  \<^item> \<open>Pipe\<close>: \<open>driver/pipe.rs\<close> and its blocking use in \<open>syscall/mod.rs\<close>, over the scheduler. What is written is
    read, once and in order; the waiting reader is woken.
  \<^item> \<open>Kernel_Log, Token_Pipe\<close>: \<open>kernel_log.rs\<close>, \<open>tokpipe.rs\<close>. The rings that drop the oldest element.
  \<^item> \<open>Tty, Keyboard\<close>: \<open>driver/tty.rs\<close>, \<open>driver/keyboard.rs\<close>. The line discipline against a specification on lists, and the
    translation of scancodes: a line typed on the US layout is the line that is read.
  \<^item> \<open>Fd_Table, File_Locks, Ram_Fs\<close>: \<open>driver/fs.rs\<close>. Descriptor tables, byte-range locks, and the in-memory files as a map from
    names to contents.
  \<^item> \<open>Fd_Calls\<close>: the descriptor calls of \<open>syscall/mod.rs\<close> over tables, pipes and locks: when the counts of a pipe are
    the numbers of its open descriptors.
  \<^item> \<open>Checksum, Ota\<close>: \<open>ota.rs\<close>. The checksum as the standard CRC-32, image slots that are written and read back, detection
    of a changed byte, and the choice of the slot to boot.
  \<^item> \<open>Ustr\<close>: strings as UTF-8 bytes, with validity, splitting and decimal numbers.
  \<^item> \<open>Cap_Auth\<close>: \<open>capauth.rs\<close>. Tokens: which ones are accepted, their lifetime and revocation.
  \<^item> \<open>Mqtt\<close>: \<open>mqtt.rs\<close>. Packets and the variable-length size field: what is encoded is decoded.
  \<^item> \<open>Drt\<close>: \<open>capability.rs\<close>, \<open>drt.rs\<close>. The device registry and the device table as maps, the messages, the time-outs.
  \<^item> \<open>Elf\<close>: \<open>process/elf.rs\<close>. The two parsers of executables: they agree, yield well-formed results, recover the segments
    of a file with the headers at its beginning, and the conditions under which they read only the file buffer.

  \<^bold>\<open>Interfaces.\<close> The contracts between components are locales, interpreted on the model's own
  definitions: \<open>keyed_table\<close> (tables searched by key: the address spaces and the files),
  \<open>frame_source\<close> (both the bitmap allocator and the global one behind its lock), \<open>task_queue\<close> (the
  ready queue as the scheduler uses it), \<open>fifo\<close> with \<open>refusing_fifo\<close> (the terminal ring) and
  \<open>overwriting_fifo\<close> (the log and the token pipe), and \<open>stream\<close> (pipes). The same
  \<open>keyed_table\<close> carries the device registry and the table of devices seen on the network;
  \<open>byte_checksum\<close> is a checksum that steps over bytes injectively in state and byte (the CRC of
  the image slots and the hash that checks manifests).

  \<^bold>\<open>Loops and bounds.\<close> Loops are structural recursion or recursion with a termination proof. Two loops
  of the code need not end: the search for a free mapping range (\<open>reserve_loop\<close>), which is proved to
  return, and the blocking read of standard input (\<open>stdin_read\<close>), which is proved to return to the
  only reader once a completing character arrives and not to return if only end-of-file characters do. The request for
  a file lock (\<open>fcntl_lock_op\<close>) waits once; what other tasks do meanwhile is an argument. No fuel is
  used except where it is the code's own bound.

  \<^bold>\<open>Runs.\<close> \<open>sched_step\<close> and \<open>fd_step\<close> have one rule for every call of the scheduler and of the descriptor
  calls, labelled with whether it is a case that breaks the invariant: a process that removes its own
  task, and six uses of pipe descriptors that miscount them. The invariants are proved for runs
  without these cases, and theorems state what the cases do.

  \<^bold>\<open>Findings.\<close> Theorems of kind \<open>error\<close> state where the code does not do what its comments or its
  callers expect, on inputs that the witnesses give.

  \<^bold>\<open>Not modelled.\<close> Code that is assembly or talks to devices: the architecture directories (boot, traps,
  interrupt controllers, context switch, serial port), the block, network and display drivers, and
  the network stack, which drives an external library. Page tables are hardware structures in raw
  memory that the code edits through pointers. The vendored ext4 library and the file system
  adapters over it are reached only through its calls. Most of the system call dispatcher moves
  arguments between user memory and these parts. User programs, device firmware, tools and build
  scripts are separate programs. The kernel's heap is an external buddy allocator.
  Locks are atomic instructions; what runs under one is a single step here. Epoll, event descriptors
  and the dispatch between file systems tie descriptors of every kind to timers, user memory and
  disk drivers. Six parts that only the kernel's self tests use are left out: the election among
  planners, the compact call frames, the planner's job queue, the model table, the WebAssembly
  interpreter and the service announcements. So are the environment variables and the serial fabric
  node.
\<close>

end
